(* ===== verification/Prelude.thy ===== *)
theory Prelude
  imports Main "HOL-Library.Word" "HOL-Library.List_Lexorder" "HOL-Library.Char_ord"
    "HOL-Library.Product_Lexorder"
begin

text \<open>
  Shared vocabulary of the development.  It holds the names of the machine types the sources
  use, Rust's fixed-width signed arithmetic on \<open>int\<close>, big-endian byte conversions
  (\<^verbatim>\<open>to_be_bytes\<close> / \<^verbatim>\<open>from_be_bytes\<close>), the failure type of code that can panic, and the
  ordered map \<^verbatim>\<open>std::collections::BTreeMap\<close>, modelled by association lists sorted by key and
  stated as an interface (locale \<open>ordered_map\<close>) together with the lemmas its clients use.
\<close>

section \<open>Rule collections\<close>

named_theorems be_simps \<open>big-endian conversion\<close>
named_theorems wrap_simps \<open>fixed-width signed arithmetic\<close>
named_theorems btree_simps \<open>lookups in ordered maps\<close>

section \<open>Machine types\<close>

text \<open>
  Bytes are 8-bit words.  Signed integers of the sources (\<^verbatim>\<open>i16\<close>, \<^verbatim>\<open>i32\<close>, \<^verbatim>\<open>i64\<close>) are
  \<open>int\<close>; wherever an operation of the sources can leave the range, the definition applies
  \<open>wrap32\<close> or \<open>wrap64\<close>, which is what the release profile computes.  \<^verbatim>\<open>usize\<close> is \<open>nat\<close>.
  \<^verbatim>\<open>String\<close> is \<open>string\<close>: a list of bytes ordered lexicographically, as Rust orders \<^verbatim>\<open>str\<close>.
\<close>

type_synonym u8 = "8 word"
type_synonym u32 = "32 word"
type_synonym u64 = "64 word"
type_synonym bytes = "u8 list"

abbreviation i32_max :: int where "i32_max \<equiv> 2147483647"
abbreviation i32_min :: int where "i32_min \<equiv> - 2147483648"
abbreviation usize_max :: nat where "usize_max \<equiv> 18446744073709551615"

definition wrap32 :: "int \<Rightarrow> int" where
  "wrap32 x = signed_take_bit 31 x"

definition wrap64 :: "int \<Rightarrow> int" where
  "wrap64 x = signed_take_bit 63 x"

definition in_i32 :: "int \<Rightarrow> bool" where
  "in_i32 x \<longleftrightarrow> i32_min \<le> x \<and> x \<le> i32_max"

definition in_i64 :: "int \<Rightarrow> bool" where
  "in_i64 x \<longleftrightarrow> - (2 ^ 63) \<le> x \<and> x < 2 ^ 63"

lemma wrap32_id [wrap_simps]: "in_i32 x \<Longrightarrow> wrap32 x = x"
  by (simp add: wrap32_def in_i32_def signed_take_bit_int_eq_self)

lemma wrap64_id [wrap_simps]: "in_i64 x \<Longrightarrow> wrap64 x = x"
  by (simp add: wrap64_def in_i64_def signed_take_bit_int_eq_self)

lemma wrap32_range: "in_i32 (wrap32 x)"
  using signed_take_bit_int_greater_eq_minus_exp [of 31 x] signed_take_bit_int_less_exp [of 31 x]
  by (simp add: wrap32_def in_i32_def)

lemma wrap64_range: "in_i64 (wrap64 x)"
  using signed_take_bit_int_greater_eq_minus_exp [of 63 x] signed_take_bit_int_less_exp [of 63 x]
  by (simp add: wrap64_def in_i64_def)

lemma wrap32_overflow:
  assumes "i32_max < x" and "x \<le> i32_max + 2147483648"
  shows "wrap32 x = x - 4294967296"
proof -
  have "wrap32 x = wrap32 (x - 4294967296)"
  proof -
    have "take_bit (Suc 31) x = take_bit (Suc 31) (x - 4294967296)"
      by (simp add: take_bit_eq_mod mod_diff_eq [symmetric])
    then show ?thesis
      unfolding wrap32_def by (simp add: signed_take_bit_eq_iff_take_bit_eq)
  qed
  also have "\<dots> = x - 4294967296"
    using assms by (intro wrap32_id) (simp add: in_i32_def)
  finally show ?thesis .
qed

section \<open>Big-endian bytes\<close>

primrec be_uint :: "bytes \<Rightarrow> int" where
  "be_uint [] = 0"
| "be_uint (b # bs) = uint b * 256 ^ length bs + be_uint bs"

primrec be_bytes :: "nat \<Rightarrow> int \<Rightarrow> bytes" where
  "be_bytes 0 x = []"
| "be_bytes (Suc n) x = word_of_int (x div 256 ^ n) # be_bytes n x"

definition i16_from_be :: "bytes \<Rightarrow> int" where
  "i16_from_be bs = signed_take_bit 15 (be_uint bs)"

definition i32_from_be :: "bytes \<Rightarrow> int" where
  "i32_from_be bs = signed_take_bit 31 (be_uint bs)"

definition i64_from_be :: "bytes \<Rightarrow> int" where
  "i64_from_be bs = signed_take_bit 63 (be_uint bs)"

lemma length_be_bytes [simp]: "length (be_bytes n x) = n"
  by (induction n) auto

lemma be_bytes_4:
  "be_bytes 4 x = [word_of_int (x div 16777216), word_of_int (x div 65536), word_of_int (x div 256),
     word_of_int x]"
  by (simp add: numeral_eq_Suc)

lemma be_uint_nonneg [simp]: "0 \<le> be_uint bs"
  by (induction bs) auto

lemma be_uint_less: "be_uint bs < 256 ^ length bs"
proof (induction bs)
  case Nil
  then show ?case by simp
next
  case (Cons b bs)
  have "uint b + 1 \<le> 256" using uint_bounded [of b] by simp
  then have "(uint b + 1) * 256 ^ length bs \<le> 256 * 256 ^ length bs"
    by (intro mult_right_mono) auto
  moreover have "(uint b + 1) * 256 ^ length bs = uint b * 256 ^ length bs + 256 ^ length bs"
    by (simp only: distrib_right mult_1)
  ultimately have "uint b * 256 ^ length bs + be_uint bs < 256 * 256 ^ length bs"
    using Cons.IH by linarith
  then show ?case by simp
qed

lemma be_uint_be_bytes [be_simps]: "be_uint (be_bytes n x) = x mod 256 ^ n"
proof (induction n)
  case 0
  then show ?case by simp
next
  case (Suc n)
  have "uint (word_of_int (x div 256 ^ n) :: u8) = x div 256 ^ n mod 256"
    by (simp add: uint_word_of_int)
  moreover have "x mod 256 ^ Suc n = x div 256 ^ n mod 256 * 256 ^ n + x mod 256 ^ n"
    by (metis add.commute mult.commute power_Suc2 zmod_zmult2_eq zero_le_numeral zero_le_power)
  ultimately show ?case using Suc.IH by simp
qed

lemma word_256: "word_of_int 256 = (0 :: u8)"
  by (simp add: word_of_int_eq_iff)

lemma be_bytes_be_uint: "be_bytes (length bs) (be_uint bs) = bs"
proof -
  have shift: "be_bytes n (k * 256 ^ m + y) = be_bytes n y" if "n \<le> m" for n m k y
    using that
  proof (induction n)
    case 0
    then show ?case by simp
  next
    case (Suc n)
    from Suc.prems have "(256::int) ^ m = 256 ^ n * (256 * 256 ^ (m - Suc n))"
      by (metis Suc_diff_le add_diff_inverse_nat diff_Suc_Suc not_less_eq_eq power_Suc
          power_add Suc_le_lessD less_or_eq_imp_le not_less)
    then have "k * 256 ^ m + y = y + 256 ^ n * (k * (256 * 256 ^ (m - Suc n)))"
      by (simp only: ac_simps)
    then have "(k * 256 ^ m + y) div 256 ^ n = k * (256 * 256 ^ (m - Suc n)) + y div 256 ^ n"
      by (simp only: div_mult_self2 [of "256 ^ n"] power_eq_0_iff) simp
    then have "(word_of_int ((k * 256 ^ m + y) div 256 ^ n) :: u8) = word_of_int (y div 256 ^ n)"
      using word_256 by (simp only: wi_hom_add [symmetric] wi_hom_mult [symmetric]) simp
    with Suc show ?case by simp
  qed
  show ?thesis
  proof (induction bs)
    case Nil
    then show ?case by simp
  next
    case (Cons b bs)
    have "(uint b * 256 ^ length bs + be_uint bs) div 256 ^ length bs = uint b"
      using be_uint_less [of bs] by (simp add: div_pos_pos_trivial)
    moreover have "be_bytes (length bs) (uint b * 256 ^ length bs + be_uint bs) = bs"
      using shift [of "length bs" "length bs" "uint b" "be_uint bs"] Cons.IH by simp
    ultimately show ?case by simp
  qed
qed

lemma signed_take_bit_mod: "signed_take_bit n (x mod 2 ^ Suc n) = signed_take_bit n (x :: int)"
  using signed_take_bit_take_bit [of n "Suc n" x] by (simp add: take_bit_eq_mod)

lemma i16_be_roundtrip [be_simps]: "- 32768 \<le> x \<Longrightarrow> x < 32768 \<Longrightarrow> i16_from_be (be_bytes 2 x) = x"
  using signed_take_bit_mod [of 15 x]
  by (simp add: i16_from_be_def be_simps signed_take_bit_int_eq_self)

lemma i32_be_roundtrip [be_simps]: "in_i32 x \<Longrightarrow> i32_from_be (be_bytes 4 x) = x"
  using signed_take_bit_mod [of 31 x]
  by (simp add: i32_from_be_def be_simps in_i32_def signed_take_bit_int_eq_self)

lemma i64_be_roundtrip [be_simps]: "in_i64 x \<Longrightarrow> i64_from_be (be_bytes 8 x) = x"
  using signed_take_bit_mod [of 63 x]
  by (simp add: i64_from_be_def be_simps in_i64_def signed_take_bit_int_eq_self)

section \<open>Numbers as text\<close>

text \<open>Decimal and hexadecimal rendering, as \<^verbatim>\<open>Display\<close> and \<^verbatim>\<open>LowerHex\<close> do.\<close>

definition digit_char :: "nat \<Rightarrow> char" where
  "digit_char d = (if d < 10 then char_of (48 + d) else char_of (87 + d))"

fun show_base :: "nat \<Rightarrow> nat \<Rightarrow> string" where
  "show_base b n = (if b < 2 \<or> n < b then [digit_char n] else show_base b (n div b) @ [digit_char (n mod b)])"

declare show_base.simps [simp del]

definition show_nat :: "nat \<Rightarrow> string" where
  "show_nat n = show_base 10 n"

definition show_int :: "int \<Rightarrow> string" where
  "show_int n = (if n < 0 then CHR ''-'' # show_nat (nat (- n)) else show_nat (nat n))"

definition show_hex :: "nat \<Rightarrow> string" where
  "show_hex n = ''0x'' @ show_base 16 n"

section \<open>Failures\<close>

text \<open>
  Code that can index out of bounds or call \<^verbatim>\<open>expect\<close> has a third outcome beside \<^verbatim>\<open>Ok\<close> and
  \<^verbatim>\<open>Err\<close>: it panics.  Such code returns \<open>'e failure + 'a\<close>.
\<close>

datatype 'e failure = Panicked | Failed 'e

fun bind_sum :: "'e + 'a \<Rightarrow> ('a \<Rightarrow> 'e + 'b) \<Rightarrow> 'e + 'b" where
  "bind_sum (Inl e) f = Inl e"
| "bind_sum (Inr a) f = f a"

lemma bind_sum_Inr_iff: "bind_sum r f = Inr y \<longleftrightarrow> (\<exists>x. r = Inr x \<and> f x = Inr y)"
  by (cases r) auto

lemma bind_sum_Inl_iff: "bind_sum r f = Inl e \<longleftrightarrow> r = Inl e \<or> (\<exists>x. r = Inr x \<and> f x = Inl e)"
  by (cases r) auto

text \<open>A loop whose body may fail.\<close>

fun fold_sum :: "('a \<Rightarrow> 's \<Rightarrow> 'e + 's) \<Rightarrow> 'a list \<Rightarrow> 's \<Rightarrow> 'e + 's" where
  "fold_sum f [] s = Inr s"
| "fold_sum f (x # xs) s = bind_sum (f x s) (fold_sum f xs)"

lemma fold_sum_append: "fold_sum f (xs @ ys) s = bind_sum (fold_sum f xs s) (fold_sum f ys)"
proof (induction xs arbitrary: s)
  case (Cons x xs)
  then show ?case by (cases "f x s") simp_all
qed simp

lemma fold_sum_concat: "fold_sum (\<lambda>x. fold_sum f (g x)) xs s = fold_sum f (concat (map g xs)) s"
proof (induction xs arbitrary: s)
  case (Cons x xs)
  then show ?case by (cases "fold_sum f (g x) s") (simp_all add: fold_sum_append)
qed simp

lemma fold_sum_map: "fold_sum f (map g xs) s = fold_sum (\<lambda>x. f (g x)) xs s"
proof (induction xs arbitrary: s)
  case (Cons x xs)
  then show ?case by (cases "f (g x) s") simp_all
qed simp

section \<open>State machines\<close>

text \<open>The contract of a state machine with an invariant, and what it gives for every run.\<close>

locale invariant_machine =
  fixes start :: "'s \<Rightarrow> bool" and step :: "'s \<Rightarrow> 's \<Rightarrow> bool" and inv :: "'s \<Rightarrow> bool"
  assumes inv_start: "start s \<Longrightarrow> inv s"
    and inv_step: "inv s \<Longrightarrow> step s s' \<Longrightarrow> inv s'"
begin

lemma inv_reachable:
  assumes "start s" and "step\<^sup>*\<^sup>* s s'"
  shows "inv s'"
  using assms(2) by induction (auto intro: inv_start [OF assms(1)] inv_step)

end

section \<open>Ordered maps\<close>

text \<open>
  A \<^verbatim>\<open>BTreeMap\<close> is iterated in key order, and several algorithms of the sources depend on that
  order.  The model is an association list whose keys strictly increase.
\<close>

type_synonym ('k, 'v) btree = "('k \<times> 'v) list"

definition bt_wf :: "('k::linorder, 'v) btree \<Rightarrow> bool" where
  "bt_wf m \<longleftrightarrow> sorted_wrt (<) (map fst m)"

fun bt_insert :: "'k::linorder \<Rightarrow> 'v \<Rightarrow> ('k, 'v) btree \<Rightarrow> ('k, 'v) btree" where
  "bt_insert k v [] = [(k, v)]"
| "bt_insert k v (p # m) =
     (if k < fst p then (k, v) # p # m
      else if k = fst p then (k, v) # m
      else p # bt_insert k v m)"

definition bt_remove :: "'k \<Rightarrow> ('k, 'v) btree \<Rightarrow> ('k, 'v) btree" where
  "bt_remove k m = filter (\<lambda>p. fst p \<noteq> k) m"

definition bt_get :: "('k, 'v) btree \<Rightarrow> 'k \<Rightarrow> 'v option" where
  "bt_get m k = map_of m k"

definition bt_keys :: "('k, 'v) btree \<Rightarrow> 'k list" where
  "bt_keys m = map fst m"

definition bt_values :: "('k, 'v) btree \<Rightarrow> 'v list" where
  "bt_values m = map snd m"

text \<open>\<^verbatim>\<open>entry(k).or_insert(d)\<close> followed by an update in place.\<close>

definition bt_entry :: "'k::linorder \<Rightarrow> 'v \<Rightarrow> ('v \<Rightarrow> 'v) \<Rightarrow> ('k, 'v) btree \<Rightarrow> ('k, 'v) btree" where
  "bt_entry k d f m = bt_insert k (f (case bt_get m k of None \<Rightarrow> d | Some v \<Rightarrow> v)) m"

text \<open>\<^verbatim>\<open>collect()\<close> into a map: later pairs replace earlier ones.\<close>

definition bt_collect :: "('k::linorder \<times> 'v) list \<Rightarrow> ('k, 'v) btree" where
  "bt_collect kvs = fold (\<lambda>(k, v). bt_insert k v) kvs []"

text \<open>\<^verbatim>\<open>entry(f x).or_default().push(g x)\<close> over a list: the grouping loops of the client.\<close>

definition bt_group :: "('a \<Rightarrow> 'k::linorder) \<Rightarrow> ('a \<Rightarrow> 'b) \<Rightarrow> 'a list \<Rightarrow> ('k, 'b list) btree" where
  "bt_group f g xs = fold (\<lambda>x. bt_entry (f x) [] (\<lambda>ys. ys @ [g x])) xs []"

lemma set_keys_insert: "fst ` set (bt_insert k v m) = insert k (fst ` set m)"
  by (induction m) auto

lemma bt_wf_Nil [simp]: "bt_wf []"
  by (simp add: bt_wf_def)

lemma bt_get_Nil [simp]: "bt_get [] k = None"
  by (simp add: bt_get_def)

lemma bt_wf_Cons: "bt_wf (p # m) \<longleftrightarrow> (\<forall>q\<in>fst ` set m. fst p < q) \<and> bt_wf m"
  by (simp add: bt_wf_def)

lemma bt_wf_insert [simp]: "bt_wf m \<Longrightarrow> bt_wf (bt_insert k v m)"
proof (induction m)
  case Nil
  then show ?case by (simp add: bt_wf_def)
next
  case (Cons p m)
  show ?case
  proof (cases k "fst p" rule: linorder_cases)
    case less
    then show ?thesis using Cons.prems by (fastforce simp: bt_wf_Cons)
  next
    case equal
    then show ?thesis using Cons.prems by (simp add: bt_wf_Cons)
  next
    case greater
    then have "\<not> k < fst p" and "k \<noteq> fst p" by auto
    with greater Cons show ?thesis by (simp add: bt_wf_Cons set_keys_insert)
  qed
qed

lemma bt_wf_filter [simp]: "bt_wf m \<Longrightarrow> bt_wf (filter P m)"
  by (induction m) (auto simp: bt_wf_def)

lemma bt_get_insert [btree_simps]:
  "bt_get (bt_insert k v m) k' = (if k' = k then Some v else bt_get m k')"
  by (induction m) (auto simp: bt_get_def)

lemma bt_get_remove [btree_simps]: "bt_get (bt_remove k m) k' = (if k' = k then None else bt_get m k')"
  by (induction m) (auto simp: bt_get_def bt_remove_def)

lemma bt_get_map: "bt_get (map (\<lambda>(k, v). (k, f k v)) m) k = map_option (f k) (bt_get m k)"
  unfolding bt_get_def by (induction m) auto

lemma bt_keys_get: "k \<in> set (bt_keys m) \<longleftrightarrow> bt_get m k \<noteq> None"
  by (auto simp: bt_keys_def bt_get_def map_of_eq_None_iff)

lemma bt_wf_distinct: "bt_wf m \<Longrightarrow> distinct (bt_keys m)"
  by (auto simp: bt_wf_def bt_keys_def strict_sorted_iff)

text \<open>The interface a client of an ordered map relies on.\<close>

locale ordered_map =
  fixes emp :: "'m"
    and ins :: "'k::linorder \<Rightarrow> 'v \<Rightarrow> 'm \<Rightarrow> 'm"
    and rem :: "'k \<Rightarrow> 'm \<Rightarrow> 'm"
    and look :: "'m \<Rightarrow> 'k \<Rightarrow> 'v option"
    and keys :: "'m \<Rightarrow> 'k list"
    and wf :: "'m \<Rightarrow> bool"
  assumes look_emp: "look emp k = None"
    and look_ins: "wf m \<Longrightarrow> look (ins k v m) k' = (if k' = k then Some v else look m k')"
    and look_rem: "wf m \<Longrightarrow> look (rem k m) k' = (if k' = k then None else look m k')"
    and keys_look: "wf m \<Longrightarrow> k \<in> set (keys m) \<longleftrightarrow> look m k \<noteq> None"
    and keys_sorted: "wf m \<Longrightarrow> sorted_wrt (<) (keys m)"
    and wf_emp: "wf emp"
    and wf_ins: "wf m \<Longrightarrow> wf (ins k v m)"
    and wf_rem: "wf m \<Longrightarrow> wf (rem k m)"
begin

lemma look_ins_other: "wf m \<Longrightarrow> k' \<noteq> k \<Longrightarrow> look (ins k v m) k' = look m k'"
  by (simp add: look_ins)

lemma keys_ins: "wf m \<Longrightarrow> set (keys (ins k v m)) = insert k (set (keys m))"
  using keys_look [of "ins k v m"] keys_look [of m] by (auto simp: look_ins wf_ins split: if_splits)

lemma keys_rem: "wf m \<Longrightarrow> set (keys (rem k m)) = set (keys m) - {k}"
  using keys_look [of "rem k m"] keys_look [of m] by (auto simp: look_rem wf_rem split: if_splits)

lemma keys_canonical:
  assumes "wf m" and "wf m'" and "\<And>k. look m k \<noteq> None \<longleftrightarrow> look m' k \<noteq> None"
  shows "keys m = keys m'"
proof -
  have "set (keys m) = set (keys m')"
    using assms by (auto simp: keys_look)
  then show ?thesis
    using keys_sorted [OF assms(1)] keys_sorted [OF assms(2)]
    by (metis strict_sorted_equal)
qed

lemma wf_fold_ins: "wf m \<Longrightarrow> wf (fold (\<lambda>x. ins (f x) (g x)) xs m)"
  by (induction xs arbitrary: m) (auto simp: wf_ins)

lemma look_fold_ins:
  "wf m \<Longrightarrow> look (fold (\<lambda>x. ins (f x) (g x)) xs m) k =
     (case map_of (rev (map (\<lambda>x. (f x, g x)) xs)) k of Some v \<Rightarrow> Some v | None \<Rightarrow> look m k)"
proof (induction xs arbitrary: m)
  case Nil
  then show ?case by simp
next
  case (Cons x xs)
  then show ?case
    by (simp add: wf_ins look_ins map_add_def split: option.splits)
qed

end

interpretation bt: ordered_map "[]" bt_insert bt_remove bt_get bt_keys bt_wf
proof unfold_locales
  show "sorted_wrt (<) (bt_keys m)" if "bt_wf m" for m :: "('a, 'b) btree"
    using that by (simp add: bt_wf_def bt_keys_def)
qed (auto simp: btree_simps bt_keys_get, simp add: bt_remove_def)

lemma bt_entry_get [btree_simps]:
  "bt_get (bt_entry k d f m) k' =
     (if k' = k then Some (f (case bt_get m k of None \<Rightarrow> d | Some v \<Rightarrow> v)) else bt_get m k')"
  by (simp add: bt_entry_def btree_simps)

lemma bt_wf_entry [simp]: "bt_wf m \<Longrightarrow> bt_wf (bt_entry k d f m)"
  by (simp add: bt_entry_def)

lemma bt_wf_collect [simp]: "bt_wf (bt_collect kvs)"
  using bt.wf_fold_ins [OF bt_wf_Nil, of fst snd kvs]
  by (simp add: bt_collect_def case_prod_beta')

lemma bt_get_collect: "bt_get (bt_collect kvs) k = map_of (rev kvs) k"
  using bt.look_fold_ins [OF bt_wf_Nil, of fst snd kvs k]
  by (simp add: bt_collect_def case_prod_beta' split: option.splits)

lemma bt_mem_get: "bt_wf m \<Longrightarrow> (k, v) \<in> set m \<longleftrightarrow> bt_get m k = Some v"
  by (simp add: bt_get_def bt_wf_def strict_sorted_iff)

lemma set_bt_collect: "set (bt_collect kvs) \<subseteq> set kvs"
proof
  fix p assume "p \<in> set (bt_collect kvs)"
  then have "map_of (rev kvs) (fst p) = Some (snd p)"
    using bt_mem_get [OF bt_wf_collect, of "fst p" "snd p"] by (simp add: bt_get_collect)
  then show "p \<in> set kvs" by (auto dest: map_of_SomeD)
qed

lemma bt_collect_wf:
  assumes "bt_wf m"
  shows "bt_collect m = m"
proof -
  have "distinct (map fst m)" using assms by (simp add: bt_wf_def strict_sorted_iff)
  then have "map_of (rev m) = map_of m" by (subst map_of_inject_set) (simp_all flip: rev_map)
  then have "bt_get (bt_collect m) k = bt_get m k" for k
    using bt_get_collect [of m k] by (simp only: bt_get_def)
  then have "set (bt_collect m) = set m"
    using bt_mem_get [OF assms] bt_mem_get [OF bt_wf_collect [of m]] by auto
  moreover have "sorted_wrt (<) (map fst m)" "sorted_wrt (<) (map fst (bt_collect m))"
    using assms bt_wf_collect [of m] by (auto simp: bt_wf_def)
  ultimately show ?thesis
    by (intro map_sorted_distinct_set_unique [of fst]) (auto simp: strict_sorted_iff distinct_map)
qed

lemma bt_keys_collect: "set (bt_keys (bt_collect kvs)) = fst ` set kvs"
proof -
  have "k \<in> set (bt_keys (bt_collect kvs)) \<longleftrightarrow> k \<in> fst ` set kvs" for k
    unfolding bt_keys_get bt_get_collect using map_of_eq_None_iff [of "rev kvs" k] by simp
  then show ?thesis by blast
qed

lemma bt_group_step:
  "bt_wf m \<Longrightarrow>
   bt_wf (fold (\<lambda>x. bt_entry (f x) [] (\<lambda>ys. ys @ [g x])) xs m) \<and>
   bt_get (fold (\<lambda>x. bt_entry (f x) [] (\<lambda>ys. ys @ [g x])) xs m) k =
     (case bt_get m k of
        None \<Rightarrow> (case filter (\<lambda>x. f x = k) xs of [] \<Rightarrow> None | zs \<Rightarrow> Some (map g zs))
      | Some ys \<Rightarrow> Some (ys @ map g (filter (\<lambda>x. f x = k) xs)))"
proof (induction xs arbitrary: m)
  case Nil
  then show ?case by (simp split: option.splits)
next
  case (Cons x xs)
  have "bt_wf (bt_entry (f x) [] (\<lambda>ys. ys @ [g x]) m)"
    using Cons.prems by simp
  from Cons.IH [OF this] show ?case
    by (auto simp: btree_simps split: option.splits list.splits)
qed

lemma bt_wf_group [simp]: "bt_wf (bt_group f g xs)"
  using bt_group_step [OF bt_wf_Nil, of f g xs] by (simp add: bt_group_def)

lemma bt_get_group:
  "bt_get (bt_group f g xs) k =
     (case filter (\<lambda>x. f x = k) xs of [] \<Rightarrow> None | zs \<Rightarrow> Some (map g zs))"
  using bt_group_step [OF bt_wf_Nil, of f g xs k] by (simp add: bt_group_def)

lemma bt_group_items:
  assumes "ps = bt_group f g xs"
  shows "(t, y) \<in> set (concat (map (\<lambda>(t, ys). map (\<lambda>y. (t, y)) ys) ps)) \<longleftrightarrow> (\<exists>x\<in>set xs. f x = t \<and> g x = y)"
proof -
  have "(t, ys) \<in> set ps \<longleftrightarrow> bt_get ps t = Some ys" for ys
    using assms by (simp add: bt_mem_get)
  moreover have "bt_get ps t = (case filter (\<lambda>x. f x = t) xs of [] \<Rightarrow> None | zs \<Rightarrow> Some (map g zs))"
    using assms by (simp add: bt_get_group)
  ultimately have "(\<exists>ys. (t, ys) \<in> set ps \<and> y \<in> set ys) \<longleftrightarrow> y \<in> set (map g (filter (\<lambda>x. f x = t) xs))"
    by (cases "filter (\<lambda>x. f x = t) xs") auto
  then show ?thesis by force
qed

lemma set_bt_entry:
  assumes "bt_wf m"
  shows "set (bt_entry k d f m) \<subseteq> insert (k, f (case bt_get m k of None \<Rightarrow> d | Some v \<Rightarrow> v)) (set m)"
proof
  fix p assume "p \<in> set (bt_entry k d f m)"
  moreover have "bt_wf (bt_entry k d f m)" using assms by simp
  ultimately have "bt_get (bt_entry k d f m) (fst p) = Some (snd p)"
    using bt_mem_get [of "bt_entry k d f m" "fst p" "snd p"] by simp
  with assms show "p \<in> insert (k, f (case bt_get m k of None \<Rightarrow> d | Some v \<Rightarrow> v)) (set m)"
    using bt_mem_get [OF assms, of "fst p" "snd p"] by (cases p) (auto simp: btree_simps split: if_splits)
qed

end
