(* ===== verification/Errors.thy ===== *)
theory Errors
  imports Prelude
begin

text \<open>
  The error vocabulary of \<^verbatim>\<open>barnabas-core/src/lib.rs\<close>: the core's own failures and the
  classification of broker error codes into what a caller must do about them.
\<close>

section \<open>Core errors\<close>

datatype core_error =
    Codec string
  | Correlation int int \<comment> \<open>got, expected\<close>
  | Unsolicited
  | FrameTooLarge nat nat \<comment> \<open>length, limit\<close>

section \<open>Broker error codes\<close>

datatype error_code = ErrorCode (code_of: int)

datatype disposition = DispOk | Retry | RefreshMetadata | FindCoordinator | Fatal

definition NONE :: error_code where "NONE = ErrorCode 0"
definition OFFSET_OUT_OF_RANGE :: error_code where "OFFSET_OUT_OF_RANGE = ErrorCode 1"
definition UNKNOWN_TOPIC_OR_PARTITION :: error_code where
  "UNKNOWN_TOPIC_OR_PARTITION = ErrorCode 3"
definition LEADER_NOT_AVAILABLE :: error_code where "LEADER_NOT_AVAILABLE = ErrorCode 5"
definition NOT_LEADER_OR_FOLLOWER :: error_code where "NOT_LEADER_OR_FOLLOWER = ErrorCode 6"
definition REQUEST_TIMED_OUT :: error_code where "REQUEST_TIMED_OUT = ErrorCode 7"
definition COORDINATOR_LOAD_IN_PROGRESS :: error_code where
  "COORDINATOR_LOAD_IN_PROGRESS = ErrorCode 14"
definition COORDINATOR_NOT_AVAILABLE :: error_code where
  "COORDINATOR_NOT_AVAILABLE = ErrorCode 15"
definition NOT_COORDINATOR :: error_code where "NOT_COORDINATOR = ErrorCode 16"
definition OUT_OF_ORDER_SEQUENCE_NUMBER :: error_code where
  "OUT_OF_ORDER_SEQUENCE_NUMBER = ErrorCode 45"
definition DUPLICATE_SEQUENCE_NUMBER :: error_code where
  "DUPLICATE_SEQUENCE_NUMBER = ErrorCode 46"
definition INVALID_PRODUCER_EPOCH :: error_code where "INVALID_PRODUCER_EPOCH = ErrorCode 47"
definition CONCURRENT_TRANSACTIONS :: error_code where "CONCURRENT_TRANSACTIONS = ErrorCode 51"
definition PRODUCER_FENCED :: error_code where "PRODUCER_FENCED = ErrorCode 90"

lemmas error_code_defs = NONE_def OFFSET_OUT_OF_RANGE_def UNKNOWN_TOPIC_OR_PARTITION_def
  LEADER_NOT_AVAILABLE_def NOT_LEADER_OR_FOLLOWER_def REQUEST_TIMED_OUT_def
  COORDINATOR_LOAD_IN_PROGRESS_def COORDINATOR_NOT_AVAILABLE_def NOT_COORDINATOR_def
  OUT_OF_ORDER_SEQUENCE_NUMBER_def DUPLICATE_SEQUENCE_NUMBER_def INVALID_PRODUCER_EPOCH_def
  CONCURRENT_TRANSACTIONS_def PRODUCER_FENCED_def

definition is_ok :: "error_code \<Rightarrow> bool" where
  "is_ok c \<longleftrightarrow> c = NONE"

definition disposition_of :: "error_code \<Rightarrow> disposition" where
  "disposition_of c =
     (if c = NONE then DispOk
      else if c = LEADER_NOT_AVAILABLE \<or> c = NOT_LEADER_OR_FOLLOWER
              \<or> c = UNKNOWN_TOPIC_OR_PARTITION then RefreshMetadata
      else if c = COORDINATOR_LOAD_IN_PROGRESS \<or> c = COORDINATOR_NOT_AVAILABLE then Retry
      else if c = NOT_COORDINATOR then FindCoordinator
      else if c = REQUEST_TIMED_OUT \<or> c = CONCURRENT_TRANSACTIONS then Retry
      else Fatal)"

text \<open>The codes a caller may act on by asking again, in one of the three ways.\<close>

definition retriable_codes :: "int list" where
  "retriable_codes = [3, 5, 6, 7, 14, 15, 16, 51]"

lemma disposition_ok_iff: "disposition_of c = DispOk \<longleftrightarrow> is_ok c"
  by (simp add: disposition_of_def is_ok_def)

lemma disposition_fatal_iff:
  "disposition_of (ErrorCode n) = Fatal \<longleftrightarrow> n \<noteq> 0 \<and> n \<notin> set retriable_codes"
  by (auto simp: disposition_of_def retriable_codes_def error_code_defs)

lemma sequence_codes_fatal:
  "c \<in> {OUT_OF_ORDER_SEQUENCE_NUMBER, DUPLICATE_SEQUENCE_NUMBER, INVALID_PRODUCER_EPOCH,
     PRODUCER_FENCED} \<Longrightarrow> disposition_of c = Fatal"
  by (auto simp: disposition_of_def error_code_defs)

lemma timed_out_retries: "disposition_of REQUEST_TIMED_OUT = Retry"
  by (simp add: disposition_of_def error_code_defs)

text \<open>
  the classification is total and closed.  A broker code is acted on by asking again only if
  it is one of the eight codes the client knows how to recover from; code 0 is success; every
  other code, the sequence and fencing codes and all unknown codes included, is fatal.
\<close>

theorem disposition_classifies:
  "(disposition_of (ErrorCode n) = DispOk \<longleftrightarrow> n = 0) \<and>
   (disposition_of (ErrorCode n) = RefreshMetadata \<longleftrightarrow> n \<in> {3, 5, 6}) \<and>
   (disposition_of (ErrorCode n) = Retry \<longleftrightarrow> n \<in> {7, 14, 15, 51}) \<and>
   (disposition_of (ErrorCode n) = FindCoordinator \<longleftrightarrow> n = 16) \<and>
   (disposition_of (ErrorCode n) = Fatal \<longleftrightarrow> n \<notin> {0, 3, 5, 6, 7, 14, 15, 16, 51})"
  by (auto simp: disposition_of_def error_code_defs)

end
