(* ===== verification/Producer_State.thy ===== *)
theory Producer_State
  imports Errors
begin

text \<open>
  The idempotent, transactional producer's rules, \<^verbatim>\<open>barnabas-core/src/producer.rs\<close>: the
  transaction state machine and the allocation of sequence numbers.  Sequence arithmetic is at
  32 bits (\<open>wrap32\<close>).  \<^verbatim>\<open>HashMap\<close> and \<^verbatim>\<open>HashSet\<close> fields are a map and a set.

  Shown: a partition's sequence numbers are allocated contiguously across any interleaving of
  batches, partitions and transactions and restart only with a new identity; a transactional
  producer allocates only inside an open transaction and for an enrolled partition; a fenced
  producer stays unusable until it is initialised again; what happens when the 32-bit counter is
  exhausted.
\<close>

section \<open>State\<close>

record producer_identity =
  producer_id :: int
  producer_epoch :: int

datatype txn_state = Uninitialised | Ready | InTransaction | Ending | TxnFatal

record sequence_range =
  seq_base :: int
  seq_count :: int

definition seq_end :: "sequence_range \<Rightarrow> int" where
  "seq_end r = wrap32 (seq_base r + seq_count r)"

datatype producer_error =
    NotInitialised
  | NoTransaction
  | TransactionAlreadyOpen
  | NotEnrolled string int
  | ProducerFatal

type_synonym partition_key = "string \<times> int"

record producer_state =
  identity :: "producer_identity option"
  txn :: txn_state
  sequences :: "partition_key \<rightharpoonup> int"
  enrolled :: "partition_key set"
  transactional :: bool

section \<open>Operations\<close>

definition default_producer :: producer_state where
  "default_producer = \<lparr>identity = None, txn = Uninitialised, sequences = Map.empty,
     enrolled = {}, transactional = False\<rparr>"

definition transactional_producer :: producer_state where
  "transactional_producer = default_producer\<lparr>transactional := True\<rparr>"

definition idempotent_producer :: producer_state where
  "idempotent_producer = default_producer\<lparr>transactional := False\<rparr>"

definition on_init_producer_id :: "producer_state \<Rightarrow> producer_identity \<Rightarrow> producer_state" where
  "on_init_producer_id s i =
     (let epoch_changed = map_option producer_epoch (identity s) \<noteq> Some (producer_epoch i)
            \<or> map_option producer_id (identity s) \<noteq> Some (producer_id i);
          s1 = s\<lparr>identity := Some i\<rparr>;
          s2 = (if epoch_changed then s1\<lparr>sequences := Map.empty\<rparr> else s1)
      in s2\<lparr>enrolled := {}, txn := Ready\<rparr>)"

definition check_usable :: "producer_state \<Rightarrow> producer_error + unit" where
  "check_usable s =
     (case txn s of
        TxnFatal \<Rightarrow> Inl ProducerFatal
      | Uninitialised \<Rightarrow> if identity s = None then Inl NotInitialised else Inr ()
      | _ \<Rightarrow> Inr ())"

definition begin_transaction :: "producer_state \<Rightarrow> (producer_error + unit) \<times> producer_state" where
  "begin_transaction s =
     (case check_usable s of
        Inl e \<Rightarrow> (Inl e, s)
      | Inr _ \<Rightarrow>
          (case txn s of
             Ready \<Rightarrow> (Inr (), s\<lparr>enrolled := {}, txn := InTransaction\<rparr>)
           | InTransaction \<Rightarrow> (Inl TransactionAlreadyOpen, s)
           | Ending \<Rightarrow> (Inl TransactionAlreadyOpen, s)
           | Uninitialised \<Rightarrow> (Inl NotInitialised, s)
           | TxnFatal \<Rightarrow> (Inl ProducerFatal, s)))"

definition needs_enrollment :: "producer_state \<Rightarrow> string \<Rightarrow> int \<Rightarrow> bool" where
  "needs_enrollment s topic part \<longleftrightarrow>
     transactional s \<and> txn s = InTransaction \<and> (topic, part) \<notin> enrolled s"

definition on_enrolled :: "producer_state \<Rightarrow> string \<Rightarrow> int \<Rightarrow> producer_state" where
  "on_enrolled s topic part = s\<lparr>enrolled := insert (topic, part) (enrolled s)\<rparr>"

definition allocate ::
  "producer_state \<Rightarrow> string \<Rightarrow> int \<Rightarrow> int \<Rightarrow> (producer_error + sequence_range) \<times> producer_state" where
  "allocate s topic part n =
     (case check_usable s of
        Inl e \<Rightarrow> (Inl e, s)
      | Inr _ \<Rightarrow>
          if transactional s \<and> txn s \<noteq> InTransaction then (Inl NoTransaction, s)
          else if transactional s \<and> (topic, part) \<notin> enrolled s
          then (Inl (NotEnrolled topic part), s)
          else let base = (case sequences s (topic, part) of None \<Rightarrow> 0 | Some v \<Rightarrow> v)
               in (Inr \<lparr>seq_base = base, seq_count = n\<rparr>,
                   s\<lparr>sequences := (sequences s)((topic, part) \<mapsto> wrap32 (base + n))\<rparr>))"

definition next_sequence :: "producer_state \<Rightarrow> string \<Rightarrow> int \<Rightarrow> int" where
  "next_sequence s topic part =
     (case sequences s (topic, part) of None \<Rightarrow> 0 | Some v \<Rightarrow> v)"

definition end_transaction :: "producer_state \<Rightarrow> (producer_error + unit) \<times> producer_state" where
  "end_transaction s =
     (case check_usable s of
        Inl e \<Rightarrow> (Inl e, s)
      | Inr _ \<Rightarrow>
          if txn s \<noteq> InTransaction then (Inl NoTransaction, s)
          else (Inr (), s\<lparr>txn := Ending\<rparr>))"

definition on_end_transaction :: "producer_state \<Rightarrow> producer_state" where
  "on_end_transaction s = (if txn s = Ending then s\<lparr>enrolled := {}, txn := Ready\<rparr> else s)"

definition fence :: "producer_state \<Rightarrow> producer_state" where
  "fence s = s\<lparr>txn := TxnFatal\<rparr>"

definition looks_deduplicated :: "int \<Rightarrow> int option \<Rightarrow> bool" where
  "looks_deduplicated base_offset previous_high =
     (case previous_high of Some high \<Rightarrow> base_offset \<le> high | None \<Rightarrow> False)"

lemmas producer_op_defs = on_init_producer_id_def begin_transaction_def on_enrolled_def
  allocate_def end_transaction_def on_end_transaction_def fence_def check_usable_def

section \<open>Sources of sequence numbers\<close>

text \<open>
  What the rest of the client relies on: a stateful source whose steps hand out ranges.  A step
  that allocates starts at the partition's next number and advances only that partition; any
  other step advances none.
\<close>

fun run_source :: "('s \<Rightarrow> 'op \<Rightarrow> 's \<times> ('k \<times> sequence_range) option) \<Rightarrow> 's \<Rightarrow> 'op list \<Rightarrow>
    's \<times> ('k \<times> sequence_range) list" where
  "run_source step s [] = (s, [])"
| "run_source step s (x # xs) =
     (case step s x of (s', out) \<Rightarrow>
        (case run_source step s' xs of (s'', outs) \<Rightarrow>
           (s'', (case out of None \<Rightarrow> outs | Some kr \<Rightarrow> kr # outs))))"

text \<open>The ranges of one partition, each beginning where the one before it ended.\<close>

fun contiguous :: "int \<Rightarrow> sequence_range list \<Rightarrow> bool" where
  "contiguous start [] = True"
| "contiguous start (r # rs) = (seq_base r = start \<and> contiguous (seq_end r) rs)"

definition ranges_of :: "'k \<Rightarrow> ('k \<times> sequence_range) list \<Rightarrow> sequence_range list" where
  "ranges_of k outs = map snd (filter (\<lambda>kr. fst kr = k) outs)"

locale sequence_source =
  fixes nxt :: "'s \<Rightarrow> 'k \<Rightarrow> int"
    and step :: "'s \<Rightarrow> 'op \<Rightarrow> 's \<times> ('k \<times> sequence_range) option"
    and keeps :: "'op \<Rightarrow> 's \<Rightarrow> bool"
  assumes step_alloc: "keeps x s \<Longrightarrow> step s x = (s', Some (k, r)) \<Longrightarrow>
      seq_base r = nxt s k \<and> nxt s' k' = (if k' = k then seq_end r else nxt s k')"
    and step_quiet: "keeps x s \<Longrightarrow> step s x = (s', None) \<Longrightarrow> nxt s' k' = nxt s k'"
begin

lemma run_contiguous:
  assumes "\<And>s x. x \<in> set xs \<Longrightarrow> reach s \<Longrightarrow> keeps x s \<and> reach (fst (step s x))" and "reach s"
  shows "contiguous (nxt s k) (ranges_of k (snd (run_source step s xs))) \<and>
     nxt (fst (run_source step s xs)) k =
       fold (\<lambda>r _. seq_end r) (ranges_of k (snd (run_source step s xs))) (nxt s k)"
  using assms
proof (induction xs arbitrary: s)
  case Nil
  then show ?case by (simp add: ranges_of_def)
next
  case (Cons x xs)
  obtain s' out where st: "step s x = (s', out)" by fastforce
  have keep: "keeps x s" and "reach s'" using Cons.prems st by force+
  then have IH: "contiguous (nxt s' k) (ranges_of k (snd (run_source step s' xs))) \<and>
     nxt (fst (run_source step s' xs)) k =
       fold (\<lambda>r _. seq_end r) (ranges_of k (snd (run_source step s' xs))) (nxt s' k)"
    using Cons.IH Cons.prems by simp
  show ?case
  proof (cases out)
    case None
    with IH st step_quiet [OF keep] show ?thesis by (simp add: split_beta)
  next
    case (Some kr)
    obtain k' r where kr: "kr = (k', r)" by fastforce
    have "seq_base r = nxt s k'" and "nxt s' k = (if k = k' then seq_end r else nxt s k)"
      using step_alloc [OF keep, of s' k' r k] st Some kr by auto
    with IH Some kr st show ?thesis
      by (auto simp: split_beta ranges_of_def)
  qed
qed

end

section \<open>Operations as steps\<close>

datatype producer_op =
    OpInit producer_identity
  | OpBegin
  | OpEnrolled partition_key
  | OpAllocate partition_key int
  | OpEnd
  | OpEnded
  | OpFence

fun producer_step :: "producer_state \<Rightarrow> producer_op \<Rightarrow>
    producer_state \<times> (partition_key \<times> sequence_range) option" where
  "producer_step s (OpInit i) = (on_init_producer_id s i, None)"
| "producer_step s OpBegin = (snd (begin_transaction s), None)"
| "producer_step s (OpEnrolled k) = (on_enrolled s (fst k) (snd k), None)"
| "producer_step s (OpAllocate k n) =
     (case allocate s (fst k) (snd k) n of
        (Inl e, s') \<Rightarrow> (s', None)
      | (Inr r, s') \<Rightarrow> (s', Some (k, r)))"
| "producer_step s OpEnd = (snd (end_transaction s), None)"
| "producer_step s OpEnded = (on_end_transaction s, None)"
| "producer_step s OpFence = (fence s, None)"

text \<open>Operations that leave a producer's identity as it is.\<close>

definition same_identity :: "producer_op \<Rightarrow> producer_state \<Rightarrow> bool" where
  "same_identity x s \<longleftrightarrow> (case x of OpInit i \<Rightarrow> identity s = Some i | _ \<Rightarrow> True)"

abbreviation next_of :: "producer_state \<Rightarrow> partition_key \<Rightarrow> int" where
  "next_of s k \<equiv> next_sequence s (fst k) (snd k)"

lemma check_usable_Inr: "check_usable s = Inr u \<longleftrightarrow>
    txn s \<noteq> TxnFatal \<and> (txn s = Uninitialised \<longrightarrow> identity s \<noteq> None)"
  by (auto simp: check_usable_def split: txn_state.splits)

lemma begin_transaction_frame:
  "identity (snd (begin_transaction s)) = identity s \<and>
   sequences (snd (begin_transaction s)) = sequences s \<and>
   transactional (snd (begin_transaction s)) = transactional s"
  by (simp add: begin_transaction_def split: sum.splits txn_state.splits)

lemma end_transaction_frame:
  "identity (snd (end_transaction s)) = identity s \<and>
   sequences (snd (end_transaction s)) = sequences s \<and>
   transactional (snd (end_transaction s)) = transactional s"
  by (simp add: end_transaction_def split: sum.splits)

lemma on_init_same:
  "identity s = Some i \<Longrightarrow> sequences (on_init_producer_id s i) = sequences s"
  by (simp add: on_init_producer_id_def Let_def)

lemma on_init_identity [simp]: "identity (on_init_producer_id s i) = Some i"
  by (simp add: on_init_producer_id_def Let_def)

lemma on_init_new:
  "identity s \<noteq> Some i \<Longrightarrow> sequences (on_init_producer_id s i) = Map.empty"
  by (auto simp: on_init_producer_id_def Let_def)

lemma allocate_Inr:
  assumes "allocate s topic part n = (Inr r, s')"
  shows "seq_base r = next_sequence s topic part" and "seq_count r = n"
    and "s' = s\<lparr>sequences := (sequences s)((topic, part) \<mapsto> seq_end r)\<rparr>"
    and "txn s \<noteq> TxnFatal" and "transactional s \<Longrightarrow> txn s = InTransaction \<and> (topic, part) \<in> enrolled s"
  using assms
  by (auto simp: allocate_def check_usable_Inr next_sequence_def seq_end_def Let_def
      split: sum.splits if_splits)

lemma allocate_Inl: "allocate s topic part n = (Inl e, s') \<Longrightarrow> s' = s"
  by (auto simp: allocate_def Let_def split: sum.splits if_splits)

lemma next_of_sequences: "sequences s' = sequences s \<Longrightarrow> next_of s' k = next_of s k"
  by (simp add: next_sequence_def)

lemma producer_step_quiet:
  assumes "same_identity x s" and "producer_step s x = (s', None)"
  shows "next_of s' k = next_of s k"
proof (cases x)
  case (OpInit i)
  with assms on_init_same [of s i] show ?thesis by (auto simp: same_identity_def next_sequence_def)
next
  case (OpAllocate k' n)
  with assms show ?thesis by (auto split: prod.splits sum.splits dest: allocate_Inl)
next
  case OpBegin
  with assms begin_transaction_frame [of s] show ?thesis by (auto simp: next_sequence_def)
next
  case OpEnd
  with assms end_transaction_frame [of s] show ?thesis by (auto simp: next_sequence_def)
qed (use assms in \<open>auto simp: next_sequence_def on_enrolled_def on_end_transaction_def fence_def\<close>)

lemma producer_step_alloc:
  assumes "producer_step s x = (s', Some (k, r))"
  shows "seq_base r = next_of s k \<and> next_of s' k' = (if k' = k then seq_end r else next_of s k')"
proof -
  from assms obtain n where "x = OpAllocate k n" and al: "allocate s (fst k) (snd k) n = (Inr r, s')"
    by (cases x) (auto split: prod.splits sum.splits)
  from allocate_Inr [OF al] show ?thesis
    by (auto simp: next_sequence_def prod_eq_iff)
qed

interpretation ps: sequence_source next_of producer_step same_identity
  by unfold_locales (metis producer_step_alloc, metis producer_step_quiet)

section \<open>Rules\<close>

definition identity_kept :: "producer_identity option \<Rightarrow> producer_op list \<Rightarrow> bool" where
  "identity_kept i xs \<longleftrightarrow> list_all (\<lambda>x. case x of OpInit j \<Rightarrow> i = Some j | _ \<Rightarrow> True) xs"

lemma producer_step_identity:
  "(case x of OpInit j \<Rightarrow> identity s = Some j | _ \<Rightarrow> True) \<Longrightarrow>
     identity (fst (producer_step s x)) = identity s"
  using begin_transaction_frame [of s] end_transaction_frame [of s]
  by (cases x) (auto simp: on_enrolled_def on_end_transaction_def fence_def
      dest: allocate_Inl allocate_Inr(3) split: prod.splits sum.splits)

lemma producer_run_contiguous:
  assumes "identity_kept (identity s) xs"
  shows "contiguous (next_of s k) (ranges_of k (snd (run_source producer_step s xs))) \<and>
     next_of (fst (run_source producer_step s xs)) k =
       fold (\<lambda>r _. seq_end r) (ranges_of k (snd (run_source producer_step s xs))) (next_of s k)"
proof (rule ps.run_contiguous [where reach = "\<lambda>t. identity t = identity s"])
  fix t :: producer_state and x assume x: "x \<in> set xs" and t: "identity t = identity s"
  have "case x of OpInit j \<Rightarrow> identity s = Some j | _ \<Rightarrow> True"
    using assms x unfolding identity_kept_def list_all_iff by (rule bspec)
  then have "case x of OpInit j \<Rightarrow> identity t = Some j | _ \<Rightarrow> True"
    by (simp only: t)
  then show "same_identity x t \<and> identity (fst (producer_step t x)) = identity s"
    using producer_step_identity [of t x] t by (auto simp: same_identity_def split: producer_op.splits)
qed simp

lemma contiguous_bounds:
  assumes "contiguous start rs" and "0 \<le> start" and "list_all (\<lambda>r. 0 \<le> seq_count r) rs"
    and "start + sum_list (map seq_count rs) \<le> i32_max"
  shows "map seq_base rs = map (\<lambda>i. start + sum_list (map seq_count (take i rs))) [0..<length rs]"
  using assms
proof (induction rs arbitrary: start)
  case Nil
  then show ?case by simp
next
  case (Cons r rs)
  have nonneg: "0 \<le> sum_list (map seq_count rs)"
    using Cons.prems(3) by (intro sum_list_nonneg) (auto simp: list_all_iff)
  then have e: "seq_end r = start + seq_count r"
    using Cons.prems by (auto simp: seq_end_def in_i32_def intro!: wrap32_id)
  have "map seq_base rs = map (\<lambda>i. seq_end r + sum_list (map seq_count (take i rs))) [0..<length rs]"
    using Cons.prems e by (intro Cons.IH) auto
  then have "map seq_base rs = map (\<lambda>i. start + sum_list (map seq_count (take (Suc i) (r # rs)))) [0..<length rs]"
    by (simp add: e add.assoc)
  moreover have "map (\<lambda>i. start + sum_list (map seq_count (take i (r # rs)))) [0..<length (r # rs)]
      = start # map (\<lambda>i. start + sum_list (map seq_count (take (Suc i) (r # rs)))) [0..<length rs]"
    by (simp only: length_Cons map_upt_Suc take_0 list.map sum_list.Nil add_0_right)
  ultimately show ?case
    using Cons.prems(1) by simp
qed

text \<open>
  C6: sequence numbers continue.  From any state, over any interleaving of batches for any
  partitions, enrolments, fencing, and transactions beginning and ending (that is, as long as the
  producer is not initialised under another identity), the ranges handed out for a partition are
  contiguous: the i-th starts where the sum of the earlier counts says, with no gap and no number
  used twice, as long as the total stays below 2^31.
\<close>

theorem sequences_contiguous_across_transactions:
  assumes "identity_kept (identity s) ops"
    and "rs = ranges_of (topic, part) (snd (run_source producer_step s ops))"
    and "0 \<le> next_sequence s topic part" and "list_all (\<lambda>r. 0 \<le> seq_count r) rs"
    and "next_sequence s topic part + sum_list (map seq_count rs) \<le> i32_max"
  shows "map seq_base rs =
     map (\<lambda>i. next_sequence s topic part + sum_list (map seq_count (take i rs))) [0..<length rs]"
  using producer_run_contiguous [OF assms(1), of "(topic, part)"] assms(2-5)
    contiguous_bounds [of "next_sequence s topic part" rs] by auto

theorem sequences_contiguous_across_transactions_witness:
  "map seq_base (ranges_of (''t'', 0) (snd (run_source producer_step
      (on_init_producer_id transactional_producer \<lparr>producer_id = 7, producer_epoch = 0\<rparr>)
      [OpBegin, OpEnrolled (''t'', 0), OpAllocate (''t'', 0) 3, OpEnd, OpEnded,
       OpBegin, OpEnrolled (''t'', 0), OpAllocate (''t'', 0) 2]))) = [0, 3]"
proof -
  let ?s = "on_init_producer_id transactional_producer \<lparr>producer_id = 7, producer_epoch = 0\<rparr>"
  let ?ops = "[OpBegin, OpEnrolled (''t'', 0), OpAllocate (''t'', 0) 3, OpEnd, OpEnded,
       OpBegin, OpEnrolled (''t'', 0), OpAllocate (''t'', 0) 2]"
  let ?rs = "ranges_of (''t'', 0) (snd (run_source producer_step ?s ?ops))"
  have rs: "?rs = [\<lparr>seq_base = 0, seq_count = 3\<rparr>, \<lparr>seq_base = 3, seq_count = 2\<rparr>]"
    by (simp add: producer_op_defs transactional_producer_def default_producer_def ranges_of_def wrap32_def)
  show ?thesis
    using sequences_contiguous_across_transactions [OF _ refl, of ?s ?ops "''t''" 0]
    unfolding rs
    by (simp add: identity_kept_def next_sequence_def on_init_producer_id_def transactional_producer_def
        default_producer_def upt_rec)
qed

text \<open>
  The one legitimate reset.  Initialising under a different identity restarts every
  partition at zero; initialising again under the same identity keeps every counter; beginning,
  enrolling, ending, completing and fencing never touch a counter.
\<close>

theorem sequences_reset_only_with_identity:
  "next_sequence (on_init_producer_id s i) topic part =
     (if identity s = Some i then next_sequence s topic part else 0) \<and>
   next_sequence (snd (begin_transaction s)) topic part = next_sequence s topic part \<and>
   next_sequence (on_enrolled s t p) topic part = next_sequence s topic part \<and>
   next_sequence (snd (end_transaction s)) topic part = next_sequence s topic part \<and>
   next_sequence (on_end_transaction s) topic part = next_sequence s topic part \<and>
   next_sequence (fence s) topic part = next_sequence s topic part"
  using on_init_same [of s i] on_init_new [of s i] begin_transaction_frame [of s] end_transaction_frame [of s]
  by (simp add: next_sequence_def on_enrolled_def on_end_transaction_def fence_def)

text \<open>
  What a transactional producer may write.  In every state, an allocation that succeeds was
  made by a usable producer and, if the producer is transactional, inside an open transaction and
  for a partition enrolled in it; it starts at the partition's next number, advances that
  partition by the batch's size, and changes nothing else.  An allocation that fails changes
  nothing at all.
\<close>

theorem allocate_guarded:
  "(allocate s topic part n = (Inr r, s') \<longrightarrow>
      txn s \<noteq> TxnFatal \<and> (transactional s \<longrightarrow> txn s = InTransaction \<and> (topic, part) \<in> enrolled s) \<and>
      r = \<lparr>seq_base = next_sequence s topic part, seq_count = n\<rparr> \<and>
      s' = s\<lparr>sequences := (sequences s)((topic, part) \<mapsto> wrap32 (next_sequence s topic part + n))\<rparr>) \<and>
   (allocate s topic part n = (Inl e, s') \<longrightarrow> s' = s)"
proof (intro conjI impI)
  assume al: "allocate s topic part n = (Inr r, s')"
  note facts = allocate_Inr [OF al]
  show "txn s \<noteq> TxnFatal" by (rule facts)
  show "txn s = InTransaction" and "(topic, part) \<in> enrolled s" if "transactional s"
    using facts(5) that by auto
  show "r = \<lparr>seq_base = next_sequence s topic part, seq_count = n\<rparr>"
    using facts(1,2) by simp
  show "s' = s\<lparr>sequences := (sequences s)((topic, part) \<mapsto> wrap32 (next_sequence s topic part + n))\<rparr>"
    using facts(1,2,3) by (simp add: seq_end_def)
qed (rule allocate_Inl)

theorem allocate_guarded_witness:
  "allocate (idempotent_producer\<lparr>identity := Some \<lparr>producer_id = 7, producer_epoch = 0\<rparr>, txn := Ready\<rparr>) ''t'' 0 4 =
     (Inr \<lparr>seq_base = 0, seq_count = 4\<rparr>,
      idempotent_producer\<lparr>identity := Some \<lparr>producer_id = 7, producer_epoch = 0\<rparr>, txn := Ready,
        sequences := [(''t'', 0) \<mapsto> 4]\<rparr>)"
  using allocate_guarded [of "idempotent_producer\<lparr>identity := Some \<lparr>producer_id = 7, producer_epoch = 0\<rparr>, txn := Ready\<rparr>" "''t''" 0 4
      "\<lparr>seq_base = 0, seq_count = 4\<rparr>"]
  by (simp add: allocate_def check_usable_def idempotent_producer_def default_producer_def wrap32_def)

section \<open>Fencing\<close>

lemma fatal_step:
  assumes "txn s = TxnFatal" and "\<And>i. x \<noteq> OpInit i"
  shows "txn (fst (producer_step s x)) = TxnFatal \<and> sequences (fst (producer_step s x)) = sequences s \<and>
     snd (producer_step s x) = None"
  using assms by (cases x) (auto simp: producer_op_defs)

lemma fatal_run:
  assumes "txn s = TxnFatal" and "list_all (\<lambda>x. \<forall>i. x \<noteq> OpInit i) ops"
  shows "txn (fst (run_source producer_step s ops)) = TxnFatal \<and>
     sequences (fst (run_source producer_step s ops)) = sequences s \<and>
     snd (run_source producer_step s ops) = []"
  using assms
proof (induction ops arbitrary: s)
  case Nil
  then show ?case by simp
next
  case (Cons x xs)
  obtain s' out where st: "producer_step s x = (s', out)" by fastforce
  with fatal_step [of s x] Cons.prems have "txn s' = TxnFatal" "sequences s' = sequences s" "out = None"
    by auto
  with Cons.IH [of s'] Cons.prems st show ?case by (auto split: prod.splits)
qed

text \<open>
  A fenced producer refuses everything.  After \<open>fence\<close>, whatever is attempted short of a
  new \<open>InitProducerId\<close>, no sequence number is ever handed out again, no counter moves, and
  beginning, allocating and ending all answer \<open>Fatal\<close>.
\<close>

theorem fenced_producer_refuses_everything:
  assumes "list_all (\<lambda>x. \<forall>i. x \<noteq> OpInit i) ops"
    and "run_source producer_step (fence s) ops = (s', outs)"
  shows "outs = [] \<and> sequences s' = sequences s \<and> begin_transaction s' = (Inl ProducerFatal, s') \<and>
     allocate s' topic part n = (Inl ProducerFatal, s') \<and> end_transaction s' = (Inl ProducerFatal, s')"
proof -
  have "txn s' = TxnFatal" "sequences s' = sequences s" "outs = []"
    using fatal_run [of "fence s" ops] assms by (auto simp: fence_def)
  then show ?thesis
    by (simp add: begin_transaction_def allocate_def end_transaction_def check_usable_def)
qed

theorem fenced_producer_refuses_everything_witness:
  "begin_transaction (fst (run_source producer_step (fence idempotent_producer) [OpBegin, OpEnded])) =
     (Inl ProducerFatal, fst (run_source producer_step (fence idempotent_producer) [OpBegin, OpEnded]))"
  by (rule fenced_producer_refuses_everything
      [OF _ surjective_pairing, THEN conjunct2, THEN conjunct2, THEN conjunct1]) simp

text \<open>
  the counter is 32 bits and is not restarted.  A batch that takes a partition past 2^31 - 1
  leaves the counter negative, so the following batch is given a negative base sequence, which is
  not a sequence number in Kafka's protocol.
\<close>

theorem sequence_counter_overflows:
  assumes "allocate s topic part n = (Inr r, s')"
    and "0 \<le> next_sequence s topic part" and "next_sequence s topic part \<le> i32_max"
    and "n \<le> i32_max" and "i32_max < next_sequence s topic part + n"
  shows "next_sequence s' topic part = next_sequence s topic part + n - 4294967296 \<and>
     next_sequence s' topic part < 0"
  using allocate_Inr [OF assms(1)] wrap32_overflow [OF assms(5)] assms(2-5)
  by (simp add: next_sequence_def seq_end_def)

theorem sequence_counter_overflows_witness:
  "next_sequence (snd (allocate (idempotent_producer\<lparr>identity := Some \<lparr>producer_id = 7, producer_epoch = 0\<rparr>,
      txn := Ready, sequences := [(''t'', 0) \<mapsto> 2147483647]\<rparr>) ''t'' 0 1)) ''t'' 0 < 0"
proof -
  let ?s = "idempotent_producer\<lparr>identity := Some \<lparr>producer_id = 7, producer_epoch = 0\<rparr>,
      txn := Ready, sequences := [(''t'', 0) \<mapsto> 2147483647]\<rparr>"
  have "allocate ?s ''t'' 0 1 =
      (Inr \<lparr>seq_base = 2147483647, seq_count = 1\<rparr>, snd (allocate ?s ''t'' 0 1))"
    by (simp add: allocate_def check_usable_def idempotent_producer_def default_producer_def)
  from sequence_counter_overflows [OF this] show ?thesis
    by (simp add: next_sequence_def)
qed

end
