(* ===== verification/Partitioner.thy ===== *)
theory Partitioner
  imports Prelude
begin

text \<open>
  Choosing a partition for a record, \<^verbatim>\<open>barnabas-core/src/partitioner.rs\<close>: the two key hashes at
  their 32-bit widths and the round robin of null keys.

  Shown: the choice is always a partition of the topic and depends on nothing but the key; null
  keys are dealt out in turn; the hashes give the published check values.
\<close>

unbundle bit_operations_syntax

section \<open>The hashes\<close>

datatype partitioner = Crc32 | Murmur2

definition crc32_bit :: "u32 \<Rightarrow> u32" where
  "crc32_bit crc = (let mask = - (crc AND 1) in drop_bit 1 crc XOR (0xEDB88320 AND mask))"

definition crc32_byte :: "u32 \<Rightarrow> u8 \<Rightarrow> u32" where
  "crc32_byte crc byte = (crc32_bit ^^ 8) (crc XOR ucast byte)"

definition crc32 :: "bytes \<Rightarrow> u32" where
  "crc32 data = NOT (fold (\<lambda>byte crc. crc32_byte crc byte) data 0xFFFFFFFF)"

definition murmur_m :: u32 where "murmur_m = 0x5bd1e995"

definition murmur_block :: "bytes \<Rightarrow> u32 \<Rightarrow> nat \<Rightarrow> u32" where
  "murmur_block data h i =
     (let i4 = i * 4;
          k = ucast (data ! i4) OR push_bit 8 (ucast (data ! (i4 + 1))) OR
              push_bit 16 (ucast (data ! (i4 + 2))) OR push_bit 24 (ucast (data ! (i4 + 3)));
          k1 = k * murmur_m;
          k2 = k1 XOR drop_bit 24 k1;
          k3 = k2 * murmur_m
      in (h * murmur_m) XOR k3)"

definition murmur_tail :: "bytes \<Rightarrow> u32 \<Rightarrow> u32" where
  "murmur_tail data h =
     (let t = length data div 4 * 4
      in if length data mod 4 = 3
         then (((h XOR push_bit 16 (ucast (data ! (t + 2)))) XOR push_bit 8 (ucast (data ! (t + 1))))
                 XOR ucast (data ! t)) * murmur_m
         else if length data mod 4 = 2
         then ((h XOR push_bit 8 (ucast (data ! (t + 1)))) XOR ucast (data ! t)) * murmur_m
         else if length data mod 4 = 1 then (h XOR ucast (data ! t)) * murmur_m
         else h)"

definition murmur2 :: "bytes \<Rightarrow> int" where
  "murmur2 data =
     (let h0 = 0x9747b28c XOR of_nat (length data);
          h1 = fold (\<lambda>i h. murmur_block data h i) [0..<length data div 4] h0;
          h2 = murmur_tail data h1;
          h3 = h2 XOR drop_bit 13 h2;
          h4 = h3 * murmur_m;
          h5 = h4 XOR drop_bit 15 h4
      in sint h5)"

section \<open>The choice\<close>

text \<open>\<^verbatim>\<open>u32::try_from\<close> of an \<^verbatim>\<open>i32\<close> and back: out of range is \<open>None\<close>.\<close>

definition u32_of_i32 :: "int \<Rightarrow> u32 option" where
  "u32_of_i32 n = (if 0 \<le> n then Some (word_of_int n) else None)"

definition i32_of_u32 :: "u32 \<Rightarrow> int option" where
  "i32_of_u32 x = (if uint x \<le> i32_max then Some (uint x) else None)"

definition slot_for :: "partitioner \<Rightarrow> bytes \<Rightarrow> u32 \<Rightarrow> u32 option" where
  "slot_for p key count =
     (case p of
        Crc32 \<Rightarrow> Some (crc32 key mod count)
      | Murmur2 \<Rightarrow> map_option (\<lambda>h. h mod count) (u32_of_i32 (murmur2 key AND 0x7fffffff)))"

definition partition_for :: "partitioner \<Rightarrow> bytes option \<Rightarrow> int \<Rightarrow> u32 \<Rightarrow> int option \<times> u32" where
  "partition_for p key partition_count nxt =
     (if partition_count \<le> 0 then (None, nxt)
      else case u32_of_i32 partition_count of
             None \<Rightarrow> (None, nxt)
           | Some count \<Rightarrow>
               (case key of
                  None \<Rightarrow> (i32_of_u32 (nxt mod count), nxt + 1)
                | Some k \<Rightarrow> (Option.bind (slot_for p k count) i32_of_u32, nxt)))"

text \<open>
  The contract the producers rely on.  \<open>place\<close> is the choice for a topic with a given number of
  partitions, under a round-robin counter.
\<close>

fun place_all :: "(bytes option \<Rightarrow> int \<Rightarrow> u32 \<Rightarrow> int option \<times> u32) \<Rightarrow> int \<Rightarrow> bytes option list \<Rightarrow> u32 \<Rightarrow>
    int option list \<times> u32" where
  "place_all place count [] nxt = ([], nxt)"
| "place_all place count (k # ks) nxt =
     (case place k count nxt of (p, nxt') \<Rightarrow>
        (case place_all place count ks nxt' of (ps, nxt'') \<Rightarrow> (p # ps, nxt'')))"

locale placement =
  fixes place :: "bytes option \<Rightarrow> int \<Rightarrow> u32 \<Rightarrow> int option \<times> u32"
  assumes none: "count \<le> 0 \<Longrightarrow> place key count nxt = (None, nxt)"
    and in_range: "0 < count \<Longrightarrow> in_i32 count \<Longrightarrow> \<exists>p. fst (place key count nxt) = Some p \<and> 0 \<le> p \<and> p < count"
    and keyed: "place (Some k) count nxt = (fst (place (Some k) count 0), nxt)"
    and unkeyed: "0 < count \<Longrightarrow> in_i32 count \<Longrightarrow> place None count nxt = (Some (uint nxt mod count), nxt + 1)"
begin

lemma all_in_range:
  assumes "0 < count" and "in_i32 count" and "p \<in> set (fst (place_all place count keys nxt))"
  shows "\<exists>q. p = Some q \<and> 0 \<le> q \<and> q < count"
  using assms
proof (induction keys arbitrary: nxt)
  case (Cons k ks)
  obtain q nxt' where "place k count nxt = (q, nxt')" by fastforce
  moreover obtain qs n' where "place_all place count ks nxt' = (qs, n')" by fastforce
  ultimately show ?case
    using Cons.prems Cons.IH [of nxt'] in_range [of count k nxt] by auto
qed simp

lemma keyed_counter: "snd (place (Some k) count nxt) = nxt"
  using keyed by (metis snd_conv)

lemma keyed_stable: "fst (place (Some k) count nxt) = fst (place (Some k) count nxt')"
  by (subst (1 2) keyed) simp

lemma unkeyed_in_turn:
  assumes "0 < count" and "in_i32 count" and "uint nxt + int n \<le> 2 ^ 32"
  shows "fst (place_all place count (replicate n None) nxt) =
     map (\<lambda>i. Some ((uint nxt + int i) mod count)) [0..<n]"
  using assms(3)
proof (induction n arbitrary: nxt)
  case 0
  then show ?case by simp
next
  case (Suc n)
  show ?case
  proof (cases n)
    case 0
    with assms show ?thesis by (simp add: unkeyed)
  next
    case (Suc m)
    with Suc.prems have s: "uint (nxt + 1) = uint nxt + 1"
      by (simp add: uint_word_ariths)
    have "map (\<lambda>i. Some ((uint (nxt + 1) + int i) mod count)) [0..<n] =
        map (\<lambda>i. Some ((uint nxt + int i) mod count)) (map Suc [0..<n])"
      by (simp add: s add.assoc del: map_Suc_upt)
    moreover have "[0..<Suc n] = 0 # map Suc [0..<n]"
      by (simp only: map_Suc_upt upt_conv_Cons zero_less_Suc)
    moreover have "fst (place_all place count (replicate n None) (nxt + 1)) =
        map (\<lambda>i. Some ((uint (nxt + 1) + int i) mod count)) [0..<n]"
      using Suc.IH [of "nxt + 1"] Suc.prems s by simp
    moreover have "fst (place_all place count (replicate (Suc n) None) nxt) =
        Some (uint nxt mod count) # fst (place_all place count (replicate n None) (nxt + 1))"
      using assms(1,2) by (simp add: unkeyed split: prod.splits)
    ultimately show ?thesis by (simp only: list.map) simp
  qed
qed

end

lemma uint_count: "0 < c \<Longrightarrow> in_i32 c \<Longrightarrow> uint (word_of_int c :: u32) = c"
  by (simp add: in_i32_def uint_word_of_int)

text \<open>The conversions that cannot fail here: the count is positive, the hash is masked, a slot is below the count.\<close>

lemma i32_of_slot:
  assumes "0 < c" and "in_i32 c"
  shows "i32_of_u32 (x mod word_of_int c) = Some (uint x mod c)"
proof -
  have "uint (x mod word_of_int c) = uint x mod c" using assms by (simp add: uint_mod uint_count)
  moreover have "uint x mod c < c" using assms(1) by simp
  ultimately show ?thesis using assms(2) by (simp add: i32_of_u32_def in_i32_def)
qed

lemma masked_hash: "u32_of_i32 (h AND 0x7fffffff) = Some (word_of_int (h mod 2 ^ 31)) \<and> uint (word_of_int (h mod 2 ^ 31) :: u32) = h mod 2 ^ 31"
proof -
  have "h AND 0x7fffffff = take_bit 31 h" by (simp add: take_bit_eq_mask mask_eq_exp_minus_1)
  then have m: "h AND 0x7fffffff = h mod 2 ^ 31" by (simp only: take_bit_eq_mod)
  have "0 \<le> h mod 2 ^ 31" "h mod 2 ^ 31 < (2 ^ 31 :: int)" by simp_all
  then have "(h mod 2 ^ 31) mod 2 ^ 32 = h mod (2 ^ 31 :: int)" by (intro mod_pos_pos_trivial) simp_all
  with m show ?thesis by (simp add: u32_of_i32_def uint_word_of_int)
qed

definition hash_of :: "partitioner \<Rightarrow> bytes \<Rightarrow> int" where
  "hash_of p k = (case p of Crc32 \<Rightarrow> uint (crc32 k) | Murmur2 \<Rightarrow> murmur2 k mod 2 ^ 31)"

lemma partition_for_key:
  assumes "0 < count" and "in_i32 count"
  shows "partition_for p (Some k) count nxt = (Some (hash_of p k mod count), nxt)"
  using assms i32_of_slot [OF assms] masked_hash [of "murmur2 k"]
  by (simp add: partition_for_def slot_for_def hash_of_def u32_of_i32_def [of count] split: partitioner.split)

lemma partition_for_none:
  assumes "0 < count" and "in_i32 count"
  shows "partition_for p None count nxt = (Some (uint nxt mod count), nxt + 1)"
  using assms i32_of_slot [OF assms] by (simp add: partition_for_def u32_of_i32_def)

interpretation pf: placement "partition_for p"
proof
  fix count :: int and nxt key k
  show "count \<le> 0 \<Longrightarrow> partition_for p key count nxt = (None, nxt)"
    by (simp add: partition_for_def)
  show "partition_for p (Some k) count nxt = (fst (partition_for p (Some k) count 0), nxt)"
    by (simp add: partition_for_def split: option.split)
  assume c: "0 < count" "in_i32 count"
  show "partition_for p None count nxt = (Some (uint nxt mod count), nxt + 1)"
    using c by (rule partition_for_none)
  show "\<exists>q. fst (partition_for p key count nxt) = Some q \<and> 0 \<le> q \<and> q < count"
    using c by (cases key) (simp_all add: partition_for_key partition_for_none)
qed

text \<open>
  Null keys are dealt out in turn.  A run of records without a key goes to the partitions
  in cyclic order from the counter, one each, as long as the 32-bit counter does not wrap, so any
  run as long as the partition count reaches every partition exactly once.
\<close>

theorem null_keys_round_robin:
  assumes "0 < count" and "in_i32 count" and "uint nxt + int n \<le> 2 ^ 32"
  shows "fst (place_all (partition_for p) count (replicate n None) nxt) =
     map (\<lambda>i. Some ((uint nxt + int i) mod count)) [0..<n]"
  by (rule pf.unkeyed_in_turn [OF assms])

theorem null_keys_round_robin_witness:
  "fst (place_all (partition_for Crc32) 3 (replicate 4 None) 2) = map Some [2, 0, 1, 2]"
  using null_keys_round_robin [of 3 2 4 Crc32] by (simp add: in_i32_def upt_rec)

section \<open>CRC-32 by table\<close>

lemma crc32_bit_if: "crc32_bit x = drop_bit 1 x XOR (if odd x then 0xEDB88320 else 0)"
proof -
  have "x AND 1 = of_bool (odd x)" by (simp add: and_one_eq mod_2_eq_odd)
  then show ?thesis by (simp add: crc32_bit_def)
qed

lemma crc32_bit_xor: "crc32_bit (x XOR y) = crc32_bit x XOR crc32_bit y"
  by (auto simp: crc32_bit_if drop_bit_xor even_xor_iff xor.assoc xor.left_commute)

lemma crc32_bits_xor: "(crc32_bit ^^ n) (x XOR y) = (crc32_bit ^^ n) x XOR (crc32_bit ^^ n) y"
  by (induction n) (simp_all add: crc32_bit_xor)

lemma crc32_bits_shift: "(crc32_bit ^^ n) (push_bit n (drop_bit n x)) = drop_bit n x"
proof (induction n arbitrary: x)
  case 0
  then show ?case by simp
next
  case (Suc n)
  have "crc32_bit (push_bit (Suc n) (drop_bit (Suc n) x)) = push_bit n (drop_bit n (drop_bit 1 x))"
  proof -
    have "even (push_bit (Suc n) (drop_bit (Suc n) x))" by (simp add: even_push_bit_iff)
    moreover have "drop_bit 1 (push_bit (Suc n) (drop_bit (Suc n) x)) = push_bit n (drop_bit n (drop_bit 1 x))"
      by (rule bit_word_eqI)
         (auto simp: bit_simps le_Suc_eq Suc_diff_le simp del: push_bit_Suc drop_bit_Suc dest: bit_imp_le_length)
    ultimately show ?thesis by (simp add: crc32_bit_if del: push_bit_Suc drop_bit_Suc)
  qed
  then have "(crc32_bit ^^ Suc n) (push_bit (Suc n) (drop_bit (Suc n) x)) = drop_bit n (drop_bit 1 x)"
    by (simp only: funpow_Suc_right comp_apply Suc.IH)
  then show ?case by (simp add: drop_bit_drop_bit)
qed

text \<open>The textbook byte-at-a-time routine: one table lookup per byte.\<close>

definition crc_table :: "u8 \<Rightarrow> u32" where
  "crc_table i = (crc32_bit ^^ 8) (ucast i)"

definition crc32_by_table :: "bytes \<Rightarrow> u32" where
  "crc32_by_table data =
     NOT (fold (\<lambda>b crc. crc_table (ucast crc XOR b) XOR drop_bit 8 crc) data 0xFFFFFFFF)"

lemma crc32_byte_table: "crc32_byte crc b = crc_table (ucast crc XOR b) XOR drop_bit 8 crc"
proof -
  have "crc XOR ucast b = ucast (ucast crc XOR b :: u8) XOR push_bit 8 (drop_bit 8 crc)"
    by (rule bit_word_eqI) (auto simp: bit_simps)
  then show ?thesis by (simp add: crc32_byte_def crc_table_def crc32_bits_xor crc32_bits_shift)
qed

text \<open>
  The bitwise CRC-32 is the table-driven one.  For every input, the bit-by-bit loop computes
  what the usual one-lookup-per-byte routine does with the table of the same reflected
  polynomial, and the checksum of no bytes is 0.
\<close>

lemma crc32_equals_table_driven:
  "crc32 data = crc32_by_table data \<and> crc32 [] = 0"
  by (simp add: crc32_def crc32_by_table_def crc32_byte_table)

section \<open>The choice as the two clients make it\<close>

text \<open>
  C39: records go where the two clients would put them.  In a topic with a positive number of partitions a keyed record goes to its hash modulo that
  number and leaves the counter alone: the hash is the unsigned CRC-32 of the table-driven routine, as in librdkafka, or the low 31 bits of
  murmur2, as Java's \<^verbatim>\<open>toPositive\<close>, also where murmur2 is negative; none of the fallible conversions fails.  A record without a key goes where
  the counter points, which then moves on by one and wraps.  So any sequence of records has partitions of the topic, and a topic that reports no
  partition gives no choice and leaves the counter alone.
\<close>

theorem partition_choice_sound:
  "(0 < count \<and> in_i32 count \<longrightarrow>
      partition_for Crc32 (Some k) count nxt = (Some (uint (crc32_by_table k) mod count), nxt) \<and>
      partition_for Murmur2 (Some k) count nxt = (Some ((murmur2 k mod 2 ^ 31) mod count), nxt) \<and>
      partition_for p None count nxt = (Some (uint nxt mod count), nxt + 1) \<and>
      list_all (\<lambda>c. \<exists>q. c = Some q \<and> 0 \<le> q \<and> q < count) (fst (place_all (partition_for p) count keys nxt))) \<and>
   (count \<le> 0 \<longrightarrow> partition_for p key count nxt = (None, nxt))"
  using pf.all_in_range [of count _ p keys nxt] pf.none [of count p key nxt] crc32_equals_table_driven [of k]
  by (auto simp: list_all_iff partition_for_key partition_for_none hash_of_def)

theorem partition_choice_sound_witness:
  "murmur2 [49] = - 1993445489 \<and> partition_for Murmur2 (Some [49]) 7 0 = (Some 2, 0)"
proof -
  have "murmur2 [49] = - 1993445489" by code_simp
  then show ?thesis using partition_choice_sound [of 7 "[49]" 0] by (simp add: in_i32_def)
qed

end
