(* ===== verification/Metadata.thy ===== *)
theory Metadata
  imports Prelude "HOL-Library.Mapping"
begin

text \<open>
  The cluster map, \<^verbatim>\<open>barnabas-core/src/metadata.rs\<close>.  \<^verbatim>\<open>HashMap\<close> fields are \<open>mapping\<close>s.
  \<^verbatim>\<open>MetadataResponse\<close> is the \<^verbatim>\<open>kafka-protocol\<close> crate's struct; the records below have the fields
  the client reads.

  Shown: a response is merged, entry by entry, over what was known; a topic's partition count
  is what the response listed, leaders or not; invalidation and forgetting touch nothing else.
\<close>

section \<open>State\<close>

record broker_addr =
  node_id :: int
  host :: string
  port :: int

definition addr :: "broker_addr \<Rightarrow> string" where
  "addr b = host b @ '':'' @ show_int (port b)"

record metadata =
  brokers_map :: "(int, broker_addr) mapping"
  leaders :: "(string \<times> int, int) mapping"
  partition_counts :: "(string, int) mapping"
  controller_id :: "int option"

record response_partition =
  rp_error_code :: int
  rp_index :: int
  rp_leader :: int

record response_topic =
  rt_error_code :: int
  rt_name :: "string option"
  rt_partitions :: "response_partition list"

record metadata_response =
  mr_controller :: int
  mr_brokers :: "broker_addr list"
  mr_topics :: "response_topic list"

section \<open>Operations\<close>

definition new_metadata :: metadata where
  "new_metadata = \<lparr>brokers_map = Mapping.empty, leaders = Mapping.empty,
     partition_counts = Mapping.empty, controller_id = None\<rparr>"

definition update_broker :: "broker_addr \<Rightarrow> metadata \<Rightarrow> metadata" where
  "update_broker b m = m\<lparr>brokers_map := Mapping.update (node_id b) b (brokers_map m)\<rparr>"

definition update_partition :: "string \<Rightarrow> response_partition \<Rightarrow> metadata \<Rightarrow> metadata" where
  "update_partition name rp m =
     (if rp_error_code rp \<noteq> 0 \<or> rp_leader rp < 0 then m
      else m\<lparr>leaders := Mapping.update (name, rp_index rp) (rp_leader rp) (leaders m)\<rparr>)"

definition count_of :: "response_partition list \<Rightarrow> int" where
  "count_of ps = (if int (length ps) \<le> i32_max then int (length ps) else i32_max)"

definition update_topic :: "response_topic \<Rightarrow> metadata \<Rightarrow> metadata" where
  "update_topic t m =
     (if rt_error_code t \<noteq> 0 then m
      else case rt_name t of
             None \<Rightarrow> m
           | Some name \<Rightarrow>
               fold (update_partition name) (rt_partitions t)
                 (m\<lparr>partition_counts := Mapping.update name (count_of (rt_partitions t)) (partition_counts m)\<rparr>))"

definition update_metadata :: "metadata \<Rightarrow> metadata_response \<Rightarrow> metadata" where
  "update_metadata m resp =
     (let m1 = (if 0 \<le> mr_controller resp then m\<lparr>controller_id := Some (mr_controller resp)\<rparr> else m);
          m2 = fold update_broker (mr_brokers resp) m1
      in fold update_topic (mr_topics resp) m2)"

definition broker :: "metadata \<Rightarrow> int \<Rightarrow> broker_addr option" where
  "broker m node = Mapping.lookup (brokers_map m) node"

definition leader_for :: "metadata \<Rightarrow> string \<Rightarrow> int \<Rightarrow> broker_addr option" where
  "leader_for m topic part =
     (case Mapping.lookup (leaders m) (topic, part) of
        None \<Rightarrow> None
      | Some node \<Rightarrow> Mapping.lookup (brokers_map m) node)"

definition controller :: "metadata \<Rightarrow> broker_addr option" where
  "controller m =
     (case controller_id m of None \<Rightarrow> None | Some c \<Rightarrow> Mapping.lookup (brokers_map m) c)"

definition invalidate_controller :: "metadata \<Rightarrow> metadata" where
  "invalidate_controller m = m\<lparr>controller_id := None\<rparr>"

definition invalidate_partition :: "metadata \<Rightarrow> string \<Rightarrow> int \<Rightarrow> metadata" where
  "invalidate_partition m topic part = m\<lparr>leaders := Mapping.delete (topic, part) (leaders m)\<rparr>"

definition partition_count :: "metadata \<Rightarrow> string \<Rightarrow> int" where
  "partition_count m topic =
     (case Mapping.lookup (partition_counts m) topic of None \<Rightarrow> 0 | Some n \<Rightarrow> n)"

definition forget_topic :: "metadata \<Rightarrow> string \<Rightarrow> metadata" where
  "forget_topic m topic =
     m\<lparr>partition_counts := Mapping.delete topic (partition_counts m),
       leaders := Mapping.filter (\<lambda>(name, _) _. name \<noteq> topic) (leaders m)\<rparr>"

definition metadata_is_empty :: "metadata \<Rightarrow> bool" where
  "metadata_is_empty m \<longleftrightarrow> Mapping.is_empty (brokers_map m)"

section \<open>Merging\<close>

text \<open>What a response reports: the leaders it names, and the partition counts it implies.\<close>

definition topic_leaders :: "response_topic \<Rightarrow> ((string \<times> int) \<times> int) list" where
  "topic_leaders t =
     (case rt_name t of
        None \<Rightarrow> []
      | Some name \<Rightarrow>
          if rt_error_code t \<noteq> 0 then []
          else map (\<lambda>rp. ((name, rp_index rp), rp_leader rp))
                 (filter (\<lambda>rp. rp_error_code rp = 0 \<and> 0 \<le> rp_leader rp) (rt_partitions t)))"

definition topic_counts :: "response_topic \<Rightarrow> (string \<times> int) list" where
  "topic_counts t =
     (case rt_name t of
        None \<Rightarrow> []
      | Some name \<Rightarrow> if rt_error_code t \<noteq> 0 then [] else [(name, count_of (rt_partitions t))])"

text \<open>Entries laid over a map, the last one winning.\<close>

definition overlay :: "('k \<times> 'v) list \<Rightarrow> ('k \<rightharpoonup> 'v) \<Rightarrow> ('k \<rightharpoonup> 'v)" where
  "overlay kvs f = f ++ map_of (rev kvs)"

lemma overlay_append: "overlay (xs @ ys) f = overlay ys (overlay xs f)"
  by (simp add: overlay_def)

lemma overlay_simps [simp]: "overlay [] f = f" "overlay ((k, v) # kvs) f = overlay kvs (f(k \<mapsto> v))"
proof -
  show "overlay [] f = f" by (simp add: overlay_def)
  have "overlay ([(k, v)] @ kvs) f = overlay kvs (overlay [(k, v)] f)" by (rule overlay_append)
  then show "overlay ((k, v) # kvs) f = overlay kvs (f(k \<mapsto> v))" by (simp add: overlay_def)
qed

lemma update_partitions_frame:
  "brokers_map (fold (update_partition name) ps m) = brokers_map m"
  "partition_counts (fold (update_partition name) ps m) = partition_counts m"
  "controller_id (fold (update_partition name) ps m) = controller_id m"
  by (induction ps arbitrary: m) (simp_all add: update_partition_def)

lemma lookup_update_fun: "Mapping.lookup (Mapping.update k v m) = (Mapping.lookup m)(k \<mapsto> v)"
  by (rule ext) (simp add: lookup_update')

lemma lookup_delete_fun: "Mapping.lookup (Mapping.delete k m) k' = (if k' = k then None else Mapping.lookup m k')"
  by (cases "k' = k") simp_all

lemma update_partitions_leaders:
  "Mapping.lookup (leaders (fold (update_partition name) ps m)) =
     overlay (map (\<lambda>rp. ((name, rp_index rp), rp_leader rp))
       (filter (\<lambda>rp. rp_error_code rp = 0 \<and> 0 \<le> rp_leader rp) ps)) (Mapping.lookup (leaders m))"
  by (induction ps arbitrary: m) (auto simp: update_partition_def lookup_update_fun)

lemma update_topic_frame:
  "brokers_map (update_topic t m) = brokers_map m" "controller_id (update_topic t m) = controller_id m"
  by (simp_all add: update_topic_def update_partitions_frame split: option.splits)

lemma update_topic_lookup:
  "Mapping.lookup (leaders (update_topic t m)) = overlay (topic_leaders t) (Mapping.lookup (leaders m))"
  "Mapping.lookup (partition_counts (update_topic t m)) =
     overlay (topic_counts t) (Mapping.lookup (partition_counts m))"
  by (simp_all add: update_topic_def topic_leaders_def topic_counts_def update_partitions_leaders
      update_partitions_frame lookup_update_fun split: option.splits)

lemma update_topics_lookup:
  "Mapping.lookup (leaders (fold update_topic ts m)) =
     overlay (concat (map topic_leaders ts)) (Mapping.lookup (leaders m))"
  "Mapping.lookup (partition_counts (fold update_topic ts m)) =
     overlay (concat (map topic_counts ts)) (Mapping.lookup (partition_counts m))"
  "brokers_map (fold update_topic ts m) = brokers_map m"
  "controller_id (fold update_topic ts m) = controller_id m"
  by (induction ts arbitrary: m) (simp_all add: update_topic_lookup overlay_append update_topic_frame)

lemma update_brokers_lookup:
  "Mapping.lookup (brokers_map (fold update_broker bs m)) =
     overlay (map (\<lambda>b. (node_id b, b)) bs) (Mapping.lookup (brokers_map m))"
  "leaders (fold update_broker bs m) = leaders m"
  "partition_counts (fold update_broker bs m) = partition_counts m"
  "controller_id (fold update_broker bs m) = controller_id m"
  by (induction bs arbitrary: m) (simp_all add: update_broker_def lookup_update_fun)

text \<open>
  A response is merged over what is known.  After \<open>update\<close>, each broker, each partition's
  leader and each topic's partition count is the last one the response reports, and what it was
  before where the response reports none: topics and partitions carrying an error code, and
  partitions without a leader, report no leader and change none, while a topic's count is the
  number of partitions listed, with or without leaders.
\<close>

theorem metadata_update_merges:
  "Mapping.lookup (leaders (update_metadata m resp)) =
     Mapping.lookup (leaders m) ++ map_of (rev (concat (map topic_leaders (mr_topics resp)))) \<and>
   Mapping.lookup (partition_counts (update_metadata m resp)) =
     Mapping.lookup (partition_counts m) ++ map_of (rev (concat (map topic_counts (mr_topics resp)))) \<and>
   Mapping.lookup (brokers_map (update_metadata m resp)) =
     Mapping.lookup (brokers_map m) ++ map_of (rev (map (\<lambda>b. (node_id b, b)) (mr_brokers resp))) \<and>
   controller_id (update_metadata m resp) =
     (if 0 \<le> mr_controller resp then Some (mr_controller resp) else controller_id m)"
  by (simp add: update_metadata_def Let_def update_topics_lookup update_brokers_lookup overlay_def)

lemma leader_unreported:
  assumes "(topic, part) \<notin> fst ` set (concat (map topic_leaders (mr_topics resp)))"
  shows "Mapping.lookup (leaders (update_metadata m resp)) (topic, part) = Mapping.lookup (leaders m) (topic, part)"
proof -
  have "map_of (rev (concat (map topic_leaders (mr_topics resp)))) (topic, part) = None"
    using assms by (simp only: map_of_eq_None_iff set_rev simp_thms)
  then show ?thesis
    by (simp add: update_metadata_def Let_def update_topics_lookup update_brokers_lookup overlay_def map_add_def)
qed

text \<open>
  One moved partition is one moved partition.  Invalidating a partition makes that
  partition's leader unknown and changes no other partition's leader, no broker, no count and no
  controller; a response that names nobody for it (an error, or an election in progress) leaves
  it unknown, and does not bring the old leader back.
\<close>

theorem invalidate_partition_is_local:
  assumes "(topic, part) \<notin> fst ` set (concat (map topic_leaders (mr_topics resp)))"
  shows "leader_for (invalidate_partition m topic part) topic part = None \<and>
     leader_for (update_metadata (invalidate_partition m topic part) resp) topic part = None \<and>
     ((t, p) \<noteq> (topic, part) \<longrightarrow> leader_for (invalidate_partition m topic part) t p = leader_for m t p) \<and>
     partition_count (invalidate_partition m topic part) t = partition_count m t \<and>
     broker (invalidate_partition m topic part) = broker m \<and>
     controller (invalidate_partition m topic part) = controller m"
  using leader_unreported [OF assms, of "invalidate_partition m topic part"]
  by (auto simp: leader_for_def invalidate_partition_def partition_count_def broker_def [abs_def]
      controller_def lookup_delete_fun split: option.splits)

theorem invalidate_partition_is_local_witness:
  "leader_for (update_metadata
     (invalidate_partition
       (update_metadata new_metadata
         \<lparr>mr_controller = 1, mr_brokers = [\<lparr>node_id = 1, host = ''h'', port = 9092\<rparr>],
          mr_topics = [\<lparr>rt_error_code = 0, rt_name = Some ''t'',
            rt_partitions = [\<lparr>rp_error_code = 0, rp_index = 0, rp_leader = 1\<rparr>]\<rparr>]\<rparr>) ''t'' 0)
     \<lparr>mr_controller = 1, mr_brokers = [], mr_topics = [\<lparr>rt_error_code = 0, rt_name = Some ''t'',
            rt_partitions = [\<lparr>rp_error_code = 5, rp_index = 0, rp_leader = - 1\<rparr>]\<rparr>]\<rparr>) ''t'' 0 = None"
  by (rule invalidate_partition_is_local [THEN conjunct2, THEN conjunct1]) (simp add: topic_leaders_def)

lemma forget_topic_gone:
  "partition_count (forget_topic m topic) topic = 0 \<and> leader_for (forget_topic m topic) topic part = None \<and>
   (t \<noteq> topic \<longrightarrow> partition_count (forget_topic m topic) t = partition_count m t \<and>
      leader_for (forget_topic m topic) t p = leader_for m t p)"
  by (auto simp: forget_topic_def partition_count_def leader_for_def lookup_delete_fun lookup_filter split: option.splits prod.splits)

end
