(* ===== verification/Group.thy ===== *)
theory Group
  imports Prelude "HOL-Library.Multiset"
begin

text \<open>
  Consumer group assignment, \<^verbatim>\<open>barnabas-core/src/group.rs\<close>: the four strategies behind the
  \<^verbatim>\<open>Assignor\<close> trait.  The trait is the locale \<open>assignor\<close>, interpreted for each strategy.  A
  lookup that the sources \<^verbatim>\<open>expect\<close> to succeed is a branch that panics, and never taken.
  \<^verbatim>\<open>BTreeSet\<close> is a set, read in order by \<open>sorted_list_of_set\<close>.  Member ids of a group are
  distinct, so the unstable sorts by member id are \<open>sort_key\<close>.

  Shown: no strategy panics; every member appears; a partition is given to at most one member,
  which subscribed to its topic; the three eager strategies give out every partition somebody
  wants; the cooperative one never gives out what another member still holds.
\<close>

section \<open>Data\<close>

datatype topic_partition = TopicPartition (tp_topic: string) (tp_partition: int)

instantiation topic_partition :: linorder
begin

definition less_eq_topic_partition :: "topic_partition \<Rightarrow> topic_partition \<Rightarrow> bool" where
  "less_eq_topic_partition a b \<longleftrightarrow> (tp_topic a, tp_partition a) \<le> (tp_topic b, tp_partition b)"

definition less_topic_partition :: "topic_partition \<Rightarrow> topic_partition \<Rightarrow> bool" where
  "less_topic_partition a b \<longleftrightarrow> (tp_topic a, tp_partition a) < (tp_topic b, tp_partition b)"

instance
proof
  fix a b c :: topic_partition
  show "a < b \<longleftrightarrow> a \<le> b \<and> \<not> b \<le> a"
    unfolding less_eq_topic_partition_def less_topic_partition_def by (rule less_le_not_le)
  show "a \<le> a"
    unfolding less_eq_topic_partition_def by (rule order_refl)
  show "a \<le> b \<Longrightarrow> b \<le> c \<Longrightarrow> a \<le> c"
    unfolding less_eq_topic_partition_def by (rule order_trans)
  show "a \<le> b \<Longrightarrow> b \<le> a \<Longrightarrow> a = b"
    unfolding less_eq_topic_partition_def by (drule (1) order_antisym) (simp add: topic_partition.expand)
  show "a \<le> b \<or> b \<le> a"
    unfolding less_eq_topic_partition_def by (rule linear)
qed

end

record subscription =
  member_id :: string
  topics :: "string list"
  owned :: "topic_partition list"
  generation :: int

type_synonym assignment = "(string, topic_partition list) btree"
type_synonym partition_totals = "(string, int) btree"

section \<open>Giving partitions out\<close>

text \<open>\<^verbatim>\<open>assignment.get_mut(member).expect(..)\<close> and the pushes after it.\<close>

definition give :: "string \<Rightarrow> topic_partition list \<Rightarrow> assignment \<Rightarrow> unit failure + assignment" where
  "give m tps a = (case bt_get a m of None \<Rightarrow> Inl Panicked | Some v \<Rightarrow> Inr (bt_insert m (v @ tps) a))"

definition seed :: "subscription list \<Rightarrow> assignment" where
  "seed members = bt_collect (map (\<lambda>m. (member_id m, [])) members)"

definition all_partitions :: "partition_totals \<Rightarrow> topic_partition list" where
  "all_partitions ppt = concat (map (\<lambda>(topic, tally). map (TopicPartition topic) [0..max tally 0 - 1]) ppt)"

definition to_i32 :: "nat \<Rightarrow> int" where
  "to_i32 n = (if int n \<le> i32_max then int n else i32_max)"

section \<open>Range\<close>

definition range_subscribers :: "subscription list \<Rightarrow> string \<Rightarrow> string list" where
  "range_subscribers members topic =
     sort (map member_id (filter (\<lambda>m. list_ex (\<lambda>t. t = topic) (topics m)) members))"

definition range_block :: "string \<Rightarrow> int \<Rightarrow> int \<Rightarrow> int \<Rightarrow> topic_partition list" where
  "range_block topic per_member with_extra index =
     (let start = wrap32 (wrap32 (per_member * index) + min index with_extra);
          len = wrap32 (per_member + (if index < with_extra then 1 else 0))
      in map (TopicPartition topic) [start..wrap32 (start + len) - 1])"

definition range_topic ::
  "subscription list \<Rightarrow> string \<times> int \<Rightarrow> assignment \<Rightarrow> unit failure + assignment" where
  "range_topic members tc a =
     (case tc of (topic, tally) \<Rightarrow>
        let subscribers = range_subscribers members topic
        in if subscribers = [] \<or> tally \<le> 0 then Inr a
           else let members_count = to_i32 (length subscribers);
                    per_member = tally div members_count;
                    with_extra = tally mod members_count
                in fold_sum (\<lambda>(index, member). give member (range_block topic per_member with_extra (to_i32 index)))
                     (enumerate 0 subscribers) a)"

definition range_assign :: "subscription list \<Rightarrow> partition_totals \<Rightarrow> unit failure + assignment" where
  "range_assign members ppt = fold_sum (range_topic members) ppt (seed members)"

section \<open>Round robin\<close>

text \<open>The inner \<^verbatim>\<open>while\<close>: the counter, and how many members were looked at.\<close>

function rr_find :: "subscription list \<Rightarrow> string \<Rightarrow> nat \<Rightarrow> nat \<Rightarrow> nat \<times> nat" where
  "rr_find sorted_members topic nxt looked_at =
     (if looked_at < length sorted_members \<and>
         topic \<notin> set (topics (sorted_members ! (nxt mod length sorted_members)))
      then rr_find sorted_members topic (nxt + 1) (looked_at + 1)
      else (nxt, looked_at))"
  by pat_completeness auto
termination
  by (relation "measure (\<lambda>(sorted_members, topic, nxt, looked_at). length sorted_members - looked_at)") auto

declare rr_find.simps [simp del]

definition rr_deal ::
  "subscription list \<Rightarrow> topic_partition \<Rightarrow> nat \<times> assignment \<Rightarrow> unit failure + nat \<times> assignment" where
  "rr_deal sorted_members tp s =
     (case s of (nxt, a) \<Rightarrow>
        case rr_find sorted_members (tp_topic tp) nxt 0 of (nxt', looked_at) \<Rightarrow>
          if looked_at = length sorted_members then Inr (nxt', a)
          else bind_sum (give (member_id (sorted_members ! (nxt' mod length sorted_members))) [tp] a)
                 (\<lambda>a'. Inr (nxt' + 1, a')))"

definition roundrobin_assign :: "subscription list \<Rightarrow> partition_totals \<Rightarrow> unit failure + assignment" where
  "roundrobin_assign members ppt =
     (let a = seed members; sorted_members = sort_key member_id members
      in if sorted_members = [] then Inr a
         else bind_sum (fold_sum (rr_deal sorted_members) (all_partitions ppt) (0, a)) (\<lambda>(_, a'). Inr a'))"

section \<open>Sticky\<close>

definition live_claims :: "subscription list \<Rightarrow> (string, topic_partition list) btree" where
  "live_claims members =
     (let highest = (if members = [] then - 1 else Max (set (map generation members)))
      in bt_collect (map (\<lambda>m. (member_id m, if highest \<le> generation m \<and> 0 \<le> highest then owned m else []))
                       members))"

definition div_ceil :: "nat \<Rightarrow> nat \<Rightarrow> nat" where
  "div_ceil a b = (if a mod b = 0 then a div b else a div b + 1)"

definition quota_of :: "topic_partition set \<Rightarrow> subscription list \<Rightarrow> subscription \<Rightarrow> nat" where
  "quota_of valid sorted_members m =
     (let wanted = card (Set.filter (\<lambda>tp. tp_topic tp \<in> set (topics m)) valid);
          sharers = max (length (filter (\<lambda>s. list_ex (\<lambda>t. t \<in> set (topics m)) (topics s)) sorted_members)) 1
      in div_ceil wanted sharers)"

text \<open>The loop over one member's claims, with its \<^verbatim>\<open>break\<close> at the quota.\<close>

fun keep_claims ::
  "topic_partition set \<Rightarrow> subscription \<Rightarrow> nat \<Rightarrow> topic_partition list \<Rightarrow>
   topic_partition set \<times> assignment \<Rightarrow> unit failure + topic_partition set \<times> assignment" where
  "keep_claims valid m quota [] s = Inr s"
| "keep_claims valid m quota (tp # tps) s =
     (case s of (taken, a) \<Rightarrow>
        case bt_get a (member_id m) of
          None \<Rightarrow> Inl Panicked
        | Some held \<Rightarrow>
            if quota \<le> length held then Inr s
            else if tp \<in> valid \<and> tp \<notin> taken \<and> tp_topic tp \<in> set (topics m)
            then bind_sum (give (member_id m) [tp] a) (\<lambda>a'.
                   keep_claims valid m quota tps (insert tp taken, a'))
            else keep_claims valid m quota tps s)"

definition sticky_keep ::
  "topic_partition set \<Rightarrow> subscription list \<Rightarrow> (string, topic_partition list) btree \<Rightarrow> subscription \<Rightarrow>
   topic_partition set \<times> assignment \<Rightarrow> unit failure + topic_partition set \<times> assignment" where
  "sticky_keep valid sorted_members claims m s =
     (case bt_get claims (member_id m) of
        None \<Rightarrow> Inl Panicked
      | Some tps \<Rightarrow> keep_claims valid m (quota_of valid sorted_members m) tps s)"

definition sticky_deal ::
  "subscription list \<Rightarrow> topic_partition \<Rightarrow> assignment \<Rightarrow> unit failure + assignment" where
  "sticky_deal sorted_members tp a =
     (case filter (\<lambda>m. tp_topic tp \<in> set (topics m)) sorted_members of
        [] \<Rightarrow> Inr a
      | cs \<Rightarrow>
          give (member_id (arg_min_list (\<lambda>m.
            (case bt_get a (member_id m) of None \<Rightarrow> 0 | Some v \<Rightarrow> length v, member_id m)) cs)) [tp] a)"

definition sticky_assign :: "subscription list \<Rightarrow> partition_totals \<Rightarrow> unit failure + assignment" where
  "sticky_assign members ppt =
     (let a = seed members; sorted_members = sort_key member_id members
      in if sorted_members = [] then Inr a
         else let valid = set (all_partitions ppt); claims = live_claims members
              in bind_sum (fold_sum (sticky_keep valid sorted_members claims) sorted_members ({}, a))
                   (\<lambda>(taken, a1).
                 bind_sum (fold_sum (sticky_deal sorted_members) (sorted_list_of_set (valid - taken)) a1)
                   (\<lambda>a2. Inr (map (\<lambda>(k, v). (k, sort v)) a2))))"

section \<open>Cooperative sticky\<close>

definition current_owners :: "subscription list \<Rightarrow> (topic_partition, string) btree" where
  "current_owners members =
     bt_collect (concat (map (\<lambda>m. map (\<lambda>tp. (tp, member_id m)) (owned m)) members))"

definition cooperative_assign :: "subscription list \<Rightarrow> partition_totals \<Rightarrow> unit failure + assignment" where
  "cooperative_assign members ppt =
     bind_sum (sticky_assign members ppt) (\<lambda>target.
       let owner = current_owners members
       in Inr (bt_collect (map (\<lambda>(m, tps). (m, filter (\<lambda>tp.
            case bt_get owner tp of Some current \<Rightarrow> current = m | None \<Rightarrow> True) tps)) target)))"

datatype strategy = RangeAssignor | RoundRobinAssignor | StickyAssignor | CooperativeStickyAssignor

fun strategy_name :: "strategy \<Rightarrow> string" where
  "strategy_name RangeAssignor = ''range''"
| "strategy_name RoundRobinAssignor = ''roundrobin''"
| "strategy_name StickyAssignor = ''sticky''"
| "strategy_name CooperativeStickyAssignor = ''cooperative-sticky''"

fun assign_with :: "strategy \<Rightarrow> subscription list \<Rightarrow> partition_totals \<Rightarrow> unit failure + assignment" where
  "assign_with RangeAssignor = range_assign"
| "assign_with RoundRobinAssignor = roundrobin_assign"
| "assign_with StickyAssignor = sticky_assign"
| "assign_with CooperativeStickyAssignor = cooperative_assign"

section \<open>The contract\<close>

definition group_ok :: "subscription list \<Rightarrow> partition_totals \<Rightarrow> bool" where
  "group_ok members ppt \<longleftrightarrow> distinct (map member_id members) \<and> int (length members) \<le> i32_max \<and>
     bt_wf ppt \<and> list_all (\<lambda>(_, tally). in_i32 tally) ppt"

definition wants :: "subscription list \<Rightarrow> string \<Rightarrow> topic_partition \<Rightarrow> bool" where
  "wants members m tp \<longleftrightarrow> list_ex (\<lambda>s. member_id s = m \<and> tp_topic tp \<in> set (topics s)) members"

definition sound_assignment :: "subscription list \<Rightarrow> partition_totals \<Rightarrow> assignment \<Rightarrow> bool" where
  "sound_assignment members ppt a \<longleftrightarrow>
     bt_wf a \<and> set (bt_keys a) = member_id ` set members \<and> distinct (concat (bt_values a)) \<and>
     list_all (\<lambda>(m, tps). list_all (\<lambda>tp. tp \<in> set (all_partitions ppt) \<and> wants members m tp) tps) a"

definition complete_assignment :: "subscription list \<Rightarrow> partition_totals \<Rightarrow> assignment \<Rightarrow> bool" where
  "complete_assignment members ppt a \<longleftrightarrow>
     list_all (\<lambda>tp. list_ex (\<lambda>s. tp_topic tp \<in> set (topics s)) members \<longrightarrow> tp \<in> set (concat (bt_values a)))
       (all_partitions ppt)"

locale assignor =
  fixes assign :: "subscription list \<Rightarrow> partition_totals \<Rightarrow> unit failure + assignment"
  assumes sound: "group_ok members ppt \<Longrightarrow> \<exists>a. assign members ppt = Inr a \<and> sound_assignment members ppt a"
begin

lemma at_most_one_owner:
  assumes "group_ok members ppt" and "assign members ppt = Inr a"
    and "bt_get a m = Some tps" and "bt_get a m' = Some tps'" and "tp \<in> set tps" and "tp \<in> set tps'"
  shows "m = m'"
proof (rule ccontr)
  assume "m \<noteq> m'"
  have s: "sound_assignment members ppt a" using sound [OF assms(1)] assms(2) by simp
  have in1: "(m, tps) \<in> set a" "(m', tps') \<in> set a"
    using assms(3,4) by (auto simp: bt_get_def dest: map_of_SomeD)
  then obtain xs ys where a: "a = xs @ (m, tps) # ys" by (meson split_list)
  with in1(2) \<open>m \<noteq> m'\<close> have "(m', tps') \<in> set xs \<union> set ys" by auto
  with s a assms(5,6) show False
    by (fastforce simp: sound_assignment_def bt_values_def)
qed

lemma everyone_told:
  assumes "group_ok members ppt" and "assign members ppt = Inr a" and "s \<in> set members"
  shows "\<exists>tps. bt_get a (member_id s) = Some tps"
proof -
  have "member_id s \<in> set (bt_keys a)"
    using sound [OF assms(1)] assms(2,3) by (auto simp: sound_assignment_def)
  then show ?thesis by (auto simp: bt_keys_get)
qed

lemma only_wanted:
  assumes "group_ok members ppt" and "assign members ppt = Inr a"
    and "bt_get a m = Some tps" and "tp \<in> set tps"
  shows "tp \<in> set (all_partitions ppt) \<and> wants members m tp"
  using sound [OF assms(1)] assms(2-4)
  by (force simp: sound_assignment_def bt_get_def list_all_iff dest: map_of_SomeD)

end

locale complete_assignor = assignor +
  assumes complete: "group_ok members ppt \<Longrightarrow> assign members ppt = Inr a \<Longrightarrow> complete_assignment members ppt a"
begin

lemma exactly_one_owner:
  assumes "group_ok members ppt" and "assign members ppt = Inr a"
    and "tp \<in> set (all_partitions ppt)" and "s \<in> set members" and "tp_topic tp \<in> set (topics s)"
  shows "\<exists>!m. \<exists>tps. bt_get a m = Some tps \<and> tp \<in> set tps"
proof -
  have "tp \<in> set (concat (bt_values a))"
    using complete [OF assms(1,2)] assms(3-5) by (auto simp: complete_assignment_def list_all_iff list_ex_iff)
  then obtain m tps where "(m, tps) \<in> set a" "tp \<in> set tps" by (auto simp: bt_values_def)
  moreover have "bt_wf a" using sound [OF assms(1)] assms(2) by (auto simp: sound_assignment_def)
  ultimately have "bt_get a m = Some tps"
    by (simp add: bt_get_def bt_wf_def strict_sorted_iff)
  with \<open>tp \<in> set tps\<close> at_most_one_owner [OF assms(1,2)] show ?thesis by metis
qed

lemma shares_exactly:
  assumes "group_ok members ppt"
  shows "\<exists>a. assign members ppt = Inr a \<and> set (bt_keys a) = member_id ` set members \<and>
     (\<forall>tp\<in>set (all_partitions ppt). list_ex (\<lambda>s. tp_topic tp \<in> set (topics s)) members \<longrightarrow>
        (\<exists>!m. \<exists>tps. bt_get a m = Some tps \<and> tp \<in> set tps)) \<and>
     (\<forall>m tps. bt_get a m = Some tps \<longrightarrow>
        (\<forall>tp\<in>set tps. tp \<in> set (all_partitions ppt) \<and> wants members m tp))"
proof -
  obtain a where a: "assign members ppt = Inr a" "sound_assignment members ppt a"
    using sound [OF assms] by blast
  show ?thesis
  proof (intro exI conjI ballI impI allI)
    show "assign members ppt = Inr a" by (fact a)
    show "set (bt_keys a) = member_id ` set members" using a(2) by (simp add: sound_assignment_def)
    fix tp assume "tp \<in> set (all_partitions ppt)" and "list_ex (\<lambda>s. tp_topic tp \<in> set (topics s)) members"
    then show "\<exists>!m. \<exists>tps. bt_get a m = Some tps \<and> tp \<in> set tps"
      using exactly_one_owner [OF assms a(1)] unfolding list_ex_iff by blast
  qed (use only_wanted [OF assms a(1)] in blast)+
qed

end

section \<open>Giving keeps the contract\<close>

text \<open>What an assignment in progress has given out.\<close>

definition progress ::
  "subscription list \<Rightarrow> partition_totals \<Rightarrow> topic_partition list \<Rightarrow> assignment \<Rightarrow> bool" where
  "progress members ppt given a \<longleftrightarrow>
     bt_wf a \<and> set (bt_keys a) = member_id ` set members \<and> mset (concat (bt_values a)) = mset given \<and>
     list_all (\<lambda>(m, tps). list_all (\<lambda>tp. tp \<in> set (all_partitions ppt) \<and> wants members m tp) tps) a"

lemma progress_sound: "progress members ppt given a \<Longrightarrow> distinct given \<Longrightarrow> sound_assignment members ppt a"
  by (auto simp: progress_def sound_assignment_def dest: mset_eq_imp_distinct_iff)

lemma progress_complete:
  assumes "progress members ppt given a"
    and "\<And>tp. tp \<in> set (all_partitions ppt) \<Longrightarrow> list_ex (\<lambda>s. tp_topic tp \<in> set (topics s)) members \<Longrightarrow> tp \<in> set given"
  shows "complete_assignment members ppt a"
proof -
  have "set (concat (bt_values a)) = set given"
    using assms(1) by (intro mset_eq_setD) (simp add: progress_def)
  with assms(2) show ?thesis by (simp add: complete_assignment_def list_all_iff)
qed

lemma values_insert:
  assumes "bt_wf a" and "bt_get a k = Some v"
  shows "mset (concat (bt_values (bt_insert k (v @ tps) a))) = mset (concat (bt_values a)) + mset tps"
  using assms
proof (induction a)
  case (Cons p a)
  show ?case
  proof (cases "k = fst p")
    case True
    with Cons.prems show ?thesis by (cases p) (simp add: bt_values_def bt_get_def)
  next
    case False
    with Cons.prems have g: "bt_get a k = Some v" by (cases p) (simp add: bt_get_def)
    then have "k \<in> fst ` set a" by (auto simp: bt_get_def dest!: map_of_SomeD intro: rev_image_eqI)
    with Cons.prems(1) have "\<not> k < fst p" by (auto simp: bt_wf_Cons)
    with False g Cons show ?thesis by (simp add: bt_values_def bt_wf_Cons)
  qed
qed (simp add: bt_get_def)

lemma set_bt_insert: "bt_wf a \<Longrightarrow> set (bt_insert k v a) \<subseteq> insert (k, v) (set a)"
  by (induction a) (auto simp: bt_wf_Cons)

lemma progress_seed: "progress members ppt [] (seed members)"
proof -
  have e: "v = []" if "(k, v) \<in> set (seed members)" for k v
    using that set_bt_collect unfolding seed_def by fastforce
  then have "concat (bt_values (seed members)) = []"
    by (auto simp: bt_values_def)
  moreover have "set (bt_keys (seed members)) = member_id ` set members"
    by (simp add: seed_def bt_keys_collect image_comp comp_def)
  moreover have "list_all (\<lambda>(m, tps). list_all (\<lambda>tp. tp \<in> set (all_partitions ppt) \<and> wants members m tp) tps)
      (seed members)"
    using e by (force simp: list_all_iff)
  ultimately show ?thesis
    by (simp add: progress_def seed_def)
qed

lemma give_progress:
  assumes "progress members ppt given a" and "m \<in> member_id ` set members"
    and "\<And>tp. tp \<in> set tps \<Longrightarrow> tp \<in> set (all_partitions ppt) \<and> wants members m tp"
  shows "\<exists>a'. give m tps a = Inr a' \<and> progress members ppt (given @ tps) a'"
proof -
  have wf: "bt_wf a" and "m \<in> set (bt_keys a)" using assms(1,2) by (auto simp: progress_def)
  then obtain v where v: "bt_get a m = Some v" by (auto simp: bt_keys_get)
  then have mem: "(m, v) \<in> set a" by (simp add: bt_get_def map_of_SomeD)
  let ?a = "bt_insert m (v @ tps) a"
  have "set (bt_keys ?a) = set (bt_keys a)" using \<open>m \<in> set (bt_keys a)\<close> by (auto simp: bt.keys_ins [OF wf])
  moreover have "list_all (\<lambda>(m, tps). list_all (\<lambda>tp. tp \<in> set (all_partitions ppt) \<and> wants members m tp) tps) ?a"
  proof (unfold list_all_iff, rule ballI)
    fix q assume "q \<in> set ?a"
    then have "q = (m, v @ tps) \<or> q \<in> set a" using set_bt_insert [OF wf] by blast
    then show "case q of (m, tps) \<Rightarrow> \<forall>tp\<in>set tps. tp \<in> set (all_partitions ppt) \<and> wants members m tp"
      using assms(3) mem bspec [OF assms(1) [unfolded progress_def list_all_iff, THEN conjunct2, THEN conjunct2, THEN conjunct2]]
      by force
  qed
  ultimately show ?thesis
    using v assms(1) values_insert [OF wf v, of tps] by (simp add: give_def progress_def)
qed

lemma gives_progress:
  assumes "progress members ppt given a"
    and "\<And>m tps. (m, tps) \<in> set ds \<Longrightarrow> m \<in> member_id ` set members \<and>
      (\<forall>tp\<in>set tps. tp \<in> set (all_partitions ppt) \<and> wants members m tp)"
  shows "\<exists>a'. fold_sum (\<lambda>(m, tps). give m tps) ds a = Inr a' \<and>
     progress members ppt (given @ concat (map snd ds)) a'"
  using assms
proof (induction ds arbitrary: given a)
  case (Cons d ds)
  obtain m tps where d: "d = (m, tps)" by fastforce
  obtain a1 where a1: "give m tps a = Inr a1" "progress members ppt (given @ tps) a1"
    using give_progress [OF Cons.prems(1), of m tps] Cons.prems(2) [of m tps] d by auto
  from Cons.IH [OF a1(2)] Cons.prems(2) d a1(1) show ?case by auto
qed simp

lemma all_partitions_mem:
  "tp \<in> set (all_partitions ppt) \<longleftrightarrow> (\<exists>tally. (tp_topic tp, tally) \<in> set ppt \<and> 0 \<le> tp_partition tp \<and> tp_partition tp < tally)"
proof
  assume "tp \<in> set (all_partitions ppt)"
  then show "\<exists>tally. (tp_topic tp, tally) \<in> set ppt \<and> 0 \<le> tp_partition tp \<and> tp_partition tp < tally"
    by (auto simp: all_partitions_def max_def split: if_splits)
next
  assume "\<exists>tally. (tp_topic tp, tally) \<in> set ppt \<and> 0 \<le> tp_partition tp \<and> tp_partition tp < tally"
  then obtain tally where t: "(tp_topic tp, tally) \<in> set ppt" "0 \<le> tp_partition tp" "tp_partition tp < tally" by blast
  then have "tp \<in> set (map (TopicPartition (tp_topic tp)) [0..max tally 0 - 1])" by (cases tp) simp
  with t(1) show "tp \<in> set (all_partitions ppt)"
    unfolding all_partitions_def set_concat by (auto intro!: bexI [of _ "(tp_topic tp, tally)"])
qed

lemma distinct_all_partitions: "bt_wf ppt \<Longrightarrow> distinct (all_partitions ppt)"
proof (induction ppt)
  case (Cons p ppt)
  obtain t c where p: "p = (t, c)" by fastforce
  have "tp_topic x \<noteq> t" if "x \<in> set (all_partitions ppt)" for x
    using that Cons.prems p by (force simp: all_partitions_mem bt_wf_Cons)
  moreover have "distinct (map (TopicPartition t) [0..max c 0 - 1])" by (simp add: distinct_map inj_on_def)
  moreover have "distinct (all_partitions ppt)" using Cons p by (simp add: bt_wf_Cons)
  ultimately show ?case using p by (force simp: all_partitions_def)
qed (simp add: all_partitions_def)
section \<open>Range is complete\<close>

definition block_start :: "int \<Rightarrow> int \<Rightarrow> int \<Rightarrow> int" where
  "block_start per_member with_extra i = per_member * i + min i with_extra"

lemma block_start_Suc:
  "block_start pm we (i + 1) = block_start pm we i + (pm + (if i < we then 1 else 0))"
  by (simp add: block_start_def distrib_left)

lemma block_start_mono: "0 \<le> pm \<Longrightarrow> i \<le> j \<Longrightarrow> block_start pm we i \<le> block_start pm we j"
  by (simp add: block_start_def add_mono mult_left_mono)

lemma blocks_cover:
  assumes "0 \<le> pm" and "0 \<le> we"
  shows "concat (map (\<lambda>i. [block_start pm we (int i)..block_start pm we (int i + 1) - 1]) [0..<n]) =
     [0..block_start pm we (int n) - 1]"
proof (induction n)
  case 0
  then show ?case using assms by (simp add: block_start_def)
next
  case (Suc n)
  let ?S = "block_start pm we (int n)" and ?T = "block_start pm we (int n + 1)"
  have S: "0 \<le> ?S" "?S \<le> ?T"
    using block_start_mono [OF assms(1), of 0 "int n" we] block_start_mono [OF assms(1), of "int n" "int n + 1" we] assms(2)
    by (simp_all add: block_start_def)
  have "[0..?S - 1] @ [?S..?T - 1] = [0..?T - 1]"
  proof (cases "?S = ?T")
    case False
    with S show ?thesis using upto_split1 [of 0 ?S "?T - 1"] by simp
  qed simp
  with Suc show ?case by (simp add: add.commute)
qed

lemma range_block_eq:
  assumes "0 < n" and "0 < tally" and "in_i32 tally" and "i < n" and "int n \<le> i32_max"
    and "pm = tally div int n" and "we = tally mod int n"
  shows "range_block topic pm we (int i) =
     map (TopicPartition topic) [block_start pm we (int i)..block_start pm we (int i + 1) - 1]"
proof -
  have pm: "0 \<le> pm" and we: "0 \<le> we" "we < int n" using assms(1,2,6,7) by (simp_all add: pos_imp_zdiv_nonneg_iff)
  have top: "block_start pm we (int n) = tally"
    using we assms(6,7) by (simp add: block_start_def min_def)
  have le: "block_start pm we (int i + 1) \<le> tally"
    using block_start_mono [OF pm, of "int i + 1" "int n" we] assms(4) top by simp
  have st: "0 \<le> block_start pm we (int i)" "block_start pm we (int i) \<le> block_start pm we (int i + 1)"
    using block_start_mono [OF pm, of 0 "int i" we] block_start_mono [OF pm, of "int i" "int i + 1" we] we
    by (simp_all add: block_start_def)
  have "0 \<le> pm * int i" "pm * int i \<le> block_start pm we (int i)"
    using pm we by (simp_all add: block_start_def)
  with st le assms(3) have w: "wrap32 (pm * int i) = pm * int i"
    by (intro wrap32_id) (simp add: in_i32_def)
  have w1: "wrap32 (block_start pm we (int i)) = block_start pm we (int i)"
    using st le assms(3) by (intro wrap32_id) (simp add: in_i32_def)
  have "pm + (if int i < we then 1 else 0) = block_start pm we (int i + 1) - block_start pm we (int i)"
    by (simp add: block_start_Suc)
  moreover have "wrap32 (block_start pm we (int i + 1) - block_start pm we (int i)) =
      block_start pm we (int i + 1) - block_start pm we (int i)"
    using st le assms(3) by (intro wrap32_id) (simp add: in_i32_def)
  moreover have "wrap32 (block_start pm we (int i + 1)) = block_start pm we (int i + 1)"
    using st le assms(3) by (intro wrap32_id) (simp add: in_i32_def)
  ultimately show ?thesis
    using w w1 by (simp add: range_block_def Let_def block_start_def [symmetric])
qed

definition subscribed :: "subscription list \<Rightarrow> topic_partition \<Rightarrow> bool" where
  "subscribed members tp \<longleftrightarrow> list_ex (\<lambda>s. tp_topic tp \<in> set (topics s)) members"

lemma set_range_subscribers:
  "set (range_subscribers members topic) = member_id ` {s \<in> set members. topic \<in> set (topics s)}"
  by (auto simp: range_subscribers_def list_ex_iff)

lemma length_range_subscribers: "length (range_subscribers members topic) \<le> length members"
  by (simp add: range_subscribers_def)

lemma range_topic_decisions:
  assumes "0 < tally" and "in_i32 tally" and "int (length members) \<le> i32_max"
    and "range_subscribers members topic = subs" and "subs \<noteq> []"
  shows "\<exists>ds. range_topic members (topic, tally) a = fold_sum (\<lambda>(m, tps). give m tps) ds a \<and>
     map fst ds = subs \<and> concat (map snd ds) = map (TopicPartition topic) [0..tally - 1] \<and>
     (\<forall>(m, tps)\<in>set ds. \<forall>tp\<in>set tps. tp_topic tp = topic \<and> 0 \<le> tp_partition tp \<and> tp_partition tp < tally)"
proof -
  let ?n = "length subs"
  define pm where "pm = tally div int ?n"
  define we where "we = tally mod int ?n"
  have n: "0 < ?n" "int ?n \<le> i32_max"
    using assms(3-5) length_range_subscribers [of members topic] by auto
  have pm: "0 \<le> pm" "0 \<le> we" "we < int ?n"
    using assms(1) n(1) by (simp_all add: pm_def we_def pos_imp_zdiv_nonneg_iff)
  define f where "f = (\<lambda>i. map (TopicPartition topic) [block_start pm we (int i)..block_start pm we (int i + 1) - 1])"
  define ds where "ds = map (\<lambda>(i, m). (m, f i)) (enumerate 0 subs)"
  have "fold_sum (\<lambda>(index, member). give member (range_block topic pm we (to_i32 index))) (enumerate 0 subs) a =
      fold_sum (\<lambda>(m, tps). give m tps) ds a"
  proof -
    have "to_i32 i = int i \<and> range_block topic pm we (int i) = f i" if "(i, m) \<in> set (enumerate 0 subs)" for i m
    proof -
      have "i < ?n" using that by (simp add: in_set_enumerate_eq)
      with n range_block_eq [OF n(1) assms(1,2) this n(2) pm_def we_def] show ?thesis
        by (simp add: to_i32_def f_def)
    qed
    then have "ds = map (\<lambda>(i, m). (m, range_block topic pm we (to_i32 i))) (enumerate 0 subs)"
      unfolding ds_def by (intro map_cong) auto
    then show ?thesis by (simp add: fold_sum_map case_prod_beta')
  qed
  then have "range_topic members (topic, tally) a = fold_sum (\<lambda>(m, tps). give m tps) ds a"
    using assms n by (simp add: range_topic_def Let_def to_i32_def pm_def we_def)
  moreover have "map snd ds = map f [0..<?n]"
  proof -
    have "map snd ds = map f (map fst (enumerate 0 subs))"
      unfolding ds_def map_map by (rule map_cong) auto
    also have "map fst (enumerate 0 subs) = [0..<?n]" by (simp add: enumerate_eq_zip)
    finally show ?thesis .
  qed
  then have cat: "concat (map snd ds) = map (TopicPartition topic) [0..block_start pm we (int ?n) - 1]"
    by (simp add: f_def map_concat comp_def flip: blocks_cover [OF pm(1,2), of ?n])
  moreover have top: "block_start pm we (int ?n) = tally"
    using pm by (simp add: block_start_def min_def pm_def we_def)
  moreover have "map fst ds = subs"
    by (simp add: ds_def case_prod_beta' comp_def)
  moreover have "tp_topic tp = topic \<and> 0 \<le> tp_partition tp \<and> tp_partition tp < tally"
    if "(m, tps) \<in> set ds" and "tp \<in> set tps" for m tps tp
  proof -
    have "tp \<in> set (concat (map snd ds))" using that by force
    then show ?thesis unfolding cat top by auto
  qed
  ultimately show ?thesis by (intro exI [of _ ds]) auto
qed

lemma range_topic_progress:
  assumes "group_ok members ppt" and "(topic, tally) \<in> set ppt" and "progress members ppt given a"
  shows "\<exists>a'. range_topic members (topic, tally) a = Inr a' \<and>
     progress members ppt (given @ filter (subscribed members) (map (TopicPartition topic) [0..max tally 0 - 1])) a'"
proof (cases "range_subscribers members topic = [] \<or> tally \<le> 0")
  case True
  have "filter (subscribed members) (map (TopicPartition topic) [0..max tally 0 - 1]) = []"
  proof (cases "tally \<le> 0")
    case False
    with True have "{s \<in> set members. topic \<in> set (topics s)} = {}"
      using set_range_subscribers [of members topic] by simp
    then show ?thesis by (auto simp: subscribed_def list_ex_iff filter_empty_conv)
  qed simp
  with True assms(3) show ?thesis by (auto simp: range_topic_def Let_def)
next
  case False
  have tally: "0 < tally" "in_i32 tally" "int (length members) \<le> i32_max"
    using False assms(1,2) by (auto simp: group_ok_def list_all_iff)
  obtain ds where ds: "range_topic members (topic, tally) a = fold_sum (\<lambda>(m, tps). give m tps) ds a"
    "map fst ds = range_subscribers members topic"
    "concat (map snd ds) = map (TopicPartition topic) [0..tally - 1]"
    "\<forall>(m, tps)\<in>set ds. \<forall>tp\<in>set tps. tp_topic tp = topic \<and> 0 \<le> tp_partition tp \<and> tp_partition tp < tally"
    using range_topic_decisions [OF tally refl] False by blast
  have "m \<in> member_id ` set members \<and> (\<forall>tp\<in>set tps. tp \<in> set (all_partitions ppt) \<and> wants members m tp)"
    if "(m, tps) \<in> set ds" for m tps
  proof -
    have "m \<in> set (range_subscribers members topic)"
      using that ds(2) by (metis fst_conv image_eqI set_map)
    then obtain s where s: "s \<in> set members" "member_id s = m" "topic \<in> set (topics s)"
      unfolding set_range_subscribers by blast
    then show ?thesis
      using ds(4) that assms(2) by (fastforce simp: all_partitions_mem wants_def list_ex_iff)
  qed
  from gives_progress [OF assms(3) this] obtain a' where a': "fold_sum (\<lambda>(m, tps). give m tps) ds a = Inr a'"
    "progress members ppt (given @ concat (map snd ds)) a'" by blast
  obtain s where "s \<in> set members" "topic \<in> set (topics s)"
    using False set_range_subscribers [of members topic] by (metis (no_types, lifting) Collect_empty_eq image_is_empty set_empty)
  then have "filter (subscribed members) (map (TopicPartition topic) [0..max tally 0 - 1]) = map (TopicPartition topic) [0..tally - 1]"
    using tally(1) by (auto simp: filter_id_conv subscribed_def list_ex_iff)
  with a' ds(1,3) show ?thesis by simp
qed

lemma range_progress:
  assumes "group_ok members ppt" and "set ts \<subseteq> set ppt" and "progress members ppt given a"
  shows "\<exists>a'. fold_sum (range_topic members) ts a = Inr a' \<and>
     progress members ppt (given @ filter (subscribed members) (all_partitions ts)) a'"
  using assms(2,3)
proof (induction ts arbitrary: given a)
  case Nil
  then show ?case by (simp add: all_partitions_def)
next
  case (Cons t ts)
  obtain topic tally where t: "t = (topic, tally)" by fastforce
  from range_topic_progress [OF assms(1) _ Cons.prems(2), of topic tally] Cons.prems(1) t
  obtain a1 where a1: "range_topic members (topic, tally) a = Inr a1"
    "progress members ppt (given @ filter (subscribed members) (map (TopicPartition topic) [0..max tally 0 - 1])) a1"
    by auto
  from Cons.IH [OF _ a1(2)] Cons.prems(1) a1(1) t show ?case by (auto simp: all_partitions_def)
qed

text \<open>An assignment that has given out exactly the partitions somebody wants.\<close>

definition all_given :: "subscription list \<Rightarrow> partition_totals \<Rightarrow> assignment \<Rightarrow> bool" where
  "all_given members ppt a \<longleftrightarrow>
     (\<exists>given. mset given = mset (filter (subscribed members) (all_partitions ppt)) \<and> progress members ppt given a)"

lemma all_given_contract:
  assumes "group_ok members ppt" and "all_given members ppt a"
  shows "sound_assignment members ppt a \<and> complete_assignment members ppt a"
proof -
  obtain given where g: "mset given = mset (filter (subscribed members) (all_partitions ppt))"
    "progress members ppt given a" using assms(2) by (auto simp: all_given_def)
  have "distinct given"
    using mset_eq_imp_distinct_iff [OF g(1)] assms(1) distinct_all_partitions [of ppt] by (simp add: group_ok_def)
  moreover have "set given = set (filter (subscribed members) (all_partitions ppt))"
    by (rule mset_eq_setD [OF g(1)])
  ultimately show ?thesis
    using progress_sound [OF g(2)] progress_complete [OF g(2)] by (simp add: subscribed_def)
qed

lemma range_all_given: "group_ok members ppt \<Longrightarrow> \<exists>a. range_assign members ppt = Inr a \<and> all_given members ppt a"
  using range_progress [OF _ order_refl progress_seed, of members ppt]
  by (auto simp: range_assign_def all_given_def intro!: exI [of _ "filter (subscribed members) (all_partitions ppt)"])

interpretation range: complete_assignor range_assign
  by unfold_locales (use range_all_given all_given_contract in fastforce)+

section \<open>Round robin is complete\<close>

lemma rr_find_spec:
  assumes "rr_find sm topic nxt looked = (nxt', looked')" and "looked \<le> length sm"
  shows "looked \<le> looked' \<and> looked' \<le> length sm \<and> nxt' = nxt + (looked' - looked) \<and>
     (\<forall>k < looked' - looked. topic \<notin> set (topics (sm ! ((nxt + k) mod length sm)))) \<and>
     (looked' < length sm \<longrightarrow> topic \<in> set (topics (sm ! (nxt' mod length sm))))"
  using assms
proof (induction sm topic nxt looked rule: rr_find.induct)
  case (1 sm topic nxt looked)
  show ?case
  proof (cases "looked < length sm \<and> topic \<notin> set (topics (sm ! (nxt mod length sm)))")
    case True
    with "1.prems"(1) have "rr_find sm topic (nxt + 1) (looked + 1) = (nxt', looked')"
      by (subst (asm) rr_find.simps) simp
    from "1.IH" [OF True this] True have IH: "looked + 1 \<le> looked'" "looked' \<le> length sm"
      "nxt' = nxt + 1 + (looked' - (looked + 1))"
      "\<forall>k < looked' - (looked + 1). topic \<notin> set (topics (sm ! ((nxt + 1 + k) mod length sm)))"
      "looked' < length sm \<longrightarrow> topic \<in> set (topics (sm ! (nxt' mod length sm)))"
      by auto
    have "topic \<notin> set (topics (sm ! ((nxt + k) mod length sm)))" if "k < looked' - looked" for k
    proof (cases k)
      case 0
      with True show ?thesis by simp
    next
      case (Suc k')
      with that IH(4) show ?thesis by simp
    qed
    with IH show ?thesis by auto
  next
    case False
    with "1.prems" show ?thesis by (subst (asm) rr_find.simps) auto
  qed
qed

lemma cyclic_cover: "j < n \<Longrightarrow> \<exists>k<n. (nxt + k) mod n = (j::nat)"
proof (intro exI conjI)
  let ?k = "(j + (n - nxt mod n)) mod n"
  assume j: "j < n"
  then show "?k < n" by simp
  have "(nxt + ?k) mod n = (nxt mod n + (j + (n - nxt mod n))) mod n" by (simp add: mod_simps)
  also have "nxt mod n + (j + (n - nxt mod n)) = j + n" using j mod_less_divisor [of n nxt] by linarith
  finally show "(nxt + ?k) mod n = j" using j by simp
qed

lemma rr_deal_progress:
  assumes "progress members ppt given a" and "set sm = set members" and "tp \<in> set (all_partitions ppt)" and "sm \<noteq> []"
  shows "\<exists>nxt' a'. rr_deal sm tp (nxt, a) = Inr (nxt', a') \<and>
     progress members ppt (given @ filter (subscribed members) [tp]) a'"
proof -
  obtain nxt' looked where f: "rr_find sm (tp_topic tp) nxt 0 = (nxt', looked)" by fastforce
  note spec = rr_find_spec [OF f]
  show ?thesis
  proof (cases "looked = length sm")
    case True
    have "tp_topic tp \<notin> set (topics s)" if "s \<in> set members" for s
    proof -
      from that assms(2) obtain j where "j < length sm" "s = sm ! j" by (metis in_set_conv_nth)
      with cyclic_cover [of j "length sm" nxt] spec True show ?thesis by auto
    qed
    then have "\<not> subscribed members tp" by (auto simp: subscribed_def list_ex_iff)
    with True f assms(1) show ?thesis by (simp add: rr_deal_def)
  next
    case False
    let ?s = "sm ! (nxt' mod length sm)"
    have s: "?s \<in> set members" "tp_topic tp \<in> set (topics ?s)"
      using spec False assms(2,4) by (auto simp: nth_mem simp flip: assms(2))
    then have "\<exists>a'. give (member_id ?s) [tp] a = Inr a' \<and> progress members ppt (given @ [tp]) a'"
      using assms(1,3) by (intro give_progress) (auto simp: wants_def list_ex_iff)
    moreover have "subscribed members tp" using s by (auto simp: subscribed_def list_ex_iff)
    ultimately show ?thesis using f False by (auto simp: rr_deal_def)
  qed
qed

lemma rr_progress:
  assumes "set sm = set members" and "sm \<noteq> []" and "set tps \<subseteq> set (all_partitions ppt)" and "progress members ppt given a"
  shows "\<exists>nxt' a'. fold_sum (rr_deal sm) tps (nxt, a) = Inr (nxt', a') \<and>
     progress members ppt (given @ filter (subscribed members) tps) a'"
  using assms(3,4)
proof (induction tps arbitrary: given a nxt)
  case (Cons tp tps)
  then obtain nxt1 a1 where "rr_deal sm tp (nxt, a) = Inr (nxt1, a1)"
    and p: "progress members ppt (given @ filter (subscribed members) [tp]) a1"
    using rr_deal_progress [OF Cons.prems(2) assms(1) _ assms(2), of tp nxt] by auto
  with Cons.IH [OF _ p, of nxt1] Cons.prems(1) show ?case by (auto split: if_splits)
qed simp

lemma seed_all_given: "all_given [] ppt (seed [])"
  using progress_seed [of "[]" ppt]
  by (auto simp: all_given_def subscribed_def intro!: exI [of _ "[]"])

lemma all_givenI: "progress members ppt (filter (subscribed members) (all_partitions ppt)) a \<Longrightarrow> all_given members ppt a"
  unfolding all_given_def by blast

lemma roundrobin_all_given: "\<exists>a. roundrobin_assign members ppt = Inr a \<and> all_given members ppt a"
proof (cases "members = []")
  case True
  then show ?thesis using seed_all_given by (simp add: roundrobin_assign_def)
next
  case False
  let ?sm = "sort_key member_id members"
  have ne: "?sm \<noteq> []" using False by (metis length_0_conv length_sort)
  obtain nxt a where "fold_sum (rr_deal ?sm) (all_partitions ppt) (0, seed members) = Inr (nxt, a)"
    "progress members ppt ([] @ filter (subscribed members) (all_partitions ppt)) a"
    using rr_progress [OF _ ne order_refl progress_seed, of members] by fastforce
  with ne show ?thesis by (auto simp: roundrobin_assign_def Let_def intro: all_givenI)
qed

interpretation roundrobin: complete_assignor roundrobin_assign
  by unfold_locales (use roundrobin_all_given all_given_contract in fastforce)+

section \<open>Sticky is complete\<close>

definition kept ::
  "subscription list \<Rightarrow> partition_totals \<Rightarrow> topic_partition set \<Rightarrow> assignment \<Rightarrow> bool" where
  "kept members ppt taken a \<longleftrightarrow>
     (\<exists>given. progress members ppt given a \<and> distinct given \<and> set given = taken \<and>
        taken \<subseteq> set (all_partitions ppt) \<and> (\<forall>tp\<in>taken. subscribed members tp))"

lemma kept_give:
  assumes "kept members ppt taken a" and "m \<in> set members" and "tp \<in> set (all_partitions ppt)" and "tp \<notin> taken"
    and "tp_topic tp \<in> set (topics m)"
  shows "\<exists>a'. give (member_id m) [tp] a = Inr a' \<and> kept members ppt (insert tp taken) a'"
proof -
  obtain given where g: "progress members ppt given a" "distinct given" "set given = taken"
    "taken \<subseteq> set (all_partitions ppt)" "\<forall>tp\<in>taken. subscribed members tp"
    using assms(1) by (auto simp: kept_def)
  have "wants members (member_id m) tp" "subscribed members tp"
    using assms(2,5) by (auto simp: wants_def subscribed_def list_ex_iff)
  with give_progress [OF g(1), of "member_id m" "[tp]"] assms(2,3) obtain a' where
    "give (member_id m) [tp] a = Inr a'" "progress members ppt (given @ [tp]) a'" by auto
  with g assms(3,4) \<open>subscribed members tp\<close> show ?thesis
    by (auto simp: kept_def intro!: exI [of _ "given @ [tp]"])
qed

lemma kept_keys: "kept members ppt taken a \<Longrightarrow> m \<in> set members \<Longrightarrow> bt_get a (member_id m) \<noteq> None"
  unfolding bt_keys_get [symmetric] by (auto simp: kept_def progress_def)

lemma keep_claims_kept:
  assumes "kept members ppt taken a" and "m \<in> set members"
  shows "\<exists>taken' a'. keep_claims (set (all_partitions ppt)) m quota tps (taken, a) = Inr (taken', a') \<and>
     kept members ppt taken' a'"
  using assms(1)
proof (induction tps arbitrary: taken a)
  case (Cons tp tps)
  obtain held where h: "bt_get a (member_id m) = Some held"
    using kept_keys [OF Cons.prems assms(2)] by blast
  show ?case
  proof (cases "length held < quota \<and> tp \<in> set (all_partitions ppt) \<and> tp \<notin> taken \<and> tp_topic tp \<in> set (topics m)")
    case True
    with kept_give [OF Cons.prems assms(2)] obtain a1 where
      "give (member_id m) [tp] a = Inr a1" "kept members ppt (insert tp taken) a1" by blast
    with Cons.IH [of "insert tp taken" a1] True h show ?thesis by auto
  next
    case False
    with Cons.IH [OF Cons.prems] Cons.prems h show ?thesis by auto
  qed
qed simp

lemma sticky_keep_kept:
  assumes "set ms \<subseteq> set members" and "kept members ppt taken a"
  shows "\<exists>taken' a'. fold_sum (sticky_keep (set (all_partitions ppt)) sm (live_claims members)) ms (taken, a) =
       Inr (taken', a') \<and> kept members ppt taken' a'"
  using assms
proof (induction ms arbitrary: taken a)
  case (Cons m ms)
  have "member_id m \<in> set (bt_keys (live_claims members))"
    using Cons.prems(1) by (auto simp: live_claims_def Let_def bt_keys_collect image_comp comp_def)
  then obtain tps where tps: "bt_get (live_claims members) (member_id m) = Some tps" by (auto simp: bt_keys_get)
  obtain t1 a1 where "sticky_keep (set (all_partitions ppt)) sm (live_claims members) m (taken, a) = Inr (t1, a1)"
    "kept members ppt t1 a1"
    using keep_claims_kept [OF Cons.prems(2), of m "quota_of (set (all_partitions ppt)) sm m" tps] Cons.prems(1) tps
    by (auto simp: sticky_keep_def)
  with Cons.IH [of t1 a1] Cons.prems(1) show ?case by auto
qed simp

lemma sticky_deal_progress:
  assumes "progress members ppt given a" and "set sm = set members" and "tp \<in> set (all_partitions ppt)"
  shows "\<exists>a'. sticky_deal sm tp a = Inr a' \<and> progress members ppt (given @ filter (subscribed members) [tp]) a'"
proof (cases "filter (\<lambda>m. tp_topic tp \<in> set (topics m)) sm")
  case Nil
  then have "\<not> subscribed members tp"
    using assms(2) by (auto simp: subscribed_def list_ex_iff filter_empty_conv)
  with Nil assms(1) show ?thesis by (simp add: sticky_deal_def)
next
  case (Cons c cs)
  define s where "s = arg_min_list (\<lambda>m. (case bt_get a (member_id m) of None \<Rightarrow> 0 | Some v \<Rightarrow> length v, member_id m)) (c # cs)"
  have "s \<in> set (filter (\<lambda>m. tp_topic tp \<in> set (topics m)) sm)"
    unfolding Cons s_def by (rule arg_min_list_in) simp
  then have s: "s \<in> set members" "tp_topic tp \<in> set (topics s)" using assms(2) by auto
  then have "\<exists>a'. give (member_id s) [tp] a = Inr a' \<and> progress members ppt (given @ [tp]) a'"
    using assms(1,3) by (intro give_progress) (auto simp: wants_def list_ex_iff)
  moreover have "subscribed members tp" using s by (auto simp: subscribed_def list_ex_iff)
  ultimately show ?thesis using Cons by (simp add: sticky_deal_def s_def)
qed

lemma sticky_deals_progress:
  assumes "set sm = set members" and "set tps \<subseteq> set (all_partitions ppt)" and "progress members ppt given a"
  shows "\<exists>a'. fold_sum (sticky_deal sm) tps a = Inr a' \<and> progress members ppt (given @ filter (subscribed members) tps) a'"
  using assms(2,3)
proof (induction tps arbitrary: given a)
  case (Cons tp tps)
  then obtain a1 where "sticky_deal sm tp a = Inr a1"
    and p: "progress members ppt (given @ filter (subscribed members) [tp]) a1"
    using sticky_deal_progress [OF Cons.prems(2) assms(1), of tp] by auto
  with Cons.IH [OF _ p] Cons.prems(1) show ?case by (auto split: if_splits)
qed simp

lemma progress_sort_values:
  assumes "progress members ppt given a"
  shows "progress members ppt given (map (\<lambda>(k, v). (k, sort v)) a)"
proof -
  let ?a = "map (\<lambda>(k, v). (k, sort v)) a"
  have keys: "map fst ?a = map fst a" by (simp add: case_prod_beta' comp_def)
  moreover have "mset (concat (map snd (map (\<lambda>(k, v). (k, sort v)) a))) = mset (concat (map snd a))"
    by (induction a) (auto simp: case_prod_beta')
  moreover have "list_all (\<lambda>(m, tps). list_all (\<lambda>tp. tp \<in> set (all_partitions ppt) \<and> wants members m tp) tps) ?a"
    using assms by (auto simp: progress_def list_all_iff)
  ultimately show ?thesis
    using assms unfolding progress_def bt_wf_def bt_keys_def bt_values_def by (simp only: simp_thms)
qed

lemma sticky_all_given:
  assumes "group_ok members ppt"
  shows "\<exists>a. sticky_assign members ppt = Inr a \<and> all_given members ppt a"
proof (cases "members = []")
  case True
  then show ?thesis using seed_all_given by (simp add: sticky_assign_def)
next
  case False
  let ?sm = "sort_key member_id members" and ?valid = "set (all_partitions ppt)"
  have ne: "?sm \<noteq> []" using False by (metis length_0_conv length_sort)
  have "kept members ppt {} (seed members)"
    using progress_seed [of members ppt] by (auto simp: kept_def)
  with sticky_keep_kept [of ?sm members ppt "{}" "seed members" ?sm] obtain taken a1 where
    k: "fold_sum (sticky_keep ?valid ?sm (live_claims members)) ?sm ({}, seed members) = Inr (taken, a1)"
      "kept members ppt taken a1" by auto
  then obtain given where g: "progress members ppt given a1" "distinct given" "set given = taken"
    "taken \<subseteq> ?valid" "\<forall>tp\<in>taken. subscribed members tp" by (auto simp: kept_def)
  let ?rest = "sorted_list_of_set (?valid - taken)"
  obtain a2 where d: "fold_sum (sticky_deal ?sm) ?rest a1 = Inr a2"
    "progress members ppt (given @ filter (subscribed members) ?rest) a2"
    using sticky_deals_progress [OF _ _ g(1), of ?sm ?rest] by auto
  have "distinct (given @ filter (subscribed members) ?rest)" using g(2,3) by auto
  moreover have "distinct (filter (subscribed members) (all_partitions ppt))"
    using assms distinct_all_partitions [of ppt] by (simp add: group_ok_def)
  moreover have "set (given @ filter (subscribed members) ?rest) = set (filter (subscribed members) (all_partitions ppt))"
    using g(3,4,5) by auto
  ultimately have "mset (given @ filter (subscribed members) ?rest) = mset (filter (subscribed members) (all_partitions ppt))"
    by (simp only: set_eq_iff_mset_eq_distinct)
  then have "all_given members ppt (map (\<lambda>(k, v). (k, sort v)) a2)"
    using progress_sort_values [OF d(2)] unfolding all_given_def by blast
  with k(1) d(1) ne show ?thesis by (simp add: sticky_assign_def Let_def)
qed

interpretation sticky: complete_assignor sticky_assign
  by unfold_locales (use sticky_all_given all_given_contract in fastforce)+

section \<open>Cooperative sticky\<close>

lemma mset_concat_filter: "mset (concat (map (\<lambda>(k, v). filter (P k) v) a)) \<subseteq># mset (concat (map snd a))"
  by (induction a) (auto intro!: subset_mset.add_mono simp: mset_filter multiset_filter_subset)

lemma distinct_subset_mset:
  assumes "mset xs \<subseteq># mset ys" and "distinct ys"
  shows "distinct xs"
proof -
  have "count (mset xs) a = (if a \<in> set xs then 1 else 0)" for a
  proof (cases "a \<in> set xs")
    case True
    then have "0 < count (mset xs) a" by simp
    moreover have "count (mset xs) a \<le> count (mset ys) a" by (rule mset_subset_eq_count [OF assms(1)])
    moreover have "count (mset ys) a \<le> 1" using assms(2) by (simp add: distinct_count_atmost_1)
    ultimately have "count (mset xs) a = 1" by linarith
    with True show ?thesis by simp
  qed (simp add: count_mset_0_iff)
  then show ?thesis by (simp add: distinct_count_atmost_1)
qed

lemma cooperative_eq:
  assumes "bt_wf target"
  shows "bt_collect (map (\<lambda>(m, tps). (m, filter (P m) tps)) target) = map (\<lambda>(m, tps). (m, filter (P m) tps)) target"
  by (rule bt_collect_wf) (use assms in \<open>simp add: bt_wf_def case_prod_beta' comp_def\<close>)

lemma current_owner_unique:
  assumes "distinct (concat (map owned members))" and "s \<in> set members" and "tp \<in> set (owned s)"
  shows "bt_get (current_owners members) tp = Some (member_id s)"
proof -
  let ?kvs = "concat (map (\<lambda>m. map (\<lambda>tp. (tp, member_id m)) (owned m)) members)"
  have keys: "map fst ?kvs = concat (map owned members)"
    by (induction members) (auto simp: comp_def)
  have "(tp, member_id s) \<in> set (rev ?kvs)" using assms(2,3) by auto
  moreover have "distinct (map fst (rev ?kvs))"
    using assms(1) by (simp only: rev_map [symmetric] distinct_rev keys)
  ultimately show ?thesis
    by (simp only: current_owners_def bt_get_collect map_of_is_SomeI)
qed

lemma cooperative_form:
  assumes "group_ok members ppt"
  shows "\<exists>target. sticky_assign members ppt = Inr target \<and> sound_assignment members ppt target \<and>
     cooperative_assign members ppt = Inr (map (\<lambda>(m, tps). (m, filter (\<lambda>tp.
       case bt_get (current_owners members) tp of Some current \<Rightarrow> current = m | None \<Rightarrow> True) tps)) target)"
proof -
  obtain target where t: "sticky_assign members ppt = Inr target" "sound_assignment members ppt target"
    using sticky.sound [OF assms] by blast
  have "bt_wf target" using t(2) by (simp add: sound_assignment_def)
  from cooperative_eq [OF this, of "\<lambda>m tp. case bt_get (current_owners members) tp of Some current \<Rightarrow> current = m | None \<Rightarrow> True"] t
  show ?thesis by (simp add: cooperative_assign_def Let_def)
qed

interpretation cooperative: assignor cooperative_assign
proof
  fix members ppt assume "group_ok members ppt"
  then obtain target where t: "sound_assignment members ppt target"
    and c: "cooperative_assign members ppt = Inr (map (\<lambda>(m, tps). (m, filter (\<lambda>tp.
       case bt_get (current_owners members) tp of Some current \<Rightarrow> current = m | None \<Rightarrow> True) tps)) target)"
    using cooperative_form by blast
  let ?P = "\<lambda>m tp. case bt_get (current_owners members) tp of Some current \<Rightarrow> current = m | None \<Rightarrow> True"
  let ?a = "map (\<lambda>(m, tps). (m, filter (?P m) tps)) target"
  have keys: "map fst ?a = map fst target" by (simp add: case_prod_beta' comp_def)
  have "bt_values ?a = map (\<lambda>(m, tps). filter (?P m) tps) target"
    by (simp add: bt_values_def case_prod_beta' comp_def)
  then have "mset (concat (bt_values ?a)) \<subseteq># mset (concat (bt_values target))"
    using mset_concat_filter [of ?P target] by (simp only: bt_values_def)
  moreover have "distinct (concat (bt_values target))" using t by (simp add: sound_assignment_def)
  ultimately have "distinct (concat (bt_values ?a))" by (rule distinct_subset_mset)
  moreover have "list_all (\<lambda>(m, tps). list_all (\<lambda>tp. tp \<in> set (all_partitions ppt) \<and> wants members m tp) tps) ?a"
    using t by (auto simp: sound_assignment_def list_all_iff)
  ultimately have "sound_assignment members ppt ?a"
    using t keys unfolding sound_assignment_def bt_wf_def bt_keys_def by (simp only: simp_thms)
  with c show "\<exists>a. cooperative_assign members ppt = Inr a \<and> sound_assignment members ppt a" by blast
qed

section \<open>What a group can rely on\<close>

text \<open>
  C31: the eager strategies share everything out, once.  For range, round robin and sticky, in any
  group with distinct member ids, the leader's computation does not panic; every member is told
  its assignment, an empty one included; each partition of a topic that anybody subscribed to
  has exactly one owner; and whatever a member gets exists and is of a topic it subscribed to.
\<close>

theorem eager_assignment_exact:
  assumes "group_ok members ppt" and "strategy \<noteq> CooperativeStickyAssignor"
  shows "\<exists>a. assign_with strategy members ppt = Inr a \<and> set (bt_keys a) = member_id ` set members \<and>
     (\<forall>tp\<in>set (all_partitions ppt). list_ex (\<lambda>s. tp_topic tp \<in> set (topics s)) members \<longrightarrow>
        (\<exists>!m. \<exists>tps. bt_get a m = Some tps \<and> tp \<in> set tps)) \<and>
     (\<forall>m tps. bt_get a m = Some tps \<longrightarrow>
        (\<forall>tp\<in>set tps. tp \<in> set (all_partitions ppt) \<and> wants members m tp))"
  using range.shares_exactly [OF assms(1)] roundrobin.shares_exactly [OF assms(1)]
    sticky.shares_exactly [OF assms(1)] assms(2)
  by (cases strategy) (simp_all only: assign_with.simps simp_thms)

definition sample_members :: "subscription list" where
  "sample_members = [\<lparr>member_id = ''b'', topics = [''t''], owned = [], generation = - 1\<rparr>,
     \<lparr>member_id = ''a'', topics = [''t''], owned = [TopicPartition ''t'' 0], generation = 3\<rparr>]"

lemma sample_group_ok: "group_ok sample_members [(''t'', 3)]"
  by (simp add: group_ok_def sample_members_def in_i32_def bt_wf_def)

theorem eager_assignment_exact_witness:
  "\<exists>a. assign_with StickyAssignor sample_members [(''t'', 3)] = Inr a \<and>
     set (bt_keys a) = member_id ` set sample_members"
  using eager_assignment_exact [OF sample_group_ok, of StickyAssignor] by auto

text \<open>
  Range blocks.  For a topic with a positive number of partitions and n subscribers, the
  blocks of the n indexes, at 32 bits, follow each other without gap or overlap from partition 0
  to the last, and each is as long as the average, rounded down, or one longer.
\<close>

theorem range_blocks_partition_the_topic:
  assumes "0 < n" and "int n \<le> i32_max" and "0 < tally" and "in_i32 tally"
  shows "concat (map (\<lambda>i. range_block topic (tally div int n) (tally mod int n) (int i)) [0..<n]) =
       map (TopicPartition topic) [0..tally - 1] \<and>
     (\<forall>i<n. int (length (range_block topic (tally div int n) (tally mod int n) (int i))) =
       tally div int n + (if int i < tally mod int n then 1 else 0))"
proof -
  let ?pm = "tally div int n" and ?we = "tally mod int n"
  have pm: "0 \<le> ?pm" "0 \<le> ?we" "?we < int n"
    using assms(1,3) by (simp_all add: pos_imp_zdiv_nonneg_iff)
  have blk: "range_block topic ?pm ?we (int i) =
      map (TopicPartition topic) [block_start ?pm ?we (int i)..block_start ?pm ?we (int i + 1) - 1]" if "i < n" for i
    by (rule range_block_eq [OF assms(1,3,4) that assms(2) refl refl])
  have "map (\<lambda>i. range_block topic ?pm ?we (int i)) [0..<n] =
      map (\<lambda>i. map (TopicPartition topic) [block_start ?pm ?we (int i)..block_start ?pm ?we (int i + 1) - 1]) [0..<n]"
    by (rule map_cong) (simp_all add: blk)
  moreover have "block_start ?pm ?we (int n) = tally"
    using pm by (simp add: block_start_def min_def)
  ultimately have "concat (map (\<lambda>i. range_block topic ?pm ?we (int i)) [0..<n]) = map (TopicPartition topic) [0..tally - 1]"
    using arg_cong [OF blocks_cover [OF pm(1,2), of n], of "map (TopicPartition topic)"]
    by (simp only: map_concat map_map comp_def)
  moreover have "int (length (range_block topic ?pm ?we (int i))) = ?pm + (if int i < ?we then 1 else 0)" if "i < n" for i
    using blk [OF that] pm(1) by (simp add: block_start_Suc)
  ultimately show ?thesis by blast
qed

theorem range_blocks_partition_the_topic_witness:
  "concat (map (\<lambda>i. range_block ''t'' (7 div int 3) (7 mod int 3) (int i)) [0..<3]) = map (TopicPartition ''t'') [0..6]"
  using range_blocks_partition_the_topic [of 3 7 "''t''"] by (simp add: in_i32_def)

text \<open>
  C32: the cooperative hand-over.  When no two members claim the same partition, a partition that
  a member claims to hold is in nobody else's published assignment: it is kept by its holder or
  given to no one this round.  The published assignment is part of the sticky target, tells every
  member, and never panics.
\<close>

theorem cooperative_never_takes_over:
  assumes "group_ok members ppt"
    and "distinct (concat (map owned members))"
  shows "\<exists>a target. cooperative_assign members ppt = Inr a \<and> sticky_assign members ppt = Inr target \<and>
     bt_keys a = bt_keys target \<and>
     (\<forall>m tps. bt_get a m = Some tps \<longrightarrow>
        (\<exists>tps'. bt_get target m = Some tps' \<and> set tps \<subseteq> set tps') \<and>
        (\<forall>tp\<in>set tps. \<forall>s\<in>set members. tp \<in> set (owned s) \<longrightarrow> member_id s = m))"
proof -
  let ?P = "\<lambda>m tp. case bt_get (current_owners members) tp of Some current \<Rightarrow> current = m | None \<Rightarrow> True"
  obtain target where t: "sticky_assign members ppt = Inr target"
    and c: "cooperative_assign members ppt = Inr (map (\<lambda>(m, tps). (m, filter (?P m) tps)) target)"
    using cooperative_form [OF assms(1)] by blast
  let ?a = "map (\<lambda>(m, tps). (m, filter (?P m) tps)) target"
  have get: "bt_get ?a m = map_option (filter (?P m)) (bt_get target m)" for m
    by (rule bt_get_map)
  have holder: "bt_get (current_owners members) tp = Some (member_id s)"
    if "s \<in> set members" and "tp \<in> set (owned s)" for s tp
    using assms(2) that by (rule current_owner_unique)
  show ?thesis
  proof (intro exI conjI)
    show "bt_keys ?a = bt_keys target" by (simp add: bt_keys_def case_prod_beta' comp_def)
    show "\<forall>m tps. bt_get ?a m = Some tps \<longrightarrow>
        (\<exists>tps'. bt_get target m = Some tps' \<and> set tps \<subseteq> set tps') \<and>
        (\<forall>tp\<in>set tps. \<forall>s\<in>set members. tp \<in> set (owned s) \<longrightarrow> member_id s = m)"
      unfolding get using holder by fastforce
  qed (fact c t)+
qed

theorem cooperative_never_takes_over_witness:
  "\<exists>a. cooperative_assign sample_members [(''t'', 3)] = Inr a \<and>
     (\<forall>tps. bt_get a ''b'' = Some tps \<longrightarrow> TopicPartition ''t'' 0 \<notin> set tps)"
  using cooperative_never_takes_over [OF sample_group_ok] by (fastforce simp: sample_members_def)

end
