(* ===== verification/Client.thy ===== *)
theory Client
  imports Producer_State Partitioner Metadata Group
begin

text \<open>
  What the components of \<^verbatim>\<open>barnabas-client\<close> share: its error type (\<^verbatim>\<open>src/lib.rs\<close>), the requests
  and responses the producer exchanges, and \<open>cluster_ops\<close>, the operations of the cluster layer the
  producer calls.  The producer's definitions take \<open>cluster_ops\<close> as an argument and thread its
  state \<open>'w\<close>, which stands for the connections, the metadata cache, the brokers and the clocks
  (\<open>now\<close> is \<^verbatim>\<open>Instant::now\<close>, \<open>unix_millis\<close> is \<^verbatim>\<open>SystemTime::now\<close>).  The structs of
  the \<^verbatim>\<open>kafka-protocol\<close> crate are records with the fields the client sets or reads.
  Times and delays are in milliseconds.
\<close>

section \<open>Errors\<close>

datatype client_error =
    Core core_error
  | Io string
  | Connect string string
  | Broker string int disposition
  | NoLeader string int
  | Producer producer_error
  | Timeout int string
  | Sasl string
  | Missing string
  | ConnectionBusy int string nat

fun code_of :: "error_code \<Rightarrow> int" where
  "code_of (ErrorCode n) = n"

definition check :: "string \<Rightarrow> int \<Rightarrow> client_error + unit" where
  "check op code =
     (if is_ok (ErrorCode code) then Inr () else Inl (Broker op code (disposition_of (ErrorCode code))))"

section \<open>Requests and responses\<close>

record produce_request =
  pr_acks :: int
  pr_timeout_ms :: int
  pr_topics :: "(string \<times> (int \<times> bytes) list) list"
  pr_transactional_id :: "string option"

record partition_response =
  pp_index :: int
  pp_error_code :: int
  pp_base_offset :: int

type_synonym produce_response = "(string \<times> partition_response list) list"

record coordinator_info =
  ci_error_code :: int
  ci_host :: string
  ci_port :: int

record group_metadata =
  gmd_group_id :: string
  gmd_generation_id :: int
  gmd_member_id :: string
  gmd_group_instance_id :: "string option"

datatype coordinator_request =
    InitProducerId "string option" int
  | EndTxn string producer_identity bool
  | AddPartitionsToTxn string producer_identity string "int list"
  | AddOffsetsToTxn string producer_identity string
  | TxnOffsetCommit string producer_identity group_metadata "(string \<times> (int \<times> int) list) list"

text \<open>The identity is only in the answer to \<open>InitProducerId\<close>; the codes are per partition where nested.\<close>

record coordinator_response =
  cr_codes :: "int list"
  cr_identity :: producer_identity

text \<open>
  A record as it is handed to \<^verbatim>\<open>RecordBatchEncoder\<close>, a parameter: identity, sequence and flags
  are the producer's, and so is the codec.
\<close>

datatype compression = NoCompression | Gzip | Snappy | Lz4 | Zstd

record batch_record =
  br_transactional :: bool
  br_identity :: producer_identity
  br_offset :: int
  br_sequence :: int
  br_timestamp :: int
  br_key :: "bytes option"
  br_value :: "bytes option"

section \<open>The cluster layer, as the producer calls it\<close>

record 'w cluster_ops =
  leader_addr :: "'w \<Rightarrow> string \<Rightarrow> int \<Rightarrow> (client_error + string) \<times> 'w"
  send_at :: "'w \<Rightarrow> string \<Rightarrow> produce_request \<Rightarrow> (client_error + unit) \<times> 'w"
  recv_many :: "'w \<Rightarrow> string list \<Rightarrow> (client_error + produce_response) list \<times> 'w"
  invalidate :: "'w \<Rightarrow> string \<Rightarrow> int \<Rightarrow> 'w"
  refresh_metadata :: "'w \<Rightarrow> string \<Rightarrow> (client_error + unit) \<times> 'w"
  topic_partition_count :: "'w \<Rightarrow> string \<Rightarrow> (client_error + int) \<times> 'w"
  call_find_coordinator :: "'w \<Rightarrow> string \<Rightarrow> int \<Rightarrow> (client_error + coordinator_info) \<times> 'w"
  call_any :: "'w \<Rightarrow> coordinator_request \<Rightarrow> (client_error + coordinator_response) \<times> 'w"
  call_at :: "'w \<Rightarrow> string \<Rightarrow> coordinator_request \<Rightarrow> (client_error + coordinator_response) \<times> 'w"
  sleep :: "'w \<Rightarrow> nat \<Rightarrow> 'w"
  now :: "'w \<Rightarrow> nat"
  unix_millis :: "'w \<Rightarrow> int"
  encode_records :: "compression \<Rightarrow> batch_record list \<Rightarrow> string + bytes"

section \<open>Retrying\<close>

definition MAX_RETRIES :: nat where "MAX_RETRIES = 40"
definition RETRY_BACKOFF :: nat where "RETRY_BACKOFF = 5"
definition RETRY_BACKOFF_MAX :: nat where "RETRY_BACKOFF_MAX = 250"

definition backoff_delay :: "nat \<Rightarrow> nat" where
  "backoff_delay attempt = min (RETRY_BACKOFF * 2 ^ min attempt 16) RETRY_BACKOFF_MAX"

definition backoff :: "'w cluster_ops \<Rightarrow> 'w \<Rightarrow> nat \<Rightarrow> 'w" where
  "backoff ops w attempt = sleep ops w (backoff_delay attempt)"

lemma backoff_delay_bounds: "5 \<le> backoff_delay n" "backoff_delay n \<le> 250"
  by (simp_all add: backoff_delay_def RETRY_BACKOFF_def RETRY_BACKOFF_MAX_def)

lemma backoff_delay_mono: "m \<le> n \<Longrightarrow> backoff_delay m \<le> backoff_delay n"
  unfolding backoff_delay_def by (intro min.mono mult_left_mono power_increasing) auto

end
