(* ===== verification/Producer_Window.thy ===== *)
theory Producer_Window
  imports Client
begin

text \<open>
  The pipelined send window of the producer, \<^verbatim>\<open>barnabas-client/src/producer.rs\<close>: routing, the
  rounds of a window, collecting their answers, deciding what failed, retiring what succeeded,
  and \<open>flush\<close>, which repeats that under the retry budget.

  Shown in \<open>Window_Exchange\<close>, \<open>Window_Safety\<close>, \<open>Window_Progress\<close> and \<open>Window_Spec\<close>, and over the
  connections themselves in \<open>Wire_Window\<close>.
\<close>

section \<open>State\<close>

record producer_record =
  pre_key :: "bytes option"
  pre_value :: "bytes option"
  pre_timestamp :: "int option"

record staged_batch =
  sb_records :: "producer_record list"
  sb_bytes :: nat
  sb_since :: nat

definition DEFAULT_MAX_IN_FLIGHT :: nat where "DEFAULT_MAX_IN_FLIGHT = 5"
definition DEFAULT_BATCH_SIZE :: nat where "DEFAULT_BATCH_SIZE = 16 * 1024"
definition RECORD_OVERHEAD :: nat where "RECORD_OVERHEAD = 16"

record 'w producer =
  pd_cluster :: 'w
  pd_state :: producer_state
  pd_transactional_id :: "string option"
  pd_coordinator :: "string option"
  pd_acks :: int
  pd_timeout_ms :: int
  pd_compression :: compression
  pd_partitioner :: partitioner
  pd_round_robin :: u32
  pd_pending :: "(partition_key, bytes list) btree"
  pd_max_in_flight :: nat
  pd_staged :: "(partition_key, staged_batch) btree"
  pd_linger :: nat
  pd_batch_size :: nat
  pd_offsets :: "(partition_key \<times> nat, int) btree"

type_synonym round_target = "string \<times> partition_key list"
type_synonym outcomes = "(partition_key \<times> error_code) list list"

section \<open>Sending\<close>

definition produce_request_for :: "'w producer \<Rightarrow> partition_key list \<Rightarrow> nat \<Rightarrow> produce_request" where
  "produce_request_for p keys round =
     (let taken = concat (map (\<lambda>key.
            case bt_get (pd_pending p) key of
              None \<Rightarrow> []
            | Some queue \<Rightarrow> if round < length queue then [(key, queue ! round)] else []) keys)
      in \<lparr>pr_acks = pd_acks p, pr_timeout_ms = pd_timeout_ms p,
          pr_topics = bt_group (\<lambda>(key, _). fst key) (\<lambda>(key, batch). (snd key, batch)) taken,
          pr_transactional_id = pd_transactional_id p\<rparr>)"

definition window_depth :: "'w producer \<Rightarrow> (string, partition_key list) btree \<Rightarrow> nat" where
  "window_depth p by_broker =
     (let lens = concat (map (\<lambda>key. case bt_get (pd_pending p) key of None \<Rightarrow> [] | Some q \<Rightarrow> [length q])
                   (concat (bt_values by_broker)))
      in min (if lens = [] then 0 else Max (set lens)) (pd_max_in_flight p))"

definition taking :: "'w producer \<Rightarrow> nat \<Rightarrow> partition_key list \<Rightarrow> partition_key list" where
  "taking p round keys =
     filter (\<lambda>key. case bt_get (pd_pending p) key of None \<Rightarrow> False | Some q \<Rightarrow> round < length q) keys"

text \<open>The brokers of one round, in order; on a failed send, what already went out is returned with the error.\<close>

fun send_round ::
  "'w cluster_ops \<Rightarrow> 'w producer \<Rightarrow> nat \<Rightarrow> (string \<times> partition_key list) list \<Rightarrow> round_target list \<Rightarrow>
   (client_error option \<times> round_target list) \<times> 'w producer" where
  "send_round ops p round [] sent = ((None, sent), p)"
| "send_round ops p round ((address, keys) # rest) sent =
     (let ks = taking p round keys
      in if ks = [] then send_round ops p round rest sent
         else case send_at ops (pd_cluster p) address (produce_request_for p ks round) of
                (Inr _, w) \<Rightarrow> send_round ops (p\<lparr>pd_cluster := w\<rparr>) round rest (sent @ [(address, ks)])
              | (Inl e, w) \<Rightarrow> ((Some e, sent), p\<lparr>pd_cluster := w\<rparr>))"

text \<open>One round's answers: the codes, and the base offsets recorded on the way.\<close>

definition collect_topic ::
  "nat \<Rightarrow> string \<times> partition_response list \<Rightarrow>
   (partition_key \<times> error_code) list \<times> (partition_key \<times> nat, int) btree \<Rightarrow>
   (partition_key \<times> error_code) list \<times> (partition_key \<times> nat, int) btree" where
  "collect_topic round tr s =
     (case tr of (topic, parts) \<Rightarrow>
        fold (\<lambda>part (codes, offs).
          let key = (topic, pp_index part); code = ErrorCode (pp_error_code part)
          in (codes @ [(key, code)],
              if is_ok code then bt_insert (key, round) (pp_base_offset part) offs else offs)) parts s)"

fun collect_round ::
  "nat \<Rightarrow> (round_target \<times> (client_error + produce_response)) list \<Rightarrow>
   (partition_key \<times> error_code) list \<times> (partition_key \<times> nat, int) btree \<times> client_error option \<Rightarrow>
   (partition_key \<times> error_code) list \<times> (partition_key \<times> nat, int) btree \<times> client_error option" where
  "collect_round round [] s = s"
| "collect_round round (((address, keys), response) # rest) (codes, offs, err) =
     (case response of
        Inr resp \<Rightarrow>
          (case fold (collect_topic round) resp (codes, offs) of
             (codes', offs') \<Rightarrow> collect_round round rest (codes', offs', err))
      | Inl e \<Rightarrow>
          collect_round round rest
            (codes @ map (\<lambda>key. (key, REQUEST_TIMED_OUT)) keys, offs,
             case err of None \<Rightarrow> Some e | Some _ \<Rightarrow> err))"

fun collect_rounds ::
  "'w cluster_ops \<Rightarrow> nat \<Rightarrow> round_target list list \<Rightarrow> 'w producer \<Rightarrow> outcomes \<Rightarrow> client_error option \<Rightarrow>
   (outcomes \<times> client_error option) \<times> 'w producer" where
  "collect_rounds ops round [] p out err = ((out, err), p)"
| "collect_rounds ops round (sent # rest) p out err =
     (case recv_many ops (pd_cluster p) (map fst sent) of (responses, w) \<Rightarrow>
        case collect_round round (zip sent responses) ([], pd_offsets p, err) of (codes, offs, err') \<Rightarrow>
          collect_rounds ops (round + 1) rest (p\<lparr>pd_cluster := w, pd_offsets := offs\<rparr>) (out @ [codes]) err')"

definition collect_window ::
  "'w cluster_ops \<Rightarrow> 'w producer \<Rightarrow> round_target list list \<Rightarrow>
   (outcomes \<times> client_error option) \<times> 'w producer" where
  "collect_window ops p rounds = collect_rounds ops 0 rounds p [] None"

fun send_rounds ::
  "'w cluster_ops \<Rightarrow> 'w producer \<Rightarrow> (string, partition_key list) btree \<Rightarrow> nat list \<Rightarrow> round_target list list \<Rightarrow>
   (client_error + round_target list list) \<times> 'w producer" where
  "send_rounds ops p by_broker [] rounds = (Inr rounds, p)"
| "send_rounds ops p by_broker (round # more_rounds) rounds =
     (case send_round ops p round by_broker [] of
        ((Some e, sent), p') \<Rightarrow> (Inl e, snd (collect_window ops p' (rounds @ [sent])))
      | ((None, sent), p') \<Rightarrow>
          if sent = [] then (Inr rounds, p')
          else send_rounds ops p' by_broker more_rounds (rounds @ [sent]))"

definition send_window ::
  "'w cluster_ops \<Rightarrow> 'w producer \<Rightarrow> (string, partition_key list) btree \<Rightarrow> nat \<Rightarrow>
   (client_error + round_target list list) \<times> 'w producer" where
  "send_window ops p by_broker depth = send_rounds ops p by_broker [0..<depth] []"

section \<open>Deciding what failed\<close>

record 'w verdict =
  vd_producer :: "'w producer"
  vd_failed_at :: "(partition_key, nat) btree"
  vd_needs_refresh :: bool

definition note_result ::
  "'w cluster_ops \<Rightarrow> nat \<Rightarrow> partition_key \<times> error_code \<Rightarrow> 'w verdict \<Rightarrow>
   (client_error \<times> 'w producer) + 'w verdict" where
  "note_result ops round kc v =
     (case kc of (key, code) \<Rightarrow>
        if is_ok code then Inr v
        else if bt_get (vd_failed_at v) key \<noteq> None then Inr v
        else
          (let failed = v\<lparr>vd_failed_at := bt_insert key round (vd_failed_at v)\<rparr>; p = vd_producer v
           in case disposition_of code of
                RefreshMetadata \<Rightarrow>
                  Inr (failed\<lparr>vd_producer := p\<lparr>pd_cluster := invalidate ops (pd_cluster p) (fst key) (snd key)\<rparr>,
                              vd_needs_refresh := True\<rparr>)
              | Retry \<Rightarrow> Inr failed
              | _ \<Rightarrow> Inl (Broker ''Produce'' (code_of code) (disposition_of code),
                          p\<lparr>pd_state := fence (pd_state p)\<rparr>)))"

definition note_outcomes ::
  "'w cluster_ops \<Rightarrow> outcomes \<Rightarrow> 'w producer \<Rightarrow> (client_error \<times> 'w producer) + 'w verdict" where
  "note_outcomes ops outs p =
     fold_sum (\<lambda>(round, results). fold_sum (note_result ops round) results) (enumerate 0 outs)
       \<lparr>vd_producer = p, vd_failed_at = [], vd_needs_refresh = False\<rparr>"

section \<open>Retiring\<close>

type_synonym written = "(string \<times> int \<times> int) list"

definition retire_result ::
  "(partition_key, nat) btree \<Rightarrow> nat \<Rightarrow> partition_key \<times> error_code \<Rightarrow> 'w producer \<times> written \<Rightarrow> 'w producer \<times> written" where
  "retire_result failed_at round kc s =
     (case kc of (key, _) \<Rightarrow> case s of (p, out) \<Rightarrow>
        if (case bt_get failed_at key of None \<Rightarrow> False | Some first \<Rightarrow> first \<le> round) then (p, out)
        else case bt_get (pd_pending p) key of
               None \<Rightarrow> (p, out)
             | Some [] \<Rightarrow> (p, out)
             | Some (_ # queue) \<Rightarrow>
                 (p\<lparr>pd_pending := bt_insert key queue (pd_pending p)\<rparr>,
                  out @ [(fst key, snd key,
                          case bt_get (pd_offsets p) (key, round) of None \<Rightarrow> - 1 | Some off \<Rightarrow> off)]))"

definition retire ::
  "(partition_key, nat) btree \<Rightarrow> outcomes \<Rightarrow> 'w producer \<times> written \<Rightarrow> 'w producer \<times> written" where
  "retire failed_at outs s =
     fold (\<lambda>(round, results). fold (retire_result failed_at round) results) (enumerate 0 outs) s"

definition drop_empty :: "'w producer \<Rightarrow> 'w producer" where
  "drop_empty p = p\<lparr>pd_pending := filter (\<lambda>(_, queue). queue \<noteq> []) (pd_pending p)\<rparr>"

section \<open>Flushing\<close>

text \<open>Which broker leads each partition that still has work; a missing leader is only noted.\<close>

fun route ::
  "'w cluster_ops \<Rightarrow> 'w producer \<Rightarrow> partition_key list \<Rightarrow> (string, partition_key list) btree \<Rightarrow> bool \<Rightarrow>
   (client_error + (string, partition_key list) btree \<times> bool) \<times> 'w producer" where
  "route ops p [] by_broker unroutable = (Inr (by_broker, unroutable), p)"
| "route ops p (key # keys) by_broker unroutable =
     (case leader_addr ops (pd_cluster p) (fst key) (snd key) of
        (Inr address, w) \<Rightarrow>
          route ops (p\<lparr>pd_cluster := w\<rparr>) keys (bt_entry address [] (\<lambda>ks. ks @ [key]) by_broker) unroutable
      | (Inl (NoLeader _ _), w) \<Rightarrow> route ops (p\<lparr>pd_cluster := w\<rparr>) keys by_broker True
      | (Inl e, w) \<Rightarrow> (Inl e, p\<lparr>pd_cluster := w\<rparr>))"

fun refresh_topics :: "'w cluster_ops \<Rightarrow> 'w producer \<Rightarrow> string list \<Rightarrow> (client_error + unit) \<times> 'w producer" where
  "refresh_topics ops p [] = (Inr (), p)"
| "refresh_topics ops p (topic # ts) =
     (case refresh_metadata ops (pd_cluster p) topic of
        (Inr _, w) \<Rightarrow> refresh_topics ops (p\<lparr>pd_cluster := w\<rparr>) ts
      | (Inl e, w) \<Rightarrow> (Inl e, p\<lparr>pd_cluster := w\<rparr>))"

definition wait_retry :: "'w cluster_ops \<Rightarrow> 'w producer \<Rightarrow> nat \<Rightarrow> 'w producer" where
  "wait_retry ops p attempt = p\<lparr>pd_cluster := backoff ops (pd_cluster p) attempt\<rparr>"

text \<open>\<^verbatim>\<open>keys().next().expect("non-empty")\<close>.\<close>

definition no_leader_error :: "'w producer \<Rightarrow> client_error failure" where
  "no_leader_error p =
     (case bt_keys (pd_pending p) of key # _ \<Rightarrow> Failed (NoLeader (fst key) (snd key)) | [] \<Rightarrow> Panicked)"

text \<open>
  One turn of the retry loop: \<open>Done\<close> with the result, or \<open>Again\<close> with what has been written.
\<close>

datatype 'w turn = Done "client_error failure + written" "'w producer" | Again written "'w producer"

definition after_window ::
  "'w cluster_ops \<Rightarrow> nat \<Rightarrow> outcomes \<Rightarrow> written \<Rightarrow> 'w producer \<Rightarrow> 'w turn" where
  "after_window ops attempt outs out p =
     (case note_outcomes ops outs p of
        Inl (e, p') \<Rightarrow> Done (Inl (Failed e)) p'
      | Inr v \<Rightarrow>
          (case retire (vd_failed_at v) outs (vd_producer v, out) of (p1, out1) \<Rightarrow>
             let p2 = drop_empty (p1\<lparr>pd_offsets := []\<rparr>)
             in if pd_pending p2 = [] then Done (Inr (sort out1)) p2
                else if vd_needs_refresh v
                then (case refresh_topics ops p2 (remdups_adj (sort (map fst (bt_keys (pd_pending p2))))) of
                        (Inl e, p3) \<Rightarrow> Done (Inl (Failed e)) p3
                      | (Inr _, p3) \<Rightarrow> Again out1 (wait_retry ops p3 attempt))
                else Again out1 (wait_retry ops p2 attempt)))"

definition flush_turn :: "'w cluster_ops \<Rightarrow> nat \<Rightarrow> written \<Rightarrow> 'w producer \<Rightarrow> 'w turn" where
  "flush_turn ops attempt out p0 =
     (let p = drop_empty p0
      in if pd_pending p = [] then Done (Inr (sort out)) p
         else case route ops p (bt_keys (pd_pending p)) [] False of
                (Inl e, p1) \<Rightarrow> Done (Inl (Failed e)) p1
              | (Inr (by_broker, unroutable), p1) \<Rightarrow>
                  if by_broker = []
                  then (if \<not> unroutable \<or> attempt + 1 = MAX_RETRIES then Done (Inl (no_leader_error p1)) p1
                        else Again out (wait_retry ops p1 attempt))
                  else
                    (case send_window ops p1 by_broker (window_depth p1 by_broker) of
                       (Inl e, p2) \<Rightarrow> Done (Inl (Failed e)) p2
                     | (Inr rounds, p2) \<Rightarrow>
                         (case collect_window ops p2 rounds of
                            ((outs, Some e), p3) \<Rightarrow>
                              (let p4 = p3\<lparr>pd_offsets := []\<rparr>
                               in case e of
                                    Io _ \<Rightarrow> if attempt + 1 < MAX_RETRIES then Again out (wait_retry ops p4 attempt)
                                            else Done (Inl (Failed e)) p4
                                  | _ \<Rightarrow> Done (Inl (Failed e)) p4)
                          | ((outs, None), p3) \<Rightarrow> after_window ops attempt outs out p3)))"

fun flush_loop :: "'w cluster_ops \<Rightarrow> nat list \<Rightarrow> written \<Rightarrow> 'w producer \<Rightarrow>
   (client_error failure + written) \<times> 'w producer" where
  "flush_loop ops [] out p = (Inl (no_leader_error p), p)"
| "flush_loop ops (attempt # attempts) out p =
     (case flush_turn ops attempt out p of
        Done r p' \<Rightarrow> (r, p')
      | Again out' p' \<Rightarrow> flush_loop ops attempts out' p')"

definition flush_pending :: "'w cluster_ops \<Rightarrow> 'w producer \<Rightarrow> (client_error failure + written) \<times> 'w producer" where
  "flush_pending ops p = flush_loop ops [0..<MAX_RETRIES] [] p"

end
