(* ===== verification/Window_Exchange.thy ===== *)
theory Window_Exchange
  imports Producer_Window
begin

text \<open>
  How the pipelined window and the cluster layer meet: the contract of the cluster layer
  (\<open>pipelined\<close>), what \<open>send_window\<close> puts on each connection under it, and what \<open>collect_window\<close>
  reads back.  A window that reads an answer in every round has lost no request, so each code is the
  answer to the batch it is taken for, also when a connection was reopened between two rounds; a
  window that does not reports a transport error.  Either way no connection is left with an answer
  outstanding.
\<close>

section \<open>Queues, requests and answers\<close>

definition queue :: "'w producer \<Rightarrow> partition_key \<Rightarrow> bytes list" where
  "queue p key = (case bt_get (pd_pending p) key of None \<Rightarrow> [] | Some q \<Rightarrow> q)"

definition request_items :: "produce_request \<Rightarrow> (partition_key \<times> bytes) list" where
  "request_items rq = concat (map (\<lambda>(topic, parts). map (\<lambda>(i, b). ((topic, i), b)) parts) (pr_topics rq))"

definition response_codes :: "produce_response \<Rightarrow> (partition_key \<times> error_code) list" where
  "response_codes resp =
     concat (map (\<lambda>(topic, parts). map (\<lambda>part. ((topic, pp_index part), ErrorCode (pp_error_code part))) parts) resp)"

lemma taking_queue: "taking p r keys = filter (\<lambda>key. r < length (queue p key)) keys"
  unfolding taking_def queue_def by (intro filter_cong refl) (auto split: option.splits)

lemma request_items_mem:
  "(key, b) \<in> set (request_items (produce_request_for p keys r)) \<longleftrightarrow>
     key \<in> set keys \<and> r < length (queue p key) \<and> b = queue p key ! r"
proof -
  define taken where "taken = concat (map (\<lambda>key. case bt_get (pd_pending p) key of None \<Rightarrow> []
      | Some q \<Rightarrow> if r < length q then [(key, q ! r)] else []) keys)"
  have taken: "(k, b) \<in> set taken \<longleftrightarrow> k \<in> set keys \<and> r < length (queue p k) \<and> b = queue p k ! r" for k b
    by (force simp: taken_def queue_def split: option.splits if_splits)
  have topics: "pr_topics (produce_request_for p keys r) =
      bt_group (\<lambda>(key, _). fst key) (\<lambda>(key, batch). (snd key, batch)) taken"
    by (simp add: produce_request_for_def taken_def Let_def)
  have "(key, b) \<in> set (request_items (produce_request_for p keys r)) \<longleftrightarrow>
      (fst key, (snd key, b)) \<in> set (concat (map (\<lambda>(t, ys). map (\<lambda>y. (t, y)) ys) (pr_topics (produce_request_for p keys r))))"
    unfolding request_items_def by (cases key) force
  also have "\<dots> \<longleftrightarrow> (key, b) \<in> set taken"
    unfolding bt_group_items [OF topics] by (cases key) force
  finally show ?thesis by (simp add: taken)
qed

text \<open>What a round reads from one response: its codes in the response's order.\<close>

lemma collect_topic_codes:
  "fst (collect_topic r tr (codes, offs)) =
     codes @ map (\<lambda>part. ((fst tr, pp_index part), ErrorCode (pp_error_code part))) (snd tr)"
proof -
  obtain topic parts where tr: "tr = (topic, parts)" by (cases tr)
  have "fst (fold (\<lambda>part (codes, offs).
          let key = (topic, pp_index part); code = ErrorCode (pp_error_code part)
          in (codes @ [(key, code)],
              if is_ok code then bt_insert (key, r) (pp_base_offset part) offs else offs)) parts (codes, offs)) =
        codes @ map (\<lambda>part. ((topic, pp_index part), ErrorCode (pp_error_code part))) parts"
    by (induction parts arbitrary: codes offs) (simp_all add: Let_def)
  then show ?thesis by (simp add: collect_topic_def tr)
qed

lemma collect_response_codes:
  "fst (fold (collect_topic r) resp (codes, offs)) = codes @ response_codes resp"
proof (induction resp arbitrary: codes offs)
  case (Cons tr resp)
  obtain c o' where c: "collect_topic r tr (codes, offs) = (c, o')" by (cases "collect_topic r tr (codes, offs)")
  then have "c = codes @ map (\<lambda>part. ((fst tr, pp_index part), ErrorCode (pp_error_code part))) (snd tr)"
    using collect_topic_codes [of r tr codes offs] by simp
  with Cons.IH [of c o'] c show ?case by (simp add: response_codes_def case_prod_beta)
qed (simp add: response_codes_def)

lemma collect_round_error_kept:
  "snd (snd (collect_round r srs (codes, offs, Some e))) = Some e"
proof (induction srs arbitrary: codes offs)
  case (Cons sr srs)
  obtain a ks resp where sr: "sr = ((a, ks), resp)" by (cases sr) auto
  show ?case
  proof (cases resp)
    case (Inr x)
    obtain c o' where "fold (collect_topic r) x (codes, offs) = (c, o')" by fastforce
    then show ?thesis using Cons.IH [of c o'] by (simp add: sr Inr)
  qed (use Cons.IH in \<open>simp add: sr\<close>)
qed simp

lemma collect_round_clean:
  assumes "collect_round r srs (codes, offs, err) = (codes', offs', None)"
  shows "err = None \<and> (\<exists>resps. map snd srs = map Inr resps \<and> codes' = codes @ concat (map response_codes resps))"
  using assms
proof (induction srs arbitrary: codes offs err)
  case (Cons sr srs)
  obtain a ks resp where sr: "sr = ((a, ks), resp)" by (cases sr) auto
  show ?case
  proof (cases resp)
    case (Inl e)
    then have "collect_round r srs (codes @ map (\<lambda>key. (key, REQUEST_TIMED_OUT)) ks, offs,
        Some (case err of None \<Rightarrow> e | Some e' \<Rightarrow> e')) = (codes', offs', None)"
      using Cons.prems by (cases err) (simp_all add: sr)
    then show ?thesis using collect_round_error_kept by (metis option.distinct(1) snd_conv)
  next
    case (Inr x)
    obtain c o' where c: "fold (collect_topic r) x (codes, offs) = (c, o')" by fastforce
    then have "c = codes @ response_codes x" using collect_response_codes [of r x codes offs] by simp
    moreover have rest: "collect_round r srs (c, o', err) = (codes', offs', None)"
      using Cons.prems c by (simp add: sr Inr)
    moreover from Cons.IH [OF rest]
    obtain resps where "err = None" "map snd srs = map Inr resps" "codes' = c @ concat (map response_codes resps)"
      by auto
    ultimately show ?thesis by (auto simp: sr Inr intro!: exI [of _ "x # resps"])
  qed
qed auto

section \<open>The contract of the cluster layer\<close>

text \<open>
  What the window relies on.  \<open>outst w a\<close> are the requests sent on the connection to \<open>a\<close> whose answers
  have not been read, oldest first; \<open>log w k\<close> are the batches partition \<open>k\<close> holds, as of the
  latest answer about \<open>k\<close> that has been read.  Nothing removes a batch from a log.  A send adds its
  request behind the others or, when the connection was dead and had to be opened again, leaves it
  the only one: the earlier ones are lost, their answers with them.  A read consumes the oldest
  request of each connection, or drops the connection; a response is the answer to the oldest
  request, about which \<open>Q\<close> holds, and there is none on a connection with no request outstanding.
  Everything else leaves idle connections idle.
\<close>

definition idle :: "('w \<Rightarrow> string \<Rightarrow> produce_request list) \<Rightarrow> 'w \<Rightarrow> bool" where
  "idle outst w \<longleftrightarrow> (\<forall>a. outst w a = [])"

definition log_le :: "('w \<Rightarrow> partition_key \<Rightarrow> bytes set) \<Rightarrow> 'w \<Rightarrow> 'w \<Rightarrow> bool" where
  "log_le log w w' \<longleftrightarrow> (\<forall>k. log w k \<subseteq> log w' k)"

definition quiet ::
  "('w \<Rightarrow> string \<Rightarrow> produce_request list) \<Rightarrow> ('w \<Rightarrow> partition_key \<Rightarrow> bytes set) \<Rightarrow> 'w \<Rightarrow> 'w \<Rightarrow> bool" where
  "quiet outst log w w' \<longleftrightarrow> (idle outst w \<longrightarrow> idle outst w') \<and> log_le log w w'"

definition sends ::
  "('w \<Rightarrow> string \<Rightarrow> produce_request list) \<Rightarrow> ('w \<Rightarrow> partition_key \<Rightarrow> bytes set) \<Rightarrow>
   'w \<Rightarrow> string \<Rightarrow> produce_request \<Rightarrow> (client_error + unit) \<times> 'w \<Rightarrow> bool" where
  "sends outst log w a rq res \<longleftrightarrow>
     log_le log w (snd res) \<and>
     (fst res = Inr () \<longrightarrow>
        (outst (snd res) a = outst w a @ [rq] \<or> outst (snd res) a = [rq]) \<and>
        (\<forall>b. b \<noteq> a \<longrightarrow> outst (snd res) b = outst w b))"

definition receives ::
  "('w \<Rightarrow> string \<Rightarrow> produce_request list) \<Rightarrow> ('w \<Rightarrow> partition_key \<Rightarrow> bytes set) \<Rightarrow>
   ('w \<Rightarrow> produce_request \<Rightarrow> produce_response \<Rightarrow> bool) \<Rightarrow>
   'w \<Rightarrow> string list \<Rightarrow> (client_error + produce_response) list \<times> 'w \<Rightarrow> bool" where
  "receives outst log Q w as res \<longleftrightarrow>
     length (fst res) = length as \<and> log_le log w (snd res) \<and>
     (\<forall>a. a \<notin> set as \<longrightarrow> outst (snd res) a = outst w a) \<and>
     (\<forall>(a, r)\<in>set (zip as (fst res)).
        outst (snd res) a \<in> {[], tl (outst w a)} \<and>
        (\<forall>resp. r = Inr resp \<longrightarrow>
           outst w a = hd (outst w a) # outst (snd res) a \<and> Q (snd res) (hd (outst w a)) resp))"

definition pipelined ::
  "('w \<Rightarrow> string \<Rightarrow> produce_request list) \<Rightarrow> ('w \<Rightarrow> partition_key \<Rightarrow> bytes set) \<Rightarrow>
   ('w \<Rightarrow> produce_request \<Rightarrow> produce_response \<Rightarrow> bool) \<Rightarrow> 'w cluster_ops \<Rightarrow> bool" where
  "pipelined outst log Q ops \<longleftrightarrow>
     (\<forall>w t i. quiet outst log w (snd (leader_addr ops w t i))) \<and>
     (\<forall>w t. quiet outst log w (snd (refresh_metadata ops w t))) \<and>
     (\<forall>w t i. quiet outst log w (invalidate ops w t i)) \<and>
     (\<forall>w n. quiet outst log w (sleep ops w n)) \<and>
     (\<forall>w a rq. sends outst log w a rq (send_at ops w a rq)) \<and>
     (\<forall>w as. log_le log w (snd (recv_many ops w as))) \<and>
     (\<forall>w as. distinct as \<longrightarrow> receives outst log Q w as (recv_many ops w as))"

lemma log_le_refl [simp]: "log_le log w w"
  by (simp add: log_le_def)

lemma log_le_trans [trans]: "log_le log w w1 \<Longrightarrow> log_le log w1 w2 \<Longrightarrow> log_le log w w2"
  unfolding log_le_def by blast

lemma quiet_refl [simp]: "quiet outst log w w"
  by (simp add: quiet_def)

lemma quiet_trans [trans]: "quiet outst log w w1 \<Longrightarrow> quiet outst log w1 w2 \<Longrightarrow> quiet outst log w w2"
  by (auto simp: quiet_def intro: log_le_trans)

section \<open>Sending a window\<close>

definition targets :: "'w producer \<Rightarrow> (string \<times> partition_key list) list \<Rightarrow> nat \<Rightarrow> round_target list" where
  "targets p bb r = filter (\<lambda>t. snd t \<noteq> []) (map (\<lambda>(a, keys). (a, taking p r keys)) bb)"

lemma targets_Cons:
  "targets p ((a, keys) # bb) r = (if taking p r keys = [] then [] else [(a, taking p r keys)]) @ targets p bb r"
  by (simp add: targets_def)

text \<open>The requests one round, or rounds \<open>rs\<close>, put on the connection to \<open>a\<close>.\<close>

definition puts :: "'w producer \<Rightarrow> nat \<Rightarrow> round_target list \<Rightarrow> string \<Rightarrow> produce_request list" where
  "puts p r sent a = map (\<lambda>t. produce_request_for p (snd t) r) (filter (\<lambda>t. fst t = a) sent)"

lemma puts_append [simp]: "puts p r (xs @ ys) a = puts p r xs a @ puts p r ys a"
  by (simp add: puts_def)

lemma puts_Nil [simp]: "puts p r [] a = []"
  by (simp add: puts_def)

definition requests_to :: "'w producer \<Rightarrow> (string \<times> partition_key list) list \<Rightarrow> string \<Rightarrow> nat list \<Rightarrow> produce_request list" where
  "requests_to p bb a rs =
     concat (map (\<lambda>r. puts p r (targets p bb r) a) rs)"

lemma produce_request_for_cluster [simp]:
  "produce_request_for (p\<lparr>pd_cluster := w\<rparr>) ks r = produce_request_for p ks r"
  by (simp add: produce_request_for_def)

lemma taking_cluster [simp]: "taking (p\<lparr>pd_cluster := w\<rparr>) r ks = taking p r ks"
  by (simp add: taking_def)

lemma targets_cluster [simp]: "targets (p\<lparr>pd_cluster := w\<rparr>) = targets p"
  by (simp add: targets_def fun_eq_iff)

lemma puts_cluster [simp]: "puts (p\<lparr>pd_cluster := w\<rparr>) r sent a = puts p r sent a"
  by (simp add: puts_def)

lemma requests_to_cluster [simp]: "requests_to (p\<lparr>pd_cluster := w\<rparr>) bb a rs = requests_to p bb a rs"
  by (simp add: requests_to_def)

definition suffix_of :: "'a list \<Rightarrow> 'a list \<Rightarrow> bool" where
  "suffix_of xs ys \<longleftrightarrow> (\<exists>zs. ys = zs @ xs)"

lemma suffix_of_snoc: "suffix_of xs ys \<Longrightarrow> xs' = xs @ [x] \<or> xs' = [x] \<Longrightarrow> suffix_of xs' (ys @ [x])"
  by (auto simp: suffix_of_def)

lemma suffix_of_length_eq: "suffix_of xs ys \<Longrightarrow> length ys \<le> length xs \<Longrightarrow> xs = ys"
  by (auto simp: suffix_of_def)

lemma send_round_sends:
  assumes "pipelined outst log Q ops"
    and "send_round ops p r bb sent = ((e, sent'), p')"
    and "\<forall>a. suffix_of (outst (pd_cluster p) a) (base a @ puts p r sent a)"
  shows "p' = p\<lparr>pd_cluster := pd_cluster p'\<rparr> \<and> log_le log (pd_cluster p) (pd_cluster p') \<and>
    (e = None \<longrightarrow> sent' = sent @ targets p bb r \<and>
       (\<forall>a. suffix_of (outst (pd_cluster p') a) (base a @ puts p r sent' a)))"
  using assms(2,3)
proof (induction bb arbitrary: p sent)
  case Nil
  then show ?case by (simp add: targets_def)
next
  case (Cons b bb)
  obtain a keys where b: "b = (a, keys)" by (cases b)
  show ?case
  proof (cases "taking p r keys = []")
    case True
    then have "send_round ops p r bb sent = ((e, sent'), p')" using Cons.prems(1) by (simp add: b)
    from Cons.IH [OF this Cons.prems(2)] True show ?thesis by (auto simp: b targets_Cons)
  next
    case False
    let ?ks = "taking p r keys"
    let ?rq = "produce_request_for p ?ks r"
    obtain res w where s: "send_at ops (pd_cluster p) a ?rq = (res, w)" by fastforce
    have law: "sends outst log (pd_cluster p) a ?rq (res, w)"
      using assms(1) s unfolding pipelined_def by metis
    show ?thesis
    proof (cases res)
      case (Inl e')
      with Cons.prems s False law show ?thesis by (auto simp: b sends_def)
    next
      case (Inr u)
      have next_sent: "\<forall>x. suffix_of (outst w x) (base x @ puts p r (sent @ [(a, ?ks)]) x)"
      proof
        fix x
        have "suffix_of (outst (pd_cluster p) x) (base x @ puts p r sent x)" using Cons.prems(2) by simp
        then show "suffix_of (outst w x) (base x @ puts p r (sent @ [(a, ?ks)]) x)"
          using law Inr suffix_of_snoc [of "outst (pd_cluster p) a" "base a @ puts p r sent a" "outst w a" ?rq]
          by (cases "x = a") (simp_all add: sends_def puts_def)
      qed
      have rest: "send_round ops (p\<lparr>pd_cluster := w\<rparr>) r bb (sent @ [(a, ?ks)]) = ((e, sent'), p')"
        using Cons.prems(1) s False Inr by (simp add: b)
      have "log_le log (pd_cluster p) w" using law by (simp add: sends_def)
      with Cons.IH [OF rest] next_sent False show ?thesis
        by (auto simp: b targets_Cons intro: log_le_trans)
    qed
  qed
qed

lemma send_rounds_sends:
  assumes "pipelined outst log Q ops"
    and "send_rounds ops p bb [lo..<hi] (map (targets p bb) [0..<lo]) = (Inr rounds, p')"
    and "\<forall>a. suffix_of (outst (pd_cluster p) a) (requests_to p bb a [0..<lo])" and "lo \<le> hi"
  shows "p' = p\<lparr>pd_cluster := pd_cluster p'\<rparr> \<and> log_le log (pd_cluster p) (pd_cluster p') \<and>
    (\<exists>d. lo \<le> d \<and> d \<le> hi \<and> rounds = map (targets p bb) [0..<d] \<and> (d = hi \<or> targets p bb d = []) \<and>
      (\<forall>a. suffix_of (outst (pd_cluster p') a) (requests_to p bb a [0..<d])))"
  using assms(2-4)
proof (induction "hi - lo" arbitrary: lo p)
  case 0
  then show ?case by auto
next
  case (Suc n)
  then have lt: "lo < hi" by simp
  obtain e sent p1 where r: "send_round ops p lo bb [] = ((e, sent), p1)"
    by (metis surj_pair)
  from send_round_sends [OF assms(1) r, of "\<lambda>a. requests_to p bb a [0..<lo]"] Suc.prems(2)
  have p1: "p1 = p\<lparr>pd_cluster := pd_cluster p1\<rparr>" "log_le log (pd_cluster p) (pd_cluster p1)"
    and ok: "e = None \<Longrightarrow> sent = targets p bb lo \<and>
       (\<forall>a. suffix_of (outst (pd_cluster p1) a) (requests_to p bb a [0..<lo] @ puts p lo sent a))"
    by auto
  have none: "e = None" using Suc.prems(1) r lt by (cases e) (simp_all add: upt_conv_Cons)
  have reqs: "requests_to p bb a [0..<Suc lo] = requests_to p bb a [0..<lo] @ puts p lo (targets p bb lo) a" for a
    by (simp add: requests_to_def)
  show ?case
  proof (cases "sent = []")
    case True
    then have "rounds = map (targets p bb) [0..<lo]" "p' = p1"
      using Suc.prems(1) r lt none by (simp_all add: upt_conv_Cons)
    with p1 ok [OF none] True lt show ?thesis by (auto intro!: exI [of _ lo])
  next
    case False
    define w1 where "w1 = pd_cluster p1"
    have p1': "p1 = p\<lparr>pd_cluster := w1\<rparr>" using p1(1) by (simp add: w1_def)
    have "send_rounds ops p1 bb [Suc lo..<hi] (map (targets p bb) [0..<Suc lo]) = (Inr rounds, p')"
      using Suc.prems(1) r lt none False ok [OF none] by (simp add: upt_conv_Cons)
    then have rest: "send_rounds ops p1 bb [Suc lo..<hi] (map (targets p1 bb) [0..<Suc lo]) = (Inr rounds, p')"
      by (simp add: p1')
    have here: "\<forall>a. suffix_of (outst (pd_cluster p1) a) (requests_to p1 bb a [0..<Suc lo])"
      using ok [OF none] by (auto simp: p1' reqs simp del: upt_Suc)
    have "n = hi - Suc lo" "Suc lo \<le> hi" using Suc.hyps(2) lt by auto
    from Suc.hyps(1) [OF this(1) rest here this(2)]
    have "p' = p1\<lparr>pd_cluster := pd_cluster p'\<rparr>" "log_le log (pd_cluster p1) (pd_cluster p')"
      and "\<exists>d. Suc lo \<le> d \<and> d \<le> hi \<and> rounds = map (targets p1 bb) [0..<d] \<and> (d = hi \<or> targets p1 bb d = []) \<and>
      (\<forall>a. suffix_of (outst (pd_cluster p') a) (requests_to p1 bb a [0..<d]))"
      by blast+
    then show ?thesis using p1(2) by (auto simp: p1' intro: log_le_trans Suc_leD simp del: upt_Suc)
  qed
qed

lemma collect_rounds_error_kept:
  "snd (fst (collect_rounds ops r rounds p out (Some e))) = Some e"
proof (induction rounds arbitrary: r p out)
  case (Cons sent rounds)
  obtain rs w where rs: "recv_many ops (pd_cluster p) (map fst sent) = (rs, w)" by fastforce
  obtain codes offs err where c: "collect_round r (zip sent rs) ([], pd_offsets p, Some e) = (codes, offs, err)"
    by (cases "collect_round r (zip sent rs) ([], pd_offsets p, Some e)") auto
  then have "err = Some e" using collect_round_error_kept [of r "zip sent rs" "[]" "pd_offsets p" e] by simp
  then show ?case using rs c Cons.IH by simp
qed simp

section \<open>Reading a window's answers\<close>

text \<open>
  The codes of a window whose every round was answered: round by round, a response to each request
  of the round, read while the logs only grew.
\<close>

inductive window_answers ::
  "('w \<Rightarrow> partition_key \<Rightarrow> bytes set) \<Rightarrow> ('w \<Rightarrow> produce_request \<Rightarrow> produce_response \<Rightarrow> bool) \<Rightarrow> 'w producer \<Rightarrow>
   nat \<Rightarrow> 'w \<Rightarrow> round_target list list \<Rightarrow> outcomes \<Rightarrow> 'w \<Rightarrow> bool"
  for log Q p where
  no_rounds: "log_le log w w' \<Longrightarrow> window_answers log Q p r w [] [] w'"
| round_answered: "log_le log w w1 \<Longrightarrow>
    list_all2 (\<lambda>t resp. Q w1 (produce_request_for p (snd t) r) resp) sent resps \<Longrightarrow>
    window_answers log Q p (Suc r) w1 rounds outs w' \<Longrightarrow>
    window_answers log Q p r w (sent # rounds) (concat (map response_codes resps) # outs) w'"

inductive_cases window_answers_NilE: "window_answers log Q p r w [] outs w'"
inductive_cases window_answers_ConsE: "window_answers log Q p r w (sent # rounds) outs w'"

lemma collect_rounds_clean_step:
  assumes "pipelined outst log Q ops" and "distinct (map fst sent)"
    and "collect_rounds ops r (sent # rounds) p out None = ((outs, None), p')"
  obtains w1 offs resps where
    "collect_rounds ops (Suc r) rounds (p\<lparr>pd_cluster := w1, pd_offsets := offs\<rparr>)
       (out @ [concat (map response_codes resps)]) None = ((outs, None), p')"
    and "length resps = length sent" and "log_le log (pd_cluster p) w1"
    and "\<And>a. a \<notin> fst ` set sent \<Longrightarrow> outst w1 a = outst (pd_cluster p) a"
    and "\<And>t resp. (t, resp) \<in> set (zip sent resps) \<Longrightarrow>
       outst (pd_cluster p) (fst t) = hd (outst (pd_cluster p) (fst t)) # outst w1 (fst t) \<and>
       Q w1 (hd (outst (pd_cluster p) (fst t))) resp"
proof -
  obtain rs w1 where rs: "recv_many ops (pd_cluster p) (map fst sent) = (rs, w1)" by fastforce
  have law: "receives outst log Q (pd_cluster p) (map fst sent) (rs, w1)"
    using assms(1,2) rs unfolding pipelined_def by metis
  obtain codes offs err where c: "collect_round r (zip sent rs) ([], pd_offsets p, None) = (codes, offs, err)"
    by (metis surj_pair)
  have rest: "collect_rounds ops (Suc r) rounds (p\<lparr>pd_cluster := w1, pd_offsets := offs\<rparr>) (out @ [codes]) err =
      ((outs, None), p')"
    using assms(3) rs c by simp
  have "err = None"
  proof (cases err)
    case (Some e)
    then show ?thesis
      using collect_rounds_error_kept [of ops "Suc r" rounds "p\<lparr>pd_cluster := w1, pd_offsets := offs\<rparr>" "out @ [codes]" e] rest
      by simp
  qed
  with collect_round_clean [of r "zip sent rs" "[]" "pd_offsets p" None codes offs] c
  obtain resps where resps: "map snd (zip sent rs) = map Inr resps" "codes = concat (map response_codes resps)"
    by auto
  have len: "length rs = length sent" using law by (simp add: receives_def)
  then have inr: "rs = map Inr resps" using resps(1) by simp
  show ?thesis
  proof (rule that [where ?w1.0 = w1 and offs = offs and resps = resps])
    show "collect_rounds ops (Suc r) rounds (p\<lparr>pd_cluster := w1, pd_offsets := offs\<rparr>)
       (out @ [concat (map response_codes resps)]) None = ((outs, None), p')"
      using rest \<open>err = None\<close> resps(2) by simp
    show "length resps = length sent" using inr len by simp
    show "log_le log (pd_cluster p) w1" using law by (simp add: receives_def)
    show "outst w1 a = outst (pd_cluster p) a" if "a \<notin> fst ` set sent" for a
      using law that by (simp add: receives_def)
    show "outst (pd_cluster p) (fst t) = hd (outst (pd_cluster p) (fst t)) # outst w1 (fst t) \<and>
       Q w1 (hd (outst (pd_cluster p) (fst t))) resp" if "(t, resp) \<in> set (zip sent resps)" for t resp
    proof -
      have "(fst t, Inr resp) \<in> set (zip (map fst sent) rs)"
        using that by (force simp: inr zip_map_map)
      with law show ?thesis unfolding receives_def by fastforce
    qed
  qed
qed

lemma puts_none: "a \<notin> fst ` set sent \<Longrightarrow> puts p r sent a = []"
  by (auto simp: puts_def filter_empty_conv)

lemma puts_one:
  assumes "distinct (map fst sent)" and "(a, ks) \<in> set sent"
  shows "puts p r sent a = [produce_request_for p ks r]"
  using assms by (induction sent) (auto simp: puts_def filter_empty_conv rev_image_eqI)

lemma distinct_targets: "bt_wf bb \<Longrightarrow> distinct (map fst (targets p bb r))"
proof -
  assume "bt_wf bb"
  then have "distinct (map fst (map (\<lambda>(a, keys). (a, taking p r keys)) bb))"
    by (auto simp: bt_wf_def strict_sorted_iff case_prod_beta comp_def)
  then show ?thesis unfolding targets_def by (rule distinct_map_filter)
qed

text \<open>An answer for every round means that no request was lost.\<close>

lemma collect_counts:
  assumes "pipelined outst log Q ops" and "bt_wf bb"
    and "collect_rounds ops r (map (targets p0 bb) rs) p out None = ((outs, None), p')"
  shows "length (requests_to p0 bb a rs) \<le> length (outst (pd_cluster p) a)"
  using assms(3)
proof (induction rs arbitrary: r p out)
  case Nil
  then show ?case by (simp add: requests_to_def)
next
  case (Cons x rs)
  let ?sent = "targets p0 bb x"
  obtain w1 offs resps where w1: "collect_rounds ops (Suc r) (map (targets p0 bb) rs) (p\<lparr>pd_cluster := w1, pd_offsets := offs\<rparr>)
       (out @ [concat (map response_codes resps)]) None = ((outs, None), p')"
    and len: "length resps = length ?sent"
    and others: "\<And>a. a \<notin> fst ` set ?sent \<Longrightarrow> outst w1 a = outst (pd_cluster p) a"
    and popped: "\<And>t resp. (t, resp) \<in> set (zip ?sent resps) \<Longrightarrow>
       outst (pd_cluster p) (fst t) = hd (outst (pd_cluster p) (fst t)) # outst w1 (fst t) \<and>
       Q w1 (hd (outst (pd_cluster p) (fst t))) resp"
    using collect_rounds_clean_step [OF assms(1) distinct_targets [OF assms(2)] Cons.prems [unfolded list.map]] by metis
  have ih: "length (requests_to p0 bb a rs) \<le> length (outst w1 a)" using Cons.IH [OF w1] by simp
  have split: "requests_to p0 bb a (x # rs) = puts p0 x ?sent a @ requests_to p0 bb a rs"
    by (simp add: requests_to_def)
  show ?case
  proof (cases "a \<in> fst ` set ?sent")
    case False
    with ih others split show ?thesis by (simp add: puts_none)
  next
    case True
    then obtain ks where "(a, ks) \<in> set ?sent" by auto
    then obtain resp where "((a, ks), resp) \<in> set (zip ?sent resps)"
      using len by (metis in_set_impl_in_set_zip1)
    from popped [OF this] have "length (outst (pd_cluster p) a) = Suc (length (outst w1 a))"
      by (metis fst_conv length_Cons)
    moreover have "length (puts p0 x ?sent a) = 1"
      using puts_one [OF distinct_targets [OF assms(2)] \<open>(a, ks) \<in> set ?sent\<close>, of p0 x] by simp
    ultimately show ?thesis using ih split by simp
  qed
qed

lemma collect_aligned:
  assumes "pipelined outst log Q ops" and "bt_wf bb"
    and "collect_rounds ops lo (map (targets p0 bb) [lo..<hi]) p out None = ((outs, None), p')"
    and "\<forall>a. outst (pd_cluster p) a = requests_to p0 bb a [lo..<hi]" and "lo \<le> hi"
  shows "\<exists>new. outs = out @ new \<and> window_answers log Q p0 lo (pd_cluster p) (map (targets p0 bb) [lo..<hi]) new (pd_cluster p') \<and>
     idle outst (pd_cluster p') \<and> p' = p\<lparr>pd_cluster := pd_cluster p', pd_offsets := pd_offsets p'\<rparr>"
  using assms(3-5)
proof (induction "hi - lo" arbitrary: lo p out)
  case 0
  then show ?case by (auto simp: requests_to_def idle_def intro: window_answers.no_rounds)
next
  case (Suc n)
  let ?sent = "targets p0 bb lo" and ?w = "pd_cluster p"
  have lt: "lo < hi" using Suc.hyps(2) by simp
  then have up: "[lo..<hi] = lo # [Suc lo..<hi]" by (simp add: upt_conv_Cons)
  obtain w1 offs resps where w1: "collect_rounds ops (Suc lo) (map (targets p0 bb) [Suc lo..<hi]) (p\<lparr>pd_cluster := w1, pd_offsets := offs\<rparr>)
       (out @ [concat (map response_codes resps)]) None = ((outs, None), p')"
    and len: "length resps = length ?sent" and le: "log_le log ?w w1"
    and others: "\<And>a. a \<notin> fst ` set ?sent \<Longrightarrow> outst w1 a = outst ?w a"
    and popped: "\<And>t resp. (t, resp) \<in> set (zip ?sent resps) \<Longrightarrow>
       outst ?w (fst t) = hd (outst ?w (fst t)) # outst w1 (fst t) \<and> Q w1 (hd (outst ?w (fst t))) resp"
    using collect_rounds_clean_step [OF assms(1) distinct_targets [OF assms(2)] Suc.prems(1) [unfolded up list.map]] by metis
  have split: "outst ?w a = puts p0 lo ?sent a @ requests_to p0 bb a [Suc lo..<hi]" for a
    using Suc.prems(2) by (simp add: up requests_to_def)
  have one: "outst ?w (fst t) = produce_request_for p0 (snd t) lo # requests_to p0 bb (fst t) [Suc lo..<hi]"
    if "t \<in> set ?sent" for t
    using split [of "fst t"] puts_one [OF distinct_targets [OF assms(2)], of "fst t" "snd t" p0 lo p0] that by simp
  have rest: "\<forall>a. outst w1 a = requests_to p0 bb a [Suc lo..<hi]"
  proof
    fix a
    show "outst w1 a = requests_to p0 bb a [Suc lo..<hi]"
    proof (cases "a \<in> fst ` set ?sent")
      case False
      with others split puts_none show ?thesis by simp
    next
      case True
      then obtain t where t: "t \<in> set ?sent" "a = fst t" by auto
      then obtain resp where "(t, resp) \<in> set (zip ?sent resps)" using len by (metis in_set_impl_in_set_zip1)
      from popped [OF this] one [OF t(1)] show ?thesis by (simp add: t(2))
    qed
  qed
  have answers: "list_all2 (\<lambda>t resp. Q w1 (produce_request_for p0 (snd t) lo) resp) ?sent resps"
    unfolding list_all2_iff
  proof (intro conjI ballI)
    fix z assume z: "z \<in> set (zip ?sent resps)"
    obtain t resp where tr: "z = (t, resp)" by (cases z)
    have "t \<in> set ?sent" using z tr by (auto dest: set_zip_leftD)
    with popped [of t resp] one z tr show "case z of (t, resp) \<Rightarrow> Q w1 (produce_request_for p0 (snd t) lo) resp" by simp
  qed (simp add: len)
  have "n = hi - Suc lo" "Suc lo \<le> hi" using Suc.hyps(2) lt by auto
  from Suc.hyps(1) [OF this(1) w1 _ this(2)] rest
  obtain new where new: "outs = (out @ [concat (map response_codes resps)]) @ new"
    "window_answers log Q p0 (Suc lo) w1 (map (targets p0 bb) [Suc lo..<hi]) new (pd_cluster p')"
    "idle outst (pd_cluster p')" "p' = p\<lparr>pd_cluster := w1, pd_offsets := offs,
       pd_cluster := pd_cluster p', pd_offsets := pd_offsets p'\<rparr>"
    by auto
  from window_answers.round_answered [of log ?w w1 Q p0, OF le answers new(2)] new(1,3,4) show ?case
    by (auto simp: up)
qed


lemma collect_drains:
  assumes "pipelined outst log Q ops" and "bt_wf bb"
    and "collect_rounds ops r (map (targets p0 bb) rs) p out err = ((outs, err'), p')"
    and "\<forall>a. length (outst (pd_cluster p) a) \<le> length (requests_to p0 bb a rs)"
  shows "idle outst (pd_cluster p') \<and> log_le log (pd_cluster p) (pd_cluster p') \<and>
     p' = p\<lparr>pd_cluster := pd_cluster p', pd_offsets := pd_offsets p'\<rparr>"
  using assms(3,4)
proof (induction rs arbitrary: r p out err)
  case Nil
  then show ?case by (auto simp: requests_to_def idle_def)
next
  case (Cons x rs)
  let ?sent = "targets p0 bb x" and ?w = "pd_cluster p"
  obtain resps w1 where rs: "recv_many ops ?w (map fst ?sent) = (resps, w1)" by fastforce
  have law: "receives outst log Q ?w (map fst ?sent) (resps, w1)"
    using assms(1) distinct_targets [OF assms(2)] rs unfolding pipelined_def by metis
  obtain codes offs err1 where "collect_round r (zip ?sent resps) ([], pd_offsets p, err) = (codes, offs, err1)"
    by (metis surj_pair)
  then have rest: "collect_rounds ops (Suc r) (map (targets p0 bb) rs) (p\<lparr>pd_cluster := w1, pd_offsets := offs\<rparr>) (out @ [codes]) err1 =
      ((outs, err'), p')"
    using Cons.prems(1) rs by simp
  have shorter: "length (outst w1 a) \<le> length (requests_to p0 bb a rs)" for a
  proof (cases "a \<in> fst ` set ?sent")
    case False
    then have "outst w1 a = outst ?w a" using law by (simp add: receives_def)
    with puts_none [OF False, of p0 x] spec [OF Cons.prems(2), of a] show ?thesis by (simp add: requests_to_def)
  next
    case True
    then obtain ks where ks: "(a, ks) \<in> set ?sent" by auto
    have "length resps = length (map fst ?sent)" using law by (simp add: receives_def)
    moreover have "a \<in> set (map fst ?sent)" using True by auto
    ultimately obtain z where "(a, z) \<in> set (zip (map fst ?sent) resps)"
      by (metis in_set_impl_in_set_zip1)
    then have "outst w1 a \<in> {[], tl (outst ?w a)}" using law unfolding receives_def by fastforce
    then have "length (outst w1 a) \<le> length (outst ?w a) - 1" by auto
    moreover have "length (outst ?w a) \<le> Suc (length (requests_to p0 bb a rs))"
      using spec [OF Cons.prems(2), of a] puts_one [OF distinct_targets [OF assms(2)] ks, of p0 x]
      by (simp add: requests_to_def)
    ultimately show ?thesis by linarith
  qed
  from Cons.IH [OF rest] shorter law show ?case
    by (auto simp: receives_def intro: log_le_trans)
qed

lemma suffix_of_length: "suffix_of xs ys \<Longrightarrow> length xs \<le> length ys"
  by (auto simp: suffix_of_def)

text \<open>A whole window: sent from idle connections, read back to idle connections.\<close>

lemma window_exchange:
  assumes "pipelined outst log Q ops" and "bt_wf bb" and "idle outst (pd_cluster p)"
    and "send_window ops p bb depth = (Inr rounds, p1)" and "collect_window ops p1 rounds = ((outs, e), p2)"
  shows "p2 = p\<lparr>pd_cluster := pd_cluster p2, pd_offsets := pd_offsets p2\<rparr> \<and> idle outst (pd_cluster p2) \<and>
    log_le log (pd_cluster p) (pd_cluster p2) \<and>
    (e = None \<longrightarrow> (\<exists>d w1. d \<le> depth \<and> (d = depth \<or> targets p bb d = []) \<and> log_le log (pd_cluster p) w1 \<and>
       window_answers log Q p 0 w1 (map (targets p bb) [0..<d]) outs (pd_cluster p2)))"
proof -
  have sent: "send_rounds ops p bb [0..<depth] (map (targets p bb) [0..<0]) = (Inr rounds, p1)"
    using assms(4) by (simp add: send_window_def)
  have start: "\<forall>a. suffix_of (outst (pd_cluster p) a) (requests_to p bb a [0..<0])"
    using assms(3) by (simp add: idle_def suffix_of_def requests_to_def)
  from send_rounds_sends [OF assms(1) sent start] obtain d
    where p1: "p1 = p\<lparr>pd_cluster := pd_cluster p1\<rparr>" "log_le log (pd_cluster p) (pd_cluster p1)"
      and d: "d \<le> depth" "rounds = map (targets p bb) [0..<d]" "d = depth \<or> targets p bb d = []"
      and suf: "\<forall>a. suffix_of (outst (pd_cluster p1) a) (requests_to p bb a [0..<d])"
    by auto
  have coll: "collect_rounds ops 0 (map (targets p bb) [0..<d]) p1 [] None = ((outs, e), p2)"
    using assms(5) d(2) by (simp add: collect_window_def)
  have drained: "idle outst (pd_cluster p2) \<and> log_le log (pd_cluster p1) (pd_cluster p2) \<and>
     p2 = p1\<lparr>pd_cluster := pd_cluster p2, pd_offsets := pd_offsets p2\<rparr>"
    using collect_drains [OF assms(1,2) coll] suf suffix_of_length by blast
  have p2: "p2 = p\<lparr>pd_cluster := pd_cluster p2, pd_offsets := pd_offsets p2\<rparr>"
  proof -
    obtain w1 where "p1 = p\<lparr>pd_cluster := w1\<rparr>" using p1(1) by blast
    then show ?thesis using drained by simp
  qed
  have "\<exists>w1. log_le log (pd_cluster p) w1 \<and>
      window_answers log Q p 0 w1 (map (targets p bb) [0..<d]) outs (pd_cluster p2)" if "e = None"
  proof -
    have clean: "collect_rounds ops 0 (map (targets p bb) [0..<d]) p1 [] None = ((outs, None), p2)"
      using coll that by simp
    have "outst (pd_cluster p1) a = requests_to p bb a [0..<d]" for a
      using suffix_of_length_eq collect_counts [OF assms(1,2) clean] suf by blast
    with collect_aligned [OF assms(1,2) clean] p1(2) show ?thesis by auto
  qed
  with p2 drained d p1(2) show ?thesis by (blast intro: log_le_trans)
qed

section \<open>The codes of a window\<close>

text \<open>A response covers its request: each of its partitions once, and no other.\<close>

definition covers :: "produce_request \<Rightarrow> produce_response \<Rightarrow> bool" where
  "covers rq resp \<longleftrightarrow> distinct (map fst (response_codes resp)) \<and>
     fst ` set (response_codes resp) = fst ` set (request_items rq)"

definition routed :: "(string \<times> partition_key list) list \<Rightarrow> partition_key list" where
  "routed bb = concat (map snd bb)"

lemma concat_targets: "concat (map snd (targets p bb r)) = filter (\<lambda>k. r < length (queue p k)) (routed bb)"
  by (induction bb) (auto simp: targets_def routed_def taking_queue)

lemma fst_request_items:
  "fst ` set (request_items (produce_request_for p keys r)) = {k \<in> set keys. r < length (queue p k)}"
proof -
  have mem: "k \<in> fst ` S \<longleftrightarrow> (\<exists>b. (k, b) \<in> S)" for k and S :: "(partition_key \<times> bytes) set" by force
  show ?thesis unfolding set_eq_iff mem request_items_mem by simp
qed

lemma round_keys:
  assumes "list_all2 (\<lambda>t resp. covers (produce_request_for p (snd t) r) resp) sent resps"
    and "distinct (concat (map snd sent))" and "\<forall>t\<in>set sent. \<forall>k\<in>set (snd t). r < length (queue p k)"
  shows "distinct (map fst (concat (map response_codes resps))) \<and>
    fst ` set (concat (map response_codes resps)) = set (concat (map snd sent))"
  using assms
proof (induction rule: list_all2_induct)
  case Nil
  then show ?case by simp
next
  case (Cons t sent resp resps)
  have keys: "fst ` set (response_codes resp) = set (snd t)" "distinct (map fst (response_codes resp))"
    using Cons.hyps(1) Cons.prems(2) unfolding covers_def fst_request_items by auto
  have ih: "distinct (map fst (concat (map response_codes resps)))"
    "fst ` set (concat (map response_codes resps)) = set (concat (map snd sent))"
    using Cons.IH Cons.prems by auto
  have "set (map fst (response_codes resp)) \<inter> set (map fst (concat (map response_codes resps))) = {}"
    using Cons.prems(1) unfolding set_map keys(1) ih(2) by simp
  with keys ih show ?case by (simp add: image_Un)
qed

text \<open>
  What the codes of an answered window say: round \<open>r\<close> reports on exactly the routed partitions with
  more than \<open>r\<close> batches queued, each once, and each code is a response's to a request with the
  partition's \<open>r\<close>-th batch.
\<close>

definition window_codes ::
  "('w \<Rightarrow> partition_key \<Rightarrow> bytes set) \<Rightarrow> ('w \<Rightarrow> produce_request \<Rightarrow> produce_response \<Rightarrow> bool) \<Rightarrow>
   'w producer \<Rightarrow> partition_key set \<Rightarrow> 'w list \<Rightarrow> outcomes \<Rightarrow> bool" where
  "window_codes log Q p K ws outs \<longleftrightarrow>
     length ws = length outs \<and> sorted_wrt (log_le log) ws \<and>
     (\<forall>r<length outs. distinct (map fst (outs ! r)) \<and> fst ` set (outs ! r) = {k \<in> K. r < length (queue p k)}) \<and>
     (\<forall>r<length outs. \<forall>(k, c)\<in>set (outs ! r). \<exists>rq resp.
        Q (ws ! r) rq resp \<and> (k, c) \<in> set (response_codes resp) \<and> (k, queue p k ! r) \<in> set (request_items rq))"

lemma window_answers_worlds:
  assumes "window_answers log Q p r w rounds outs w'"
  shows "\<exists>ws. length ws = length outs \<and> length outs = length rounds \<and> sorted_wrt (log_le log) (w # ws @ [w']) \<and>
    (\<forall>i<length rounds. \<exists>resps. outs ! i = concat (map response_codes resps) \<and>
       list_all2 (\<lambda>t resp. Q (ws ! i) (produce_request_for p (snd t) (r + i)) resp) (rounds ! i) resps)"
  using assms
proof (induction rule: window_answers.induct)
  case (no_rounds w w' r)
  then show ?case by simp
next
  case (round_answered w w1 r sent resps rounds outs w')
  from round_answered.IH obtain ws where ws: "length ws = length outs" "length outs = length rounds"
    "sorted_wrt (log_le log) (w1 # ws @ [w'])"
    and rest: "\<And>i. i < length rounds \<Longrightarrow> \<exists>resps. outs ! i = concat (map response_codes resps) \<and>
       list_all2 (\<lambda>t resp. Q (ws ! i) (produce_request_for p (snd t) (Suc r + i)) resp) (rounds ! i) resps"
    by blast
  show ?case
  proof (intro exI [of _ "w1 # ws"] conjI allI impI)
    have "log_le log w x" if "x \<in> set (w1 # ws @ [w'])" for x
      using that ws(3) round_answered.hyps(1) by (auto intro: log_le_trans)
    with ws(3) show "sorted_wrt (log_le log) (w # (w1 # ws) @ [w'])" by simp
    fix i assume i: "i < length (sent # rounds)"
    show "\<exists>rps. (concat (map response_codes resps) # outs) ! i = concat (map response_codes rps) \<and>
       list_all2 (\<lambda>t resp. Q ((w1 # ws) ! i) (produce_request_for p (snd t) (r + i)) resp) ((sent # rounds) ! i) rps"
    proof (cases i)
      case 0
      then show ?thesis using round_answered.hyps(2) by auto
    next
      case (Suc j)
      then show ?thesis using rest [of j] i by simp
    qed
  qed (use ws in simp_all)
qed

lemma window_answers_codes:
  assumes "window_answers log Q p 0 w (map (targets p bb) [0..<d]) outs w'"
    and "distinct (routed bb)" and "\<And>w rq resp. Q w rq resp \<Longrightarrow> covers rq resp"
  shows "length outs = d \<and> (\<exists>ws. window_codes log Q p (set (routed bb)) ws outs \<and>
     (\<forall>x\<in>set ws. log_le log w x \<and> log_le log x w'))"
proof -
  from window_answers_worlds [OF assms(1)] obtain ws
    where ws: "length ws = length outs" "length outs = d" "sorted_wrt (log_le log) (w # ws @ [w'])"
      and rnd: "\<And>i. i < d \<Longrightarrow> \<exists>resps. outs ! i = concat (map response_codes resps) \<and>
       list_all2 (\<lambda>t resp. Q (ws ! i) (produce_request_for p (snd t) i) resp) (targets p bb i) resps"
    by auto
  have "window_codes log Q p (set (routed bb)) ws outs"
    unfolding window_codes_def
  proof (intro conjI allI impI)
    show "sorted_wrt (log_le log) ws" using ws(3) by (simp add: sorted_wrt_append)
    fix r assume r: "r < length outs"
    then obtain resps where resps: "outs ! r = concat (map response_codes resps)"
      "list_all2 (\<lambda>t resp. Q (ws ! r) (produce_request_for p (snd t) r) resp) (targets p bb r) resps"
      using rnd ws(2) by blast
    have cov: "list_all2 (\<lambda>t resp. covers (produce_request_for p (snd t) r) resp) (targets p bb r) resps"
      using resps(2) assms(3) by (auto elim: list_all2_mono)
    have keys: "\<forall>t\<in>set (targets p bb r). \<forall>k\<in>set (snd t). r < length (queue p k)"
      by (auto simp: targets_def taking_queue)
    have dist: "distinct (concat (map snd (targets p bb r)))" using assms(2) by (simp add: concat_targets)
    from round_keys [OF cov dist keys]
    show "distinct (map fst (outs ! r))" "fst ` set (outs ! r) = {k \<in> set (routed bb). r < length (queue p k)}"
      unfolding resps(1) concat_targets by auto
    show "\<forall>(k, c)\<in>set (outs ! r). \<exists>rq resp. Q (ws ! r) rq resp \<and> (k, c) \<in> set (response_codes resp) \<and>
        (k, queue p k ! r) \<in> set (request_items rq)"
    proof (clarify)
      fix t i c assume "((t, i), c) \<in> set (outs ! r)"
      then obtain resp where resp: "resp \<in> set resps" "((t, i), c) \<in> set (response_codes resp)" by (auto simp: resps(1))
      then obtain x where x: "(x, resp) \<in> set (zip (targets p bb r) resps)"
        using resps(2) by (metis in_set_impl_in_set_zip2 list_all2_lengthD)
      then have q: "Q (ws ! r) (produce_request_for p (snd x) r) resp" using resps(2) by (auto simp: list_all2_iff)
      then have "(t, i) \<in> fst ` set (request_items (produce_request_for p (snd x) r))"
        using assms(3) resp(2) unfolding covers_def by force
      then have "((t, i), queue p (t, i) ! r) \<in> set (request_items (produce_request_for p (snd x) r))"
        using request_items_mem [of "(t, i)" _ p "snd x" r] by auto
      with q resp(2) show "\<exists>rq resp. Q (ws ! r) rq resp \<and> ((t, i), c) \<in> set (response_codes resp) \<and>
        ((t, i), queue p (t, i) ! r) \<in> set (request_items rq)" by blast
    qed
  qed (simp add: ws(1))
  with ws show ?thesis by (auto simp: sorted_wrt_append)
qed

end
