(* ===== verification/Window_Safety.thy ===== *)
theory Window_Safety
  imports Window_Exchange "HOL-Library.Multiset"
begin

text \<open>
  Safety of the pipelined window: the passes over a window's codes retire exactly each
  partition's leading run of successes; a turn of the retry loop, and so \<open>flush\<close>, removes from a
  queue only what is in the partition's log; and a broker's sequence check never fences the producer
  through the window's own failures.  The last section has an instance of the contract.
\<close>

declare split_paired_All [simp del] split_paired_Ex [simp del]

section \<open>What is found failed, and what is retired\<close>

text \<open>The codes of a window in the order both passes visit them.\<close>

definition items :: "outcomes \<Rightarrow> (nat \<times> partition_key \<times> error_code) list" where
  "items outs = concat (map (\<lambda>(r, cs). map (Pair r) cs) (enumerate 0 outs))"

definition failures :: "(nat \<times> partition_key \<times> error_code) list \<Rightarrow> (partition_key \<times> nat) list" where
  "failures its = map (\<lambda>(r, k, c). (k, r)) (filter (\<lambda>(r, k, c). \<not> is_ok c) its)"

definition live :: "(partition_key, nat) btree \<Rightarrow> partition_key \<Rightarrow> nat \<Rightarrow> bool" where
  "live failed_at k r \<longleftrightarrow> (case bt_get failed_at k of None \<Rightarrow> True | Some first \<Rightarrow> r < first)"

lemma items_snoc: "items (outs @ [cs]) = items outs @ map (Pair (length outs)) cs"
  by (simp add: items_def enumerate_append_eq)

lemma items_Nil [simp]: "items [] = []"
  by (simp add: items_def)

lemma items_mem: "(r, k, c) \<in> set (items outs) \<longleftrightarrow> r < length outs \<and> (k, c) \<in> set (outs ! r)"
  by (induction outs rule: rev_induct) (auto simp: items_snoc nth_append less_Suc_eq)

lemma items_sorted: "sorted (map fst (items outs))"
proof (induction outs rule: rev_induct)
  case (snoc cs outs)
  have "sorted (map fst (map (Pair n) cs))" for n :: nat by (induction cs) auto
  with snoc show ?case by (auto simp: items_snoc sorted_append items_mem)
qed simp

lemma note_outcomes_items:
  "note_outcomes ops outs p =
     fold_sum (\<lambda>(r, kc). note_result ops r kc) (items outs) \<lparr>vd_producer = p, vd_failed_at = [], vd_needs_refresh = False\<rparr>"
proof -
  have "(\<lambda>(r, results). fold_sum (note_result ops r) results) =
      (\<lambda>x. fold_sum (\<lambda>(r, kc). note_result ops r kc) ((\<lambda>(r, cs). map (Pair r) cs) x))"
    by (simp add: fold_sum_map fun_eq_iff split_paired_All)
  then show ?thesis unfolding note_outcomes_def items_def by (simp only: fold_sum_concat)
qed

lemma fold_rounds:
  "fold (\<lambda>(r, results). fold (f r) results) xs s =
     fold (\<lambda>(r, kc). f r kc) (concat (map (\<lambda>(r, cs). map (Pair r) cs) xs)) s"
  by (induction xs arbitrary: s) (auto simp: fold_map comp_def)

lemma retire_items: "retire fa outs s = fold (\<lambda>(r, kc). retire_result fa r kc) (items outs) s"
  unfolding retire_def items_def by (rule fold_rounds)

definition only_cluster_differs :: "'w producer \<Rightarrow> 'w producer \<Rightarrow> bool" where
  "only_cluster_differs p p' \<longleftrightarrow> p' = p\<lparr>pd_cluster := pd_cluster p'\<rparr>"

lemma only_cluster_differs_trans:
  "only_cluster_differs p p1 \<Longrightarrow> only_cluster_differs p1 p2 \<Longrightarrow> only_cluster_differs p p2"
  unfolding only_cluster_differs_def by (cases p; cases p1; cases p2) simp

lemma only_cluster_differsD:
  "only_cluster_differs p p' \<Longrightarrow> pd_pending p' = pd_pending p \<and> pd_state p' = pd_state p \<and>
     pd_max_in_flight p' = pd_max_in_flight p"
  unfolding only_cluster_differs_def by (cases p; cases p') simp

lemma only_pending_trans:
  "p1 = p\<lparr>pd_pending := pd_pending p1\<rparr> \<Longrightarrow> p2 = p1\<lparr>pd_pending := pd_pending p2\<rparr> \<Longrightarrow>
     p2 = p\<lparr>pd_pending := pd_pending p2\<rparr>"
  by (cases p; cases p1; cases p2) simp

lemma note_result_ok:
  assumes "pipelined outst log Q ops" and "note_result ops r (k, c) v = Inr v'"
  shows "only_cluster_differs (vd_producer v) (vd_producer v') \<and>
    quiet outst log (pd_cluster (vd_producer v)) (pd_cluster (vd_producer v')) \<and>
    bt_get (vd_failed_at v') x = (case bt_get (vd_failed_at v) x of Some f \<Rightarrow> Some f
       | None \<Rightarrow> if x = k \<and> \<not> is_ok c then Some r else None)"
proof -
  have inv: "quiet outst log w (invalidate ops w t i)" for w t i using assms(1) by (simp add: pipelined_def)
  show ?thesis using assms(2)
    by (auto simp: note_result_def Let_def only_cluster_differs_def btree_simps inv
        split: if_splits disposition.splits option.splits)
qed

lemma note_items_ok:
  assumes "pipelined outst log Q ops" and "fold_sum (\<lambda>(r, kc). note_result ops r kc) its v = Inr v'"
  shows "only_cluster_differs (vd_producer v) (vd_producer v') \<and>
    quiet outst log (pd_cluster (vd_producer v)) (pd_cluster (vd_producer v')) \<and>
    bt_get (vd_failed_at v') x = (case bt_get (vd_failed_at v) x of Some f \<Rightarrow> Some f
       | None \<Rightarrow> map_of (failures its) x)"
  using assms(2)
proof (induction its arbitrary: v)
  case Nil
  then show ?case by (auto simp: only_cluster_differs_def failures_def split: option.splits)
next
  case (Cons it its)
  obtain r k c where it: "it = (r, k, c)" by (cases it)
  obtain v1 where v1: "note_result ops r (k, c) v = Inr v1"
    "fold_sum (\<lambda>(r, kc). note_result ops r kc) its v1 = Inr v'"
    using Cons.prems by (auto simp: it bind_sum_Inr_iff)
  from note_result_ok [OF assms(1) v1(1), of x] Cons.IH [OF v1(2)] show ?case
    by (auto simp: it failures_def intro: quiet_trans only_cluster_differs_trans split: option.splits if_splits)
qed

lemma note_items_fatal:
  assumes "pipelined outst log Q ops" and "fold_sum (\<lambda>(r, kc). note_result ops r kc) its v = Inl (e, p')"
  shows "\<exists>its1 r k c its2. its = its1 @ (r, k, c) # its2 \<and> bt_get (vd_failed_at v) k = None \<and>
    (\<forall>(r', k', c')\<in>set its1. k' = k \<longrightarrow> is_ok c') \<and> \<not> is_ok c \<and> disposition_of c \<notin> {Retry, RefreshMetadata} \<and>
    pd_pending p' = pd_pending (vd_producer v) \<and> pd_max_in_flight p' = pd_max_in_flight (vd_producer v) \<and>
    log_le log (pd_cluster (vd_producer v)) (pd_cluster p')"
  using assms(2)
proof (induction its arbitrary: v)
  case Nil
  then show ?case by simp
next
  case (Cons it its)
  obtain r k c where it: "it = (r, k, c)" by (cases it)
  show ?case
  proof (cases "note_result ops r (k, c) v")
    case (Inl ep)
    then have "\<not> is_ok c \<and> bt_get (vd_failed_at v) k = None \<and> disposition_of c \<notin> {Retry, RefreshMetadata} \<and>
        pd_pending p' = pd_pending (vd_producer v) \<and> pd_max_in_flight p' = pd_max_in_flight (vd_producer v) \<and>
        pd_cluster p' = pd_cluster (vd_producer v)"
      using Cons.prems by (auto simp: it note_result_def Let_def split: if_splits disposition.splits)
    then show ?thesis unfolding it by (intro exI [of _ "[]"] exI [of _ r] exI [of _ k] exI [of _ c] exI [of _ its]) auto
  next
    case (Inr v1)
    then have "fold_sum (\<lambda>(r, kc). note_result ops r kc) its v1 = Inl (e, p')" using Cons.prems by (simp add: it)
    from Cons.IH [OF this] obtain its1 r' k' c' its2 where ih: "its = its1 @ (r', k', c') # its2"
      "bt_get (vd_failed_at v1) k' = None" "\<forall>(r'', k'', c'')\<in>set its1. k'' = k' \<longrightarrow> is_ok c''" "\<not> is_ok c'"
      "disposition_of c' \<notin> {Retry, RefreshMetadata}" "pd_pending p' = pd_pending (vd_producer v1)"
      "pd_max_in_flight p' = pd_max_in_flight (vd_producer v1)" "log_le log (pd_cluster (vd_producer v1)) (pd_cluster p')" by blast
    from note_result_ok [OF assms(1) Inr, of k'] ih(2)
    have "bt_get (vd_failed_at v) k' = None" "k' = k \<longrightarrow> is_ok c"
      by (auto split: option.splits if_splits)
    moreover have "pd_pending (vd_producer v1) = pd_pending (vd_producer v)"
      "pd_max_in_flight (vd_producer v1) = pd_max_in_flight (vd_producer v)"
      "log_le log (pd_cluster (vd_producer v)) (pd_cluster (vd_producer v1))"
      using note_result_ok [OF assms(1) Inr] by (auto simp: quiet_def dest: only_cluster_differsD)
    ultimately show ?thesis using ih unfolding it
      by (intro exI [of _ "(r, k, c) # its1"] exI [of _ r'] exI [of _ k'] exI [of _ c'] exI [of _ its2])
         (auto intro: log_le_trans)
  qed
qed

lemma retire_result_queue:
  assumes "retire_result fa r (k, c) (p, out) = (p', out')"
  shows "p' = p\<lparr>pd_pending := pd_pending p'\<rparr> \<and> (bt_wf (pd_pending p) \<longrightarrow> bt_wf (pd_pending p')) \<and>
    queue p' x = (if x = k \<and> live fa k r then drop 1 (queue p x) else queue p x)"
  using assms
  by (auto simp: retire_result_def queue_def live_def btree_simps not_less
      split: if_splits option.splits list.splits)

lemma retire_fold_queue:
  assumes "fold (\<lambda>(r, kc). retire_result fa r kc) its (p, out) = (p', out')"
  shows "p' = p\<lparr>pd_pending := pd_pending p'\<rparr> \<and> (bt_wf (pd_pending p) \<longrightarrow> bt_wf (pd_pending p')) \<and>
    queue p' x = drop (length (filter (\<lambda>(r, k, c). k = x \<and> live fa x r) its)) (queue p x)"
  using assms
proof (induction its arbitrary: p out)
  case (Cons it its)
  obtain r k c where it: "it = (r, k, c)" by (cases it)
  obtain p1 out1 where p1: "retire_result fa r (k, c) (p, out) = (p1, out1)" by fastforce
  then have "fold (\<lambda>(r, kc). retire_result fa r kc) its (p1, out1) = (p', out')" using Cons.prems by (simp add: it)
  from Cons.IH [OF this] retire_result_queue [OF p1, of x]
  have "p' = p\<lparr>pd_pending := pd_pending p'\<rparr>" "bt_wf (pd_pending p) \<longrightarrow> bt_wf (pd_pending p')"
    and "queue p' x = drop (length (filter (\<lambda>(r, k, c). k = x \<and> live fa x r) its))
      (if x = k \<and> live fa k r then drop 1 (queue p x) else queue p x)"
    by (blast intro: only_pending_trans, blast, argo)
  then show ?case by (auto simp: it)
qed simp

text \<open>How many batches of a partition are retired: its leading run of successes.\<close>

lemma map_of_first:
  "sorted (map snd xs) \<Longrightarrow> (k, r) \<in> set xs \<Longrightarrow> \<exists>f. map_of xs k = Some f \<and> f \<le> (r :: nat)"
  by (induction xs) auto

lemma failures_sorted: "sorted (map fst its) \<Longrightarrow> sorted (map snd (failures its))"
  by (induction its) (auto simp: failures_def)

lemma live_code_ok:
  assumes "bt_get fa k = map_of (failures (items outs)) k" and "live fa k r"
    and "r < length outs" and "(k, c) \<in> set (outs ! r)"
  shows "is_ok c"
proof (rule ccontr)
  assume "\<not> is_ok c"
  then have "(k, r) \<in> set (failures (items outs))"
    using assms(3,4) by (force simp: failures_def items_mem)
  from map_of_first [OF failures_sorted [OF items_sorted] this] assms(1,2) show False
    by (auto simp: live_def)
qed

lemma length_filter_key:
  "distinct (map fst cs) \<Longrightarrow> length (filter (\<lambda>x. fst x = k) cs) = (if k \<in> fst ` set cs then 1 else 0)"
  by (induction cs) (auto simp: filter_empty_conv rev_image_eqI)

lemma count_items:
  assumes "\<forall>r<length outs. distinct (map fst (outs ! r))"
  shows "length (filter (\<lambda>(r, k', c). k' = k \<and> P r) (items outs)) =
     card {r. r < length outs \<and> k \<in> fst ` set (outs ! r) \<and> P r}"
  using assms
proof (induction outs rule: rev_induct)
  case (snoc cs outs)
  have ih: "length (filter (\<lambda>(r, k', c). k' = k \<and> P r) (items outs)) =
     card {r. r < length outs \<and> k \<in> fst ` set (outs ! r) \<and> P r}"
    using snoc.prems by (intro snoc.IH) (auto simp: nth_append split: if_splits)
  have "distinct (map fst cs)" using snoc.prems by (auto simp: nth_append dest: spec [of _ "length outs"])
  then have last: "length (filter (\<lambda>(r, k', c). k' = k \<and> P r) (map (Pair (length outs)) cs)) =
      (if k \<in> fst ` set cs \<and> P (length outs) then 1 else 0)"
    using length_filter_key [of cs k] by (cases "P (length outs)") (simp_all add: filter_map comp_def case_prod_beta)
  let ?R = "{r. r < length outs \<and> k \<in> fst ` set (outs ! r) \<and> P r}"
  have "{r. r < length (outs @ [cs]) \<and> k \<in> fst ` set ((outs @ [cs]) ! r) \<and> P r} =
      (if k \<in> fst ` set cs \<and> P (length outs) then insert (length outs) ?R else ?R)"
    by (auto simp: nth_append less_Suc_eq split: if_splits)
  then show ?case using ih last by (simp add: items_snoc)
qed simp

definition retired :: "(partition_key, nat) btree \<Rightarrow> outcomes \<Rightarrow> nat \<Rightarrow> partition_key \<Rightarrow> nat" where
  "retired fa outs len k =
     min (length outs) (min len (case bt_get fa k of None \<Rightarrow> len | Some first \<Rightarrow> first))"

lemma window_codes_keys:
  "window_codes log Q p K ws outs \<Longrightarrow> r < length outs \<Longrightarrow>
     k \<in> fst ` set (outs ! r) \<longleftrightarrow> k \<in> K \<and> r < length (queue p k)"
  by (simp add: window_codes_def)

lemma count_retired:
  assumes "window_codes log Q p K ws outs" and "k \<in> K"
  shows "length (filter (\<lambda>(r, k', c). k' = k \<and> live fa k r) (items outs)) = retired fa outs (length (queue p k)) k"
proof -
  have "{r. r < length outs \<and> k \<in> fst ` set (outs ! r) \<and> live fa k r} = {..<retired fa outs (length (queue p k)) k}"
  proof -
    have "{r. r < length outs \<and> k \<in> fst ` set (outs ! r) \<and> live fa k r} =
        {r. r < length outs \<and> r < length (queue p k) \<and> live fa k r}"
      by (rule Collect_cong) (use window_codes_keys [OF assms(1)] assms(2) in blast)
    also have "\<dots> = {..<retired fa outs (length (queue p k)) k}"
      unfolding live_def retired_def by (auto split: option.splits)
    finally show ?thesis .
  qed
  then show ?thesis
    using assms(1) count_items [of outs k "live fa k"] by (simp add: window_codes_def)
qed

lemma count_unrouted:
  assumes "window_codes log Q p K ws outs" and "k \<notin> K"
  shows "length (filter (\<lambda>(r, k', c). k' = k \<and> live fa k r) (items outs)) = 0"
proof -
  have "k' \<noteq> k" if "(r, k', c) \<in> set (items outs)" for r k' c
  proof -
    have "r < length outs" "k' \<in> fst ` set (outs ! r)" using that by (force simp: items_mem)+
    with assms show ?thesis by (auto simp: window_codes_def)
  qed
  then show ?thesis by (auto simp: filter_empty_conv)
qed

section \<open>One turn of the retry loop\<close>

lemma bt_get_filter:
  "bt_wf m \<Longrightarrow> bt_get (filter (\<lambda>(k, v). P v) m) k =
     (case bt_get m k of None \<Rightarrow> None | Some v \<Rightarrow> if P v then Some v else None)"
proof (induction m)
  case (Cons x m)
  obtain k0 v0 where x: "x = (k0, v0)" by (cases x)
  have "bt_get m k0 = None" and "bt_wf m"
    using Cons.prems by (auto simp: x bt_wf_Cons bt_get_def map_of_eq_None_iff)
  then show ?case using Cons.IH by (auto simp: x bt_get_def split: option.splits)
qed simp

lemma queue_drop_empty: "bt_wf (pd_pending p) \<Longrightarrow> queue (drop_empty p) k = queue p k"
  by (auto simp: queue_def drop_empty_def bt_get_filter split: option.splits)

lemma drop_empty_wf: "bt_wf (pd_pending p) \<Longrightarrow> bt_wf (pd_pending (drop_empty p))"
  by (simp add: drop_empty_def)

lemma drop_empty_same [simp]:
  "pd_cluster (drop_empty p) = pd_cluster p" "pd_state (drop_empty p) = pd_state p"
  "pd_max_in_flight (drop_empty p) = pd_max_in_flight p"
  by (simp_all add: drop_empty_def)

lemma queue_pending: "pd_pending p' = pd_pending p \<Longrightarrow> queue p' = queue p"
  by (simp add: queue_def fun_eq_iff)

lemma routed_entry:
  "bt_wf bb \<Longrightarrow> mset (routed (bt_entry a [] (\<lambda>ks. ks @ [x]) bb)) = add_mset x (mset (routed bb))"
proof (induction bb)
  case (Cons e bb)
  obtain b ks where e: "e = (b, ks)" by (cases e)
  have wf: "bt_wf bb" "\<forall>q\<in>fst ` set bb. b < q" using Cons.prems by (simp_all add: e bt_wf_Cons)
  show ?case
  proof (cases a b rule: linorder_cases)
    case less
    then have "bt_get bb a = None" using wf(2) by (force simp: bt_get_def map_of_eq_None_iff)
    moreover have "a \<noteq> b" using less by simp
    ultimately show ?thesis using less by (simp add: bt_entry_def e bt_get_def routed_def)
  next
    case equal
    then show ?thesis by (simp add: bt_entry_def e bt_get_def routed_def)
  next
    case greater
    then have "bt_entry a [] (\<lambda>ks. ks @ [x]) (e # bb) = e # bt_entry a [] (\<lambda>ks. ks @ [x]) bb"
      by (auto simp: bt_entry_def e bt_get_def)
    with Cons.IH [OF wf(1)] show ?thesis by (simp add: routed_def)
  qed
qed (simp add: bt_entry_def routed_def)

lemma route_routes:
  assumes "pipelined outst log Q ops" and "route ops p keys bb un = (res, p')"
  shows "only_cluster_differs p p' \<and> quiet outst log (pd_cluster p) (pd_cluster p') \<and>
    (\<forall>bb' un'. bt_wf bb \<longrightarrow> res = Inr (bb', un') \<longrightarrow> bt_wf bb' \<and> mset (routed bb') \<subseteq># mset (routed bb) + mset keys)"
  using assms(2)
proof (induction keys arbitrary: p bb un)
  case Nil
  then show ?case by (auto simp: only_cluster_differs_def)
next
  case (Cons key keys)
  obtain r w where r: "leader_addr ops (pd_cluster p) (fst key) (snd key) = (r, w)" by fastforce
  have q: "quiet outst log (pd_cluster p) w" using assms(1) r unfolding pipelined_def by (metis snd_conv)
  have d: "only_cluster_differs p (p\<lparr>pd_cluster := w\<rparr>)" by (simp add: only_cluster_differs_def)
  consider a where "r = Inr a" | t i where "r = Inl (NoLeader t i)" | e where "r = Inl e" "\<forall>t i. e \<noteq> NoLeader t i"
    by (metis sum.exhaust)
  then show ?case
  proof cases
    case 1
    then have "route ops (p\<lparr>pd_cluster := w\<rparr>) keys (bt_entry a [] (\<lambda>ks. ks @ [key]) bb) un = (res, p')"
      using Cons.prems r by simp
    note ih = Cons.IH [OF this]
    have q1: "quiet outst log w (pd_cluster p')" using ih by simp
    have "bt_wf bb' \<and> mset (routed bb') \<subseteq># mset (routed bb) + mset (key # keys)"
      if "bt_wf bb" "res = Inr (bb', un')" for bb' un'
      using ih that routed_entry [OF that(1), of a key] by simp
    then show ?thesis
      using only_cluster_differs_trans [OF d conjunct1 [OF ih]] quiet_trans [OF q q1] by blast
  next
    case 2
    then have "route ops (p\<lparr>pd_cluster := w\<rparr>) keys bb True = (res, p')" using Cons.prems r by simp
    note ih = Cons.IH [OF this]
    have q1: "quiet outst log w (pd_cluster p')" using ih by simp
    have "bt_wf bb' \<and> mset (routed bb') \<subseteq># mset (routed bb) + mset (key # keys)"
      if "bt_wf bb" "res = Inr (bb', un')" for bb' un'
    proof -
      have "bt_wf bb' \<and> mset (routed bb') \<subseteq># mset (routed bb) + mset keys" using ih that by simp
      moreover have "mset (routed bb) + mset keys \<subseteq># mset (routed bb) + mset (key # keys)" by simp
      ultimately show ?thesis by (blast intro: subset_mset.order_trans)
    qed
    then show ?thesis
      using only_cluster_differs_trans [OF d conjunct1 [OF ih]] quiet_trans [OF q q1] by blast
  next
    case 3
    then have "(res, p') = (Inl e, p\<lparr>pd_cluster := w\<rparr>)" using Cons.prems r by (cases e) auto
    with q d show ?thesis by simp
  qed
qed

lemma refresh_topics_quiet:
  assumes "pipelined outst log Q ops" and "refresh_topics ops p ts = (res, p')"
  shows "only_cluster_differs p p' \<and> quiet outst log (pd_cluster p) (pd_cluster p')"
  using assms(2)
proof (induction ts arbitrary: p)
  case (Cons t ts)
  obtain r w where r: "refresh_metadata ops (pd_cluster p) t = (r, w)" by fastforce
  have q: "quiet outst log (pd_cluster p) w" using assms(1) r unfolding pipelined_def by (metis snd_conv)
  have d: "only_cluster_differs p (p\<lparr>pd_cluster := w\<rparr>)" by (simp add: only_cluster_differs_def)
  show ?case
  proof (cases r)
    case (Inr u)
    then have "refresh_topics ops (p\<lparr>pd_cluster := w\<rparr>) ts = (res, p')" using Cons.prems r by simp
    from Cons.IH [OF this] q d show ?thesis by (auto intro: quiet_trans only_cluster_differs_trans)
  qed (use Cons.prems r q d in auto)
qed (simp add: only_cluster_differs_def)

lemma wait_retry_quiet:
  assumes "pipelined outst log Q ops"
  shows "only_cluster_differs p (wait_retry ops p n) \<and> quiet outst log (pd_cluster p) (pd_cluster (wait_retry ops p n))"
  using assms by (simp add: wait_retry_def only_cluster_differs_def backoff_def pipelined_def)

text \<open>Whatever left the queues is in the logs.\<close>

definition retires_written :: "('w \<Rightarrow> partition_key \<Rightarrow> bytes set) \<Rightarrow> 'w producer \<Rightarrow> 'w producer \<Rightarrow> bool" where
  "retires_written log p p' \<longleftrightarrow>
     log_le log (pd_cluster p) (pd_cluster p') \<and>
     (\<forall>k. \<exists>n. queue p' k = drop n (queue p k) \<and> set (take n (queue p k)) \<subseteq> log (pd_cluster p') k)"

lemma retires_written_same:
  "log_le log (pd_cluster p) (pd_cluster p') \<Longrightarrow> queue p' = queue p \<Longrightarrow> retires_written log p p'"
  unfolding retires_written_def by (metis drop_0 empty_subsetI list.set(1) take0)

lemma retires_written_trans:
  assumes "retires_written log p p1" and "retires_written log p1 p2"
  shows "retires_written log p p2"
  unfolding retires_written_def
proof (intro conjI allI)
  show "log_le log (pd_cluster p) (pd_cluster p2)" using assms by (auto simp: retires_written_def intro: log_le_trans)
  fix k
  obtain n1 where n1: "queue p1 k = drop n1 (queue p k)" "set (take n1 (queue p k)) \<subseteq> log (pd_cluster p1) k"
    using assms(1) unfolding retires_written_def by blast
  obtain n2 where n2: "queue p2 k = drop n2 (queue p1 k)" "set (take n2 (queue p1 k)) \<subseteq> log (pd_cluster p2) k"
    using assms(2) unfolding retires_written_def by blast
  have "log (pd_cluster p1) k \<subseteq> log (pd_cluster p2) k" using assms(2) by (simp add: retires_written_def log_le_def)
  moreover have "take (n1 + n2) (queue p k) = take n1 (queue p k) @ take n2 (drop n1 (queue p k))"
    by (rule take_add)
  ultimately have "set (take (n1 + n2) (queue p k)) \<subseteq> log (pd_cluster p2) k" using n1 n2 by auto
  moreover have "queue p2 k = drop (n1 + n2) (queue p k)" using n1(1) n2(1) by (simp add: add.commute)
  ultimately show "\<exists>n. queue p2 k = drop n (queue p k) \<and> set (take n (queue p k)) \<subseteq> log (pd_cluster p2) k" by blast
qed

text \<open>A response that is good for an answer: what it calls written is in the log.\<close>

definition answered :: "('w \<Rightarrow> partition_key \<Rightarrow> bytes set) \<Rightarrow> 'w \<Rightarrow> produce_request \<Rightarrow> produce_response \<Rightarrow> bool" where
  "answered log w rq resp \<longleftrightarrow> covers rq resp \<and>
     (\<forall>(k, c)\<in>set (response_codes resp). is_ok c \<longrightarrow> (\<forall>b. (k, b) \<in> set (request_items rq) \<longrightarrow> b \<in> log w k))"

lemma answered_written:
  "answered log w rq resp \<Longrightarrow> (k, c) \<in> set (response_codes resp) \<Longrightarrow> is_ok c \<Longrightarrow>
     (k, b) \<in> set (request_items rq) \<Longrightarrow> b \<in> log w k"
  unfolding answered_def by blast

lemma window_codes_answer:
  assumes "window_codes log Q p K ws outs" and "r < length outs" and "(k, c) \<in> set (outs ! r)"
  shows "\<exists>rq resp. Q (ws ! r) rq resp \<and> (k, c) \<in> set (response_codes resp) \<and> (k, queue p k ! r) \<in> set (request_items rq)"
  using assms unfolding window_codes_def by blast

lemma window_retires_written:
  assumes "window_codes log Q p K ws outs" and "\<And>w rq resp. Q w rq resp \<Longrightarrow> answered log w rq resp"
    and "\<forall>k. bt_get fa k = map_of (failures (items outs)) k" and "\<forall>x\<in>set ws. log_le log x w'" 
    and "n = length (filter (\<lambda>(r, k', c). k' = k \<and> live fa k r) (items outs))"
  shows "set (take n (queue p k)) \<subseteq> log w' k"
proof
  fix b assume b: "b \<in> set (take n (queue p k))"
  then have k: "k \<in> K" using count_unrouted [OF assms(1), of k fa] assms(5) by force
  with count_retired [OF assms(1) k] assms(5) have n: "n = retired fa outs (length (queue p k)) k" by simp
  obtain r where r: "r < n" "r < length (queue p k)" "b = queue p k ! r"
    using b by (auto simp: in_set_conv_nth)
  then have "r < length outs" and lv: "live fa k r" using n by (auto simp: retired_def live_def split: option.splits)
  then obtain c where c: "(k, c) \<in> set (outs ! r)"
    using window_codes_keys [OF assms(1), of r k] k r(2) by auto
  have ok: "is_ok c" using live_code_ok assms(3) lv \<open>r < length outs\<close> c by metis
  obtain rq resp where "Q (ws ! r) rq resp" "(k, c) \<in> set (response_codes resp)"
    "(k, queue p k ! r) \<in> set (request_items rq)"
    using window_codes_answer [OF assms(1) \<open>r < length outs\<close> c] by blast
  with answered_written [OF assms(2) _ ok] r(3) have "b \<in> log (ws ! r) k" by blast
  moreover have "ws ! r \<in> set ws" using assms(1) \<open>r < length outs\<close> by (simp add: window_codes_def)
  ultimately show "b \<in> log w' k" using assms(4) by (auto simp: log_le_def)
qed


fun turn_producer :: "'w turn \<Rightarrow> 'w producer" where
  "turn_producer (Done r p) = p"
| "turn_producer (Again out p) = p"

text \<open>The first bad code of a partition, with nothing failed before it, is a fatal one.\<close>

definition fatal_first ::
  "('w \<Rightarrow> partition_key \<Rightarrow> bytes set) \<Rightarrow> ('w \<Rightarrow> produce_request \<Rightarrow> produce_response \<Rightarrow> bool) \<Rightarrow> 'w producer \<Rightarrow> bool" where
  "fatal_first log Q p \<longleftrightarrow> (\<exists>K ws outs r k c.
     window_codes log Q p K ws outs \<and> (\<forall>x\<in>set ws. log_le log (pd_cluster p) x) \<and>
     r < length outs \<and> (k, c) \<in> set (outs ! r) \<and> \<not> is_ok c \<and> disposition_of c \<notin> {Retry, RefreshMetadata} \<and>
     (\<forall>r'<r. \<forall>c'. (k, c') \<in> set (outs ! r') \<longrightarrow> is_ok c'))"

definition turn_end :: "('w \<Rightarrow> string \<Rightarrow> produce_request list) \<Rightarrow> 'w turn \<Rightarrow> bool" where
  "turn_end outst t =
     (case t of
        Done (Inr out) p \<Rightarrow> pd_pending p = []
      | Done (Inl f) p \<Rightarrow> f \<noteq> Panicked
      | Again out p \<Rightarrow> idle outst (pd_cluster p) \<and> pd_pending p \<noteq> [])"

definition one_window :: "'w producer \<Rightarrow> 'w producer \<Rightarrow> bool" where
  "one_window p p' \<longleftrightarrow> pd_max_in_flight p' = pd_max_in_flight p \<and>
     (\<forall>k. \<exists>n\<le>pd_max_in_flight p. queue p' k = drop n (queue p k))"

lemma one_window_same: "pd_max_in_flight p' = pd_max_in_flight p \<Longrightarrow> queue p' = queue p \<Longrightarrow> one_window p p'"
  unfolding one_window_def by (metis drop_0 le0)

definition turn_ok ::
  "('w \<Rightarrow> string \<Rightarrow> produce_request list) \<Rightarrow> ('w \<Rightarrow> partition_key \<Rightarrow> bytes set) \<Rightarrow>
   ('w \<Rightarrow> produce_request \<Rightarrow> produce_response \<Rightarrow> bool) \<Rightarrow> 'w producer \<Rightarrow> 'w turn \<Rightarrow> bool" where
  "turn_ok outst log Q p t \<longleftrightarrow>
     retires_written log p (turn_producer t) \<and> one_window p (turn_producer t) \<and> bt_wf (pd_pending (turn_producer t)) \<and>
     (pd_state (turn_producer t) = pd_state p \<or> fatal_first log Q p) \<and> turn_end outst t"

lemma window_codes_queue: "queue p' = queue p \<Longrightarrow> window_codes log Q p' = window_codes log Q p"
  by (simp add: window_codes_def fun_eq_iff)

lemma fatal_first_mono:
  "fatal_first log Q p' \<Longrightarrow> queue p' = queue p \<Longrightarrow> log_le log (pd_cluster p) (pd_cluster p') \<Longrightarrow> fatal_first log Q p"
  unfolding fatal_first_def window_codes_queue [of p' p] by (blast intro: log_le_trans)

lemma turn_ok_later:
  assumes "turn_ok outst log Q p1 t" and "queue p1 = queue p" and "log_le log (pd_cluster p) (pd_cluster p1)"
    and "pd_state p1 = pd_state p" and "pd_max_in_flight p1 = pd_max_in_flight p"
  shows "turn_ok outst log Q p t"
proof -
  have "retires_written log p p1" using assms(2,3) by (rule retires_written_same [rotated])
  moreover have "fatal_first log Q p1 \<Longrightarrow> fatal_first log Q p" by (rule fatal_first_mono [OF _ assms(2,3)])
  moreover have "retires_written log p1 (turn_producer t)" using assms(1) by (simp add: turn_ok_def)
  ultimately show ?thesis
    using assms(1,2,4,5) retires_written_trans [of log p p1 "turn_producer t"]
    by (simp add: turn_ok_def one_window_def) blast
qed

lemma after_window_fatal:
  assumes "pipelined outst log Q ops" and "window_codes log Q p K ws outs"
    and "\<forall>x\<in>set ws. log_le log (pd_cluster p0) x" and "queue p = queue p0"
    and "log_le log (pd_cluster p0) (pd_cluster p)" and "bt_wf (pd_pending p)"
    and "note_outcomes ops outs p = Inl (e, p1)" and "pd_max_in_flight p = pd_max_in_flight p0"
  shows "turn_ok outst log Q p0 (Done (Inl (Failed e)) p1)"
proof -
  from note_items_fatal [OF assms(1) assms(7) [unfolded note_outcomes_items]]
  obtain its1 r k c its2 where f: "items outs = its1 @ (r, k, c) # its2"
      "\<forall>(r', k', c')\<in>set its1. k' = k \<longrightarrow> is_ok c'" "\<not> is_ok c" "disposition_of c \<notin> {Retry, RefreshMetadata}"
      "pd_pending p1 = pd_pending p" "log_le log (pd_cluster p) (pd_cluster p1)"
      "pd_max_in_flight p1 = pd_max_in_flight p"
    by auto
  have mem: "r < length outs" "(k, c) \<in> set (outs ! r)" using items_mem [of r k c outs] f(1) by auto
  have "is_ok c'" if "r' < r" "(k, c') \<in> set (outs ! r')" for r' c'
  proof -
    have "(r', k, c') \<in> set (items outs)" using that mem(1) by (simp add: items_mem)
    moreover have "(r', k, c') \<notin> set ((r, k, c) # its2)"
      using items_sorted [of outs] that(1) by (force simp: f(1) sorted_append)
    ultimately have "(r', k, c') \<in> set its1" by (auto simp: f(1))
    with f(2) show ?thesis by blast
  qed
  then have "fatal_first log Q p0"
    unfolding fatal_first_def using assms(2,3) mem f(3,4) window_codes_queue [OF assms(4), of log Q] by metis
  moreover have "retires_written log p0 p1"
    using retires_written_same [of log p0 p1] queue_pending [OF f(5)] assms(4,5) f(6) log_le_trans by metis
  moreover have "one_window p0 p1"
    using one_window_same [of p1 p0] queue_pending [OF f(5)] assms(4,8) f(7) by simp
  ultimately show ?thesis using f(5) assms(6) by (simp add: turn_ok_def turn_end_def)
qed

lemma after_window_retires:
  assumes "pipelined outst log Q ops" and "\<And>w rq resp. Q w rq resp \<Longrightarrow> answered log w rq resp"
    and "window_codes log Q p K ws outs" and "\<forall>x\<in>set ws. log_le log x (pd_cluster p)"
    and "bt_wf (pd_pending p)" and "note_outcomes ops outs p = Inr v"
    and "retire (vd_failed_at v) outs (vd_producer v, out) = (p1, out1)" and "p2 = drop_empty (p1\<lparr>pd_offsets := []\<rparr>)"
  shows "retires_written log p p2 \<and> bt_wf (pd_pending p2) \<and> pd_state p2 = pd_state p \<and>
    pd_max_in_flight p2 = pd_max_in_flight p \<and> quiet outst log (pd_cluster p) (pd_cluster p2) \<and>
    (\<forall>k. queue p2 k = drop (length (filter (\<lambda>(r, k', c). k' = k \<and> live (vd_failed_at v) k r) (items outs))) (queue p k))"
proof -
  note noted = note_items_ok [OF assms(1) assms(6) [unfolded note_outcomes_items], simplified]
  then have v: "only_cluster_differs p (vd_producer v)" "quiet outst log (pd_cluster p) (pd_cluster (vd_producer v))"
    and fa: "\<forall>x. bt_get (vd_failed_at v) x = map_of (failures (items outs)) x" by auto
  note ret = retire_fold_queue [OF assms(7) [unfolded retire_items]]
  have wf: "bt_wf (pd_pending p1)" using ret only_cluster_differsD [OF v(1)] assms(5) by simp
  have cl: "pd_cluster p2 = pd_cluster (vd_producer v)" "pd_state p2 = pd_state p" "pd_max_in_flight p2 = pd_max_in_flight p"
  proof -
    obtain m where "p1 = (vd_producer v)\<lparr>pd_pending := m\<rparr>" using ret by blast
    then show "pd_cluster p2 = pd_cluster (vd_producer v)" "pd_state p2 = pd_state p" "pd_max_in_flight p2 = pd_max_in_flight p"
      using only_cluster_differsD [OF v(1)] by (simp_all add: assms(8))
  qed
  have q2: "queue p2 k = queue p1 k" for k
    using queue_drop_empty [of "p1\<lparr>pd_offsets := []\<rparr>" k] wf queue_pending [of "p1\<lparr>pd_offsets := []\<rparr>" p1]
    by (simp add: assms(8))
  have q: "queue p2 k = drop (length (filter (\<lambda>(r, k', c). k' = k \<and> live (vd_failed_at v) k r) (items outs))) (queue p k)" for k
    using ret [of k] q2 queue_pending only_cluster_differsD [OF v(1)] by metis
  have "log_le log x (pd_cluster p2)" if "x \<in> set ws" for x
    using that assms(4) v(2) cl(1) by (auto simp: quiet_def intro: log_le_trans)
  then have "set (take (length (filter (\<lambda>(r, k', c). k' = k \<and> live (vd_failed_at v) k r) (items outs))) (queue p k))
      \<subseteq> log (pd_cluster p2) k" for k
    using window_retires_written [OF assms(3,2) fa, of "pd_cluster p2" _ k] by blast
  then have "retires_written log p p2" using q v(2) cl(1) unfolding retires_written_def quiet_def by metis
  moreover have "bt_wf (pd_pending p2)" using wf by (simp add: assms(8) drop_empty_wf)
  ultimately show ?thesis using q cl v(2) by simp
qed

lemma after_window_ok:
  assumes "pipelined outst log Q ops" and "\<And>w rq resp. Q w rq resp \<Longrightarrow> answered log w rq resp"
    and "window_codes log Q p K ws outs" and "\<forall>x\<in>set ws. log_le log (pd_cluster p0) x \<and> log_le log x (pd_cluster p)"
    and "queue p = queue p0" and "pd_state p = pd_state p0" and "log_le log (pd_cluster p0) (pd_cluster p)"
    and "idle outst (pd_cluster p)" and "bt_wf (pd_pending p)"
    and "pd_max_in_flight p = pd_max_in_flight p0" and "length outs \<le> pd_max_in_flight p0"
  shows "turn_ok outst log Q p0 (after_window ops attempt outs out p)"
proof (cases "note_outcomes ops outs p")
  case (Inl ep)
  then show ?thesis
    using after_window_fatal [OF assms(1,3) _ assms(5,7,9), of "fst ep" "snd ep"] assms(4,10)
    by (cases ep) (simp add: after_window_def)
next
  case (Inr v)
  obtain p1 out1 where ret: "retire (vd_failed_at v) outs (vd_producer v, out) = (p1, out1)" by fastforce
  define p2 where "p2 = drop_empty (p1\<lparr>pd_offsets := []\<rparr>)"
  have le: "\<forall>x\<in>set ws. log_le log x (pd_cluster p)" using assms(4) by blast
  have ret2: "retires_written log p p2 \<and> bt_wf (pd_pending p2) \<and> pd_state p2 = pd_state p \<and>
    pd_max_in_flight p2 = pd_max_in_flight p \<and> quiet outst log (pd_cluster p) (pd_cluster p2) \<and>
    (\<forall>k. queue p2 k = drop (length (filter (\<lambda>(r, k', c). k' = k \<and> live (vd_failed_at v) k r) (items outs))) (queue p k))"
    by (rule after_window_retires [OF assms(1,2,3) le assms(9) Inr ret p2_def])
  then have p2: "retires_written log p p2" "bt_wf (pd_pending p2)" "pd_state p2 = pd_state p0"
    "quiet outst log (pd_cluster p) (pd_cluster p2)" "pd_max_in_flight p2 = pd_max_in_flight p0"
    unfolding assms(6,10) by blast+
  from ret2 have q2: "queue p2 k = drop (length (filter (\<lambda>(r, k', c). k' = k \<and> live (vd_failed_at v) k r) (items outs))) (queue p k)" for k
    by blast
  have ow: "one_window p0 p2"
    unfolding one_window_def
  proof (intro conjI allI)
    fix k
    let ?n = "length (filter (\<lambda>(r, k', c). k' = k \<and> live (vd_failed_at v) k r) (items outs))"
    have "?n \<le> length outs"
      using count_retired [OF assms(3), of k "vd_failed_at v"] count_unrouted [OF assms(3), of k "vd_failed_at v"]
      by (cases "k \<in> K") (simp_all add: retired_def)
    then have "?n \<le> pd_max_in_flight p0" using assms(11) by (rule order_trans)
    moreover have "queue p2 k = drop ?n (queue p0 k)" using q2 [of k] unfolding assms(5) .
    ultimately show "\<exists>n\<le>pd_max_in_flight p0. queue p2 k = drop n (queue p0 k)" by blast
  qed (simp add: p2(5))
  have r0: "retires_written log p0 p2"
    using retires_written_trans [OF retires_written_same [OF assms(7,5)] p2(1)] .
  have idle2: "idle outst (pd_cluster p2)" using p2(4) assms(8) by (simp add: quiet_def)
  have later: "turn_ok outst log Q p0 t"
    if d: "only_cluster_differs p2 p'" and q: "quiet outst log (pd_cluster p2) (pd_cluster p')"
      and t: "turn_producer t = p'" "turn_end outst t" for p' t
  proof -
    have same: "pd_pending p' = pd_pending p2" "pd_state p' = pd_state p2" "pd_max_in_flight p' = pd_max_in_flight p2"
      using only_cluster_differsD [OF d] by auto
    moreover have "one_window p0 p'"
      using ow queue_pending [OF same(1)] same(3) by (simp add: one_window_def)
    moreover have "retires_written log p2 p'"
      using q same(1) by (intro retires_written_same queue_pending) (auto simp: quiet_def)
    ultimately show ?thesis using retires_written_trans [OF r0, of p'] p2(2,3) t by (simp add: turn_ok_def)
  qed
  have waited: "turn_ok outst log Q p0 (Again out1 (wait_retry ops p3 attempt))"
    if "only_cluster_differs p2 p3" "quiet outst log (pd_cluster p2) (pd_cluster p3)" "pd_pending p2 \<noteq> []" for p3
  proof -
    note w = wait_retry_quiet [OF assms(1), of p3 attempt]
    have d: "only_cluster_differs p2 (wait_retry ops p3 attempt)" by (rule only_cluster_differs_trans [OF that(1) conjunct1 [OF w]])
    have q: "quiet outst log (pd_cluster p2) (pd_cluster (wait_retry ops p3 attempt))" by (rule quiet_trans [OF that(2) conjunct2 [OF w]])
    show ?thesis
      by (rule later [OF d q]) (use only_cluster_differsD [OF d] that(3) q idle2 in \<open>simp_all add: turn_end_def quiet_def\<close>)
  qed
  have self: "only_cluster_differs p2 p2" by (simp add: only_cluster_differs_def)
  show ?thesis
  proof (cases "pd_pending p2 = [] \<or> \<not> vd_needs_refresh v")
    case True
    then show ?thesis
      using later [OF self quiet_refl, of "Done (Inr (sort out1)) p2"] waited [OF self quiet_refl] Inr ret
      by (cases "pd_pending p2 = []") (simp_all add: after_window_def p2_def [symmetric] turn_end_def)
  next
    case False
    let ?ts = "remdups_adj (sort (map fst (bt_keys (pd_pending p2))))"
    obtain res p3 where rf: "refresh_topics ops p2 ?ts = (res, p3)" by fastforce
    note q3 = refresh_topics_quiet [OF assms(1) rf]
    show ?thesis
    proof (cases res)
      case (Inl e)
      then show ?thesis
        using later [of p3 "Done (Inl (Failed e)) p3"] q3 Inr ret rf False
        by (simp add: after_window_def p2_def [symmetric] turn_end_def)
    next
      case (Inr u)
      then show ?thesis
        using waited [of p3] q3 \<open>note_outcomes ops outs p = Inr v\<close> ret rf False
        by (simp add: after_window_def p2_def [symmetric])
    qed
  qed
qed

definition frame_of :: "'w producer \<Rightarrow> 'w producer \<Rightarrow> bool" where
  "frame_of p p' \<longleftrightarrow> p' = p\<lparr>pd_cluster := pd_cluster p', pd_offsets := pd_offsets p'\<rparr>"

lemma frame_of_refl [simp]: "frame_of p p"
  by (simp add: frame_of_def)

lemma frame_of_trans: "frame_of p p1 \<Longrightarrow> frame_of p1 p2 \<Longrightarrow> frame_of p p2"
  unfolding frame_of_def by (cases p; cases p1; cases p2) simp

lemma frame_ofD: "frame_of p p' \<Longrightarrow> pd_pending p' = pd_pending p \<and> pd_state p' = pd_state p \<and>
    pd_max_in_flight p' = pd_max_in_flight p"
  unfolding frame_of_def by (cases p; cases p') simp

lemma frame_of_cluster [simp]: "frame_of p (p\<lparr>pd_cluster := w\<rparr>)" "frame_of p (p\<lparr>pd_cluster := w, pd_offsets := offs\<rparr>)"
  "frame_of p (p\<lparr>pd_offsets := offs\<rparr>)"
  by (simp_all add: frame_of_def)

lemma collect_rounds_frame:
  assumes "pipelined outst log Q ops" and "collect_rounds ops r rounds p out err = (res, p')"
  shows "frame_of p p' \<and> log_le log (pd_cluster p) (pd_cluster p')"
  using assms(2)
proof (induction rounds arbitrary: r p out err)
  case (Cons sent rounds)
  obtain rs w where rs: "recv_many ops (pd_cluster p) (map fst sent) = (rs, w)" by fastforce
  have le: "log_le log (pd_cluster p) w" using assms(1) rs unfolding pipelined_def by (metis snd_conv)
  obtain codes offs err' where "collect_round r (zip sent rs) ([], pd_offsets p, err) = (codes, offs, err')"
    by (metis surj_pair)
  then have "collect_rounds ops (Suc r) rounds (p\<lparr>pd_cluster := w, pd_offsets := offs\<rparr>) (out @ [codes]) err' = (res, p')"
    using Cons.prems rs by simp
  from Cons.IH [OF this] frame_of_trans [of p "p\<lparr>pd_cluster := w, pd_offsets := offs\<rparr>" p'] log_le_trans [OF le]
  show ?case by simp
qed simp

lemma send_round_frame:
  assumes "pipelined outst log Q ops" and "send_round ops p r bb sent = (res, p')"
  shows "frame_of p p' \<and> log_le log (pd_cluster p) (pd_cluster p')"
  using assms(2)
proof (induction bb arbitrary: p sent)
  case (Cons b bb)
  obtain a keys where b: "b = (a, keys)" by (cases b)
  obtain x w where s: "send_at ops (pd_cluster p) a (produce_request_for p (taking p r keys) r) = (x, w)" by fastforce
  have le: "log_le log (pd_cluster p) w" using assms(1) s unfolding pipelined_def sends_def by (metis snd_conv)
  consider "taking p r keys = []" | e where "taking p r keys \<noteq> []" "x = Inl e" | u where "taking p r keys \<noteq> []" "x = Inr u"
    by (cases x) auto
  then show ?case
  proof cases
    case 1
    then show ?thesis using Cons.IH Cons.prems by (simp add: b)
  next
    case 2
    then show ?thesis using Cons.prems s le by (auto simp: b)
  next
    case 3
    then have "send_round ops (p\<lparr>pd_cluster := w\<rparr>) r bb (sent @ [(a, taking p r keys)]) = (res, p')"
      using Cons.prems s by (simp add: b)
    from Cons.IH [OF this] frame_of_trans [of p "p\<lparr>pd_cluster := w\<rparr>" p'] log_le_trans [OF le] show ?thesis by simp
  qed
qed simp

lemma send_rounds_frame:
  assumes "pipelined outst log Q ops" and "send_rounds ops p bb rs rounds = (res, p')"
  shows "frame_of p p' \<and> log_le log (pd_cluster p) (pd_cluster p')"
  using assms(2)
proof (induction rs arbitrary: p rounds)
  case (Cons r rs)
  obtain e sent p1 where s: "send_round ops p r bb [] = ((e, sent), p1)" by (metis surj_pair)
  note p1 = send_round_frame [OF assms(1) s]
  consider x where "e = Some x" | "e = None" "sent = []" | "e = None" "sent \<noteq> []" by auto
  then show ?case
  proof cases
    case 1
    then have "p' = snd (collect_window ops p1 (rounds @ [sent]))" using Cons.prems s by simp
    then have "collect_rounds ops 0 (rounds @ [sent]) p1 [] None = (fst (collect_window ops p1 (rounds @ [sent])), p')"
      by (simp add: collect_window_def)
    from collect_rounds_frame [OF assms(1) this] p1 show ?thesis by (blast intro: frame_of_trans log_le_trans)
  next
    case 2
    then show ?thesis using Cons.prems s p1 by simp
  next
    case 3
    then have "send_rounds ops p1 bb rs (rounds @ [sent]) = (res, p')" using Cons.prems s by simp
    from Cons.IH [OF this] p1 show ?thesis by (blast intro: frame_of_trans log_le_trans)
  qed
qed simp

lemma distinct_submset:
  assumes "mset xs \<subseteq># mset ys" and "distinct ys"
  shows "distinct xs"
proof -
  obtain Z where "mset ys = mset xs + Z" using assms(1) by (auto simp: mset_subset_eq_exists_conv)
  moreover obtain zs where "Z = mset zs" by (metis ex_mset)
  ultimately have "mset ys = mset (xs @ zs)" by simp
  then show ?thesis using assms(2) by (metis distinct_append mset_eq_imp_distinct_iff)
qed

lemma turn_ok_frame:
  assumes "frame_of p p'" and "log_le log (pd_cluster p) (pd_cluster p')" and "bt_wf (pd_pending p)"
    and "turn_producer t = p'" and "turn_end outst t"
  shows "turn_ok outst log Q p t"
proof -
  have same: "pd_pending p' = pd_pending p" "pd_state p' = pd_state p" "pd_max_in_flight p' = pd_max_in_flight p"
    using frame_ofD [OF assms(1)] by auto
  then show ?thesis
    using retires_written_same [OF assms(2) queue_pending [OF same(1)]] one_window_same [OF same(3) queue_pending [OF same(1)]]
      assms(3-5) by (simp add: turn_ok_def)
qed

lemma only_cluster_frame: "only_cluster_differs p p' \<Longrightarrow> frame_of p p'"
  unfolding only_cluster_differs_def frame_of_def by (cases p; cases p') simp

lemma turn_wait:
  assumes "pipelined outst log Q ops" and "frame_of p p1" and "log_le log (pd_cluster p) (pd_cluster p1)"
    and "bt_wf (pd_pending p)" and "pd_pending p \<noteq> []" and "idle outst (pd_cluster p1)"
  shows "turn_ok outst log Q p (Again out (wait_retry ops p1 n))"
proof -
  note w = wait_retry_quiet [OF assms(1), of p1 n]
  have f: "frame_of p (wait_retry ops p1 n)"
    using frame_of_trans [OF assms(2) only_cluster_frame] w by blast
  have le: "log_le log (pd_cluster p) (pd_cluster (wait_retry ops p1 n))"
    using log_le_trans [OF assms(3)] w by (simp add: quiet_def)
  show ?thesis
    by (rule turn_ok_frame [OF f le assms(4)])
       (use frame_ofD [OF f] assms(5,6) w in \<open>simp_all add: turn_end_def quiet_def\<close>)
qed

lemma no_leader_not_panicked: "pd_pending p \<noteq> [] \<Longrightarrow> no_leader_error p \<noteq> Panicked"
  by (cases "pd_pending p") (auto simp: no_leader_error_def bt_keys_def)

text \<open>The turn from the routed producer on: window, then verdict.\<close>

definition window_turn :: "'w cluster_ops \<Rightarrow> nat \<Rightarrow> written \<Rightarrow> (string \<times> partition_key list) list \<Rightarrow> 'w producer \<Rightarrow> 'w turn" where
  "window_turn ops attempt out bb p1 =
     (case send_window ops p1 bb (window_depth p1 bb) of
        (Inl e, p2) \<Rightarrow> Done (Inl (Failed e)) p2
      | (Inr rounds, p2) \<Rightarrow>
          (case collect_window ops p2 rounds of
             ((outs, Some e), p3) \<Rightarrow>
               (let p4 = p3\<lparr>pd_offsets := []\<rparr>
                in case e of
                     Io _ \<Rightarrow> if attempt + 1 < MAX_RETRIES then Again out (wait_retry ops p4 attempt)
                             else Done (Inl (Failed e)) p4
                   | _ \<Rightarrow> Done (Inl (Failed e)) p4)
           | ((outs, None), p3) \<Rightarrow> after_window ops attempt outs out p3))"

lemma flush_turn_window:
  "flush_turn ops attempt out p0 =
     (let p = drop_empty p0
      in if pd_pending p = [] then Done (Inr (sort out)) p
         else case route ops p (bt_keys (pd_pending p)) [] False of
                (Inl e, p1) \<Rightarrow> Done (Inl (Failed e)) p1
              | (Inr (by_broker, unroutable), p1) \<Rightarrow>
                  if by_broker = []
                  then (if \<not> unroutable \<or> attempt + 1 = MAX_RETRIES then Done (Inl (no_leader_error p1)) p1
                        else Again out (wait_retry ops p1 attempt))
                  else window_turn ops attempt out by_broker p1)"
  unfolding flush_turn_def window_turn_def by (simp cong: if_cong)

lemma window_turn_ok:
  assumes "pipelined outst log Q ops" and "\<And>w rq resp. Q w rq resp \<Longrightarrow> answered log w rq resp"
    and "bt_wf bb" and "distinct (routed bb)" and "idle outst (pd_cluster p)" and "bt_wf (pd_pending p)" and "pd_pending p \<noteq> []"
  shows "turn_ok outst log Q p (window_turn ops attempt out bb p)"
proof -
  obtain res p2 where s: "send_window ops p bb (window_depth p bb) = (res, p2)" by fastforce
  show ?thesis
  proof (cases res)
    case (Inl e)
    from send_rounds_frame [OF assms(1) s [unfolded send_window_def]]
    show ?thesis using Inl s turn_ok_frame [of p p2 log "Done (Inl (Failed e)) p2"] assms(6)
      by (simp add: window_turn_def turn_end_def)
  next
    case (Inr rounds)
    obtain outs e p3 where c: "collect_window ops p2 rounds = ((outs, e), p3)" by (metis surj_pair)
    from window_exchange [OF assms(1,3,5) s [unfolded Inr] c]
    have p3: "frame_of p p3" "idle outst (pd_cluster p3)" "log_le log (pd_cluster p) (pd_cluster p3)"
      and clean: "e = None \<Longrightarrow> \<exists>d w1. d \<le> window_depth p bb \<and> log_le log (pd_cluster p) w1 \<and>
        window_answers log Q p 0 w1 (map (targets p bb) [0..<d]) outs (pd_cluster p3)"
      by (auto simp: frame_of_def)
    show ?thesis
    proof (cases e)
      case (Some x)
      let ?p4 = "p3\<lparr>pd_offsets := []\<rparr>"
      have f4: "frame_of p ?p4" by (rule frame_of_trans [OF p3(1)]) simp
      have stop: "turn_ok outst log Q p (Done (Inl (Failed x)) ?p4)"
        using turn_ok_frame [OF f4] p3(3) assms(6) by (simp add: turn_end_def)
      have again: "turn_ok outst log Q p (Again out (wait_retry ops ?p4 attempt))"
        using turn_wait [OF assms(1) f4] p3 assms(6,7) by simp
      show ?thesis using stop again s c Inr Some by (cases x) (simp_all add: window_turn_def Let_def)
    next
      case None
      then obtain d w1 where d: "d \<le> window_depth p bb" and a: "log_le log (pd_cluster p) w1"
        "window_answers log Q p 0 w1 (map (targets p bb) [0..<d]) outs (pd_cluster p3)" using clean by blast
      have cov: "\<And>w rq resp. Q w rq resp \<Longrightarrow> covers rq resp" using assms(2) by (simp add: answered_def)
      obtain ws
        where ws: "window_codes log Q p (set (routed bb)) ws outs" "\<forall>x\<in>set ws. log_le log w1 x \<and> log_le log x (pd_cluster p3)"
          and len: "length outs = d"
        using window_answers_codes [OF a(2) assms(4)] cov by blast
      have q: "queue p3 = queue p" using queue_pending frame_ofD [OF p3(1)] by blast
      have "window_depth p bb \<le> pd_max_in_flight p" by (simp add: window_depth_def Let_def)
      have "turn_ok outst log Q p (after_window ops attempt outs out p3)"
        by (rule after_window_ok [OF assms(1,2) ws(1) [folded window_codes_queue [OF q, of log Q]] _ q])
           (use ws(2) a(1) p3 frame_ofD [OF p3(1)] assms(6) d len \<open>window_depth p bb \<le> pd_max_in_flight p\<close>
             in \<open>auto intro: log_le_trans\<close>)
      then show ?thesis using s c Inr None by (simp add: window_turn_def)
    qed
  qed
qed

lemma flush_turn_ok:
  assumes "pipelined outst log Q ops" and "\<And>w rq resp. Q w rq resp \<Longrightarrow> answered log w rq resp"
    and "idle outst (pd_cluster p)" and "bt_wf (pd_pending p)"
  shows "turn_ok outst log Q p (flush_turn ops attempt out p)"
proof -
  let ?p = "drop_empty p"
  have q: "queue ?p = queue p" using queue_drop_empty [OF assms(4)] by (simp add: fun_eq_iff)
  have wf: "bt_wf (pd_pending ?p)" by (rule drop_empty_wf [OF assms(4)])
  have "turn_ok outst log Q ?p (flush_turn ops attempt out p)"
  proof (cases "pd_pending ?p = []")
    case True
    then show ?thesis using turn_ok_frame [of ?p ?p log] by (simp add: flush_turn_window turn_end_def)
  next
    case False
    obtain res p1 where r: "route ops ?p (bt_keys (pd_pending ?p)) [] False = (res, p1)" by fastforce
    note rt = route_routes [OF assms(1) r]
    have p1: "frame_of ?p p1" "log_le log (pd_cluster ?p) (pd_cluster p1)" "idle outst (pd_cluster p1)"
      using rt only_cluster_frame assms(3) by (auto simp: quiet_def)
    have pend: "pd_pending p1 = pd_pending ?p" "pd_state p1 = pd_state ?p" "pd_max_in_flight p1 = pd_max_in_flight ?p" using frame_ofD [OF p1(1)] by auto
    show ?thesis
    proof (cases res)
      case (Inl e)
      then show ?thesis using turn_ok_frame [OF p1(1,2) wf, of "Done (Inl (Failed e)) p1"] r False
        by (simp add: flush_turn_window turn_end_def)
    next
      case (Inr bu)
      obtain bb un where bu: "bu = (bb, un)" by (cases bu)
      have bb: "bt_wf bb" "mset (routed bb) \<subseteq># mset (bt_keys (pd_pending ?p))"
        using rt Inr bu by (auto simp: routed_def)
      have stop: "turn_ok outst log Q ?p (Done (Inl (no_leader_error p1)) p1)"
        using turn_ok_frame [OF p1(1,2) wf] no_leader_not_panicked [of p1] pend False by (simp add: turn_end_def)
      have again: "turn_ok outst log Q ?p (Again out (wait_retry ops p1 attempt))"
        by (rule turn_wait [OF assms(1) p1(1,2) wf False p1(3)])
      have "turn_ok outst log Q p1 (window_turn ops attempt out bb p1)"
        using window_turn_ok [OF assms(1,2) bb(1) distinct_submset [OF bb(2) bt_wf_distinct [OF wf]] p1(3)] pend wf False by simp
      then have "turn_ok outst log Q ?p (window_turn ops attempt out bb p1)"
        using turn_ok_later queue_pending [OF pend(1)] p1(2) pend(2,3) by blast
      then show ?thesis using stop again r Inr bu False by (simp add: flush_turn_window)
    qed
  qed
  then show ?thesis using turn_ok_later [of outst log Q ?p _ p] q by simp
qed

section \<open>Flushing\<close>

lemma flush_loop_ok:
  assumes "pipelined outst log Q ops" and "\<And>w rq resp. Q w rq resp \<Longrightarrow> answered log w rq resp"
    and "idle outst (pd_cluster p)" and "bt_wf (pd_pending p)" and "attempts = [] \<longrightarrow> pd_pending p \<noteq> []"
    and "flush_loop ops attempts out p = (res, p')"
  shows "retires_written log p p' \<and> res \<noteq> Inl Panicked \<and> (\<forall>ws. res = Inr ws \<longrightarrow> pd_pending p' = [])"
  using assms(3-6)
proof (induction attempts arbitrary: p out)
  case Nil
  then show ?case using no_leader_not_panicked [of p] retires_written_same [of log p p] by auto
next
  case (Cons a attempts)
  note turn = flush_turn_ok [OF assms(1,2) Cons.prems(1,2), of a out]
  show ?case
  proof (cases "flush_turn ops a out p")
    case (Done r p1)
    then show ?thesis using Cons.prems(4) turn by (cases res) (auto simp: turn_ok_def turn_end_def)
  next
    case (Again out1 p1)
    then have t: "retires_written log p p1" "bt_wf (pd_pending p1)" "idle outst (pd_cluster p1)" "pd_pending p1 \<noteq> []"
      using turn by (auto simp: turn_ok_def turn_end_def)
    have "flush_loop ops attempts out1 p1 = (res, p')" using Cons.prems(4) Again by simp
    from Cons.IH [OF t(3,2) _ this] t(1,4) retires_written_trans [of log p p1 p'] show ?thesis by blast
  qed
qed


lemma flush_pending_ok:
  assumes "pipelined outst log (answered log) ops" and "idle outst (pd_cluster p)" and "bt_wf (pd_pending p)"
    and "flush_pending ops p = (res, p')"
  shows "(\<forall>k. \<exists>n. queue p' k = drop n (queue p k) \<and> set (take n (queue p k)) \<subseteq> log (pd_cluster p') k) \<and>
    res \<noteq> Inl Panicked \<and> (\<forall>written. res = Inr written \<longrightarrow> pd_pending p' = [])"
  using flush_loop_ok [OF assms(1) _ assms(2,3) _ assms(4) [unfolded flush_pending_def]]
  by (simp add: retires_written_def MAX_RETRIES_def)

text \<open>
  C1: nothing leaves the queue unwritten.  Whatever the brokers answer and whichever connections die
  under the pipelined window, as long as each answer read is the answer to its connection's oldest
  request and a success means the batch is in the log: \<open>flush\<close> removes from each partition's queue
  only a leading run of batches, each of them in the partition's log; what it keeps is kept in
  order; it does not panic; and when it reports success nothing is left queued.
\<close>
theorem flush_retires_only_written:
  assumes "pipelined outst log (answered log) ops" and "idle outst (pd_cluster p)" and "bt_wf (pd_pending p)"
    and "flush_pending ops p = (res, p')"
  shows "(\<forall>k. \<exists>n. queue p' k = drop n (queue p k) \<and> set (take n (queue p k)) \<subseteq> log (pd_cluster p') k) \<and>
    res \<noteq> Inl Panicked \<and> (\<forall>written. res = Inr written \<longrightarrow> pd_pending p' = [])"
  by (rule flush_pending_ok [OF assms])

text \<open>
  The broker's sequence check.  \<open>hist k\<close> lists the batches of partition \<open>k\<close> in the order of their
  sequence numbers; an error that is neither retriable nor about leadership is answered only to a
  batch that has a predecessor missing from the log.
\<close>

definition in_sequence ::
  "(partition_key \<Rightarrow> bytes list) \<Rightarrow> ('w \<Rightarrow> partition_key \<Rightarrow> bytes set) \<Rightarrow> 'w \<Rightarrow> produce_request \<Rightarrow> produce_response \<Rightarrow> bool" where
  "in_sequence hist log w rq resp \<longleftrightarrow>
     (\<forall>(k, c)\<in>set (response_codes resp). \<not> is_ok c \<longrightarrow> disposition_of c \<notin> {Retry, RefreshMetadata} \<longrightarrow>
        (\<forall>b. (k, b) \<in> set (request_items rq) \<longrightarrow> (\<exists>xs ys. hist k = xs @ b # ys \<and> \<not> set xs \<subseteq> log w k)))"

definition in_order :: "(partition_key \<Rightarrow> bytes list) \<Rightarrow> ('w \<Rightarrow> partition_key \<Rightarrow> bytes set) \<Rightarrow> 'w producer \<Rightarrow> bool" where
  "in_order hist log p \<longleftrightarrow>
     (\<forall>k. \<exists>acked. hist k = acked @ queue p k \<and> distinct (hist k) \<and> set acked \<subseteq> log (pd_cluster p) k)"

lemma in_order_kept:
  assumes "in_order hist log p" and "retires_written log p p'"
  shows "in_order hist log p'"
  unfolding in_order_def
proof
  fix k
  obtain acked where a: "hist k = acked @ queue p k" "distinct (hist k)" "set acked \<subseteq> log (pd_cluster p) k"
    using assms(1) unfolding in_order_def by blast
  obtain n where n: "queue p' k = drop n (queue p k)" "set (take n (queue p k)) \<subseteq> log (pd_cluster p') k"
    using assms(2) unfolding retires_written_def by blast
  have "log (pd_cluster p) k \<subseteq> log (pd_cluster p') k" using assms(2) unfolding retires_written_def log_le_def by blast
  then have "set (acked @ take n (queue p k)) \<subseteq> log (pd_cluster p') k" using a(3) n(2) by auto
  moreover have "hist k = (acked @ take n (queue p k)) @ queue p' k" using a(1) n(1) by simp
  ultimately show "\<exists>acked. hist k = acked @ queue p' k \<and> distinct (hist k) \<and> set acked \<subseteq> log (pd_cluster p') k"
    using a(2) by blast
qed

lemma no_fatal_first:
  assumes "in_order hist log p"
    and "\<And>w rq resp. Q w rq resp \<Longrightarrow> answered log w rq resp \<and> in_sequence hist log w rq resp"
  shows "\<not> fatal_first log Q p"
proof
  assume "fatal_first log Q p"
  then obtain K ws outs r k c where f: "window_codes log Q p K ws outs" "\<forall>x\<in>set ws. log_le log (pd_cluster p) x"
     "r < length outs" "(k, c) \<in> set (outs ! r)" "\<not> is_ok c" "disposition_of c \<notin> {Retry, RefreshMetadata}"
     "\<forall>r'<r. \<forall>c'. (k, c') \<in> set (outs ! r') \<longrightarrow> is_ok c'"
    unfolding fatal_first_def by blast
  have lw: "length ws = length outs" "sorted_wrt (log_le log) ws" using f(1) by (simp_all add: window_codes_def)
  have kr: "k \<in> K" "r < length (queue p k)" using window_codes_keys [OF f(1,3), of k] f(4) by force+
  obtain rq resp where rq: "Q (ws ! r) rq resp" "(k, c) \<in> set (response_codes resp)" "(k, queue p k ! r) \<in> set (request_items rq)"
    using window_codes_answer [OF f(1,3,4)] by blast
  obtain xs ys where xs: "hist k = xs @ (queue p k ! r) # ys" "\<not> set xs \<subseteq> log (ws ! r) k"
    using assms(2) [OF rq(1)] rq(2,3) f(5,6) unfolding in_sequence_def by blast
  obtain acked where a: "hist k = acked @ queue p k" "distinct (hist k)" "set acked \<subseteq> log (pd_cluster p) k"
    using assms(1) unfolding in_order_def by blast
  have "hist k = (acked @ take r (queue p k)) @ (queue p k ! r) # drop (Suc r) (queue p k)"
    using a(1) kr(2) by (simp add: id_take_nth_drop [symmetric])
  moreover have "queue p k ! r \<notin> set xs" "queue p k ! r \<notin> set ys" using a(2) by (simp_all add: xs(1))
  ultimately have "xs = acked @ take r (queue p k)"
    using xs(1) append_Cons_eq_iff [of "queue p k ! r" xs ys] by metis
  moreover have "log (pd_cluster p) k \<subseteq> log (ws ! r) k" using f(2,3) lw(1) unfolding log_le_def by (metis nth_mem)
  moreover have "queue p k ! r' \<in> log (ws ! r) k" if "r' < r" for r'
  proof -
    have r': "r' < length outs" "r' < length (queue p k)" using that f(3) kr(2) by auto
    then obtain c' where c': "(k, c') \<in> set (outs ! r')"
      using window_codes_keys [OF f(1) r'(1), of k] kr(1) by auto
    obtain rq' resp' where q': "Q (ws ! r') rq' resp'" "(k, c') \<in> set (response_codes resp')" "(k, queue p k ! r') \<in> set (request_items rq')"
      using window_codes_answer [OF f(1) r'(1) c'] by blast
    have "is_ok c'" using f(7) that c' by blast
    from answered_written [OF conjunct1 [OF assms(2) [OF q'(1)]] q'(2) this q'(3)]
    have "queue p k ! r' \<in> log (ws ! r') k" .
    moreover have "log_le log (ws ! r') (ws ! r)"
      using lw that f(3) by (simp add: sorted_wrt_nth_less)
    ultimately show ?thesis unfolding log_le_def by blast
  qed
  ultimately have "set xs \<subseteq> log (ws ! r) k" using a(3) kr(2) by (auto simp: in_set_conv_nth)
  with xs(2) show False by simp
qed

lemma flush_loop_unfenced:
  assumes "pipelined outst log Q ops"
    and "\<And>w rq resp. Q w rq resp \<Longrightarrow> answered log w rq resp \<and> in_sequence hist log w rq resp"
    and "idle outst (pd_cluster p)" and "bt_wf (pd_pending p)" and "in_order hist log p"
    and "flush_loop ops attempts out p = (res, p')"
  shows "pd_state p' = pd_state p \<and> in_order hist log p'"
  using assms(3-6)
proof (induction attempts arbitrary: p out)
  case (Cons a attempts)
  have ans: "Q w rq resp \<Longrightarrow> answered log w rq resp" for w rq resp using assms(2) by blast
  have "turn_ok outst log Q p (flush_turn ops a out p)" by (rule flush_turn_ok [OF assms(1) ans Cons.prems(1,2)])
  then have t: "retires_written log p (turn_producer (flush_turn ops a out p))"
      "pd_state (turn_producer (flush_turn ops a out p)) = pd_state p"
      "bt_wf (pd_pending (turn_producer (flush_turn ops a out p)))" "turn_end outst (flush_turn ops a out p)"
    using no_fatal_first [OF Cons.prems(3) assms(2)] by (simp_all add: turn_ok_def)
  have o: "in_order hist log (turn_producer (flush_turn ops a out p))" by (rule in_order_kept [OF Cons.prems(3) t(1)])
  show ?case
  proof (cases "flush_turn ops a out p")
    case (Done r p1)
    then show ?thesis using Cons.prems(4) t(2) o by simp
  next
    case (Again out1 p1)
    then have "flush_loop ops attempts out1 p1 = (res, p')" using Cons.prems(4) by simp
    from Cons.IH [OF _ _ _ this] t o Again show ?thesis by (simp add: turn_end_def)
  qed
qed simp

text \<open>
  C2: the window does not fence its own producer.  When moreover the broker answers a fatal code only
  to a batch with a predecessor missing from its log (its sequence check), and the queue holds,
  in sequence order, what is not yet known to be in the log, then \<open>flush\<close> never fences: every sequence error a
  window provokes is behind a failure of its own and is taken as its consequence.  The order is kept
  for the next flush.
\<close>
theorem flush_never_fences_itself:
  assumes "pipelined outst log (\<lambda>w rq resp. answered log w rq resp \<and> in_sequence hist log w rq resp) ops"
    and "idle outst (pd_cluster p)" and "bt_wf (pd_pending p)" and "in_order hist log p"
    and "flush_pending ops p = (res, p')"
  shows "pd_state p' = pd_state p \<and> in_order hist log p'"
  using flush_loop_unfenced [OF assms(1) _ assms(2-4) assms(5) [unfolded flush_pending_def]] by simp

section \<open>A cluster in memory\<close>

text \<open>
  One broker that answers in order, accepts everything and answers nothing unasked: an instance of
  the contracts above.  Its state is the requests outstanding and the logs.
\<close>

type_synonym memory = "(string \<Rightarrow> produce_request list) \<times> (partition_key \<Rightarrow> bytes set)"

definition memory_response :: "produce_request \<Rightarrow> produce_response" where
  "memory_response rq = map (\<lambda>k. (fst k, [\<lparr>pp_index = snd k, pp_error_code = 0, pp_base_offset = 0\<rparr>]))
     (remdups (map fst (request_items rq)))"

definition memory_ops :: "memory cluster_ops" where
  "memory_ops =
     \<lparr>leader_addr = (\<lambda>w _ _. (Inr ''b:1'', w)),
      send_at = (\<lambda>w a rq. (Inr (), ((fst w)(a := fst w a @ [rq]), snd w))),
      recv_many = (\<lambda>w as.
        (map (\<lambda>a. case fst w a of [] \<Rightarrow> Inl (Io ''closed'') | rq # _ \<Rightarrow> Inr (memory_response rq)) as,
         (\<lambda>a. if a \<in> set as then tl (fst w a) else fst w a),
         \<lambda>k. snd w k \<union> {b. \<exists>a\<in>set as. fst w a \<noteq> [] \<and> (k, b) \<in> set (request_items (hd (fst w a)))})),
      invalidate = (\<lambda>w _ _. w), refresh_metadata = (\<lambda>w _. (Inr (), w)),
      topic_partition_count = (\<lambda>w _. (Inr 1, w)),
      call_find_coordinator = (\<lambda>w _ _. (Inr \<lparr>ci_error_code = 0, ci_host = ''b'', ci_port = 1\<rparr>, w)),
      call_any = (\<lambda>w _. (Inl (Io ''closed''), w)), call_at = (\<lambda>w _ _. (Inl (Io ''closed''), w)),
      sleep = (\<lambda>w _. w), now = (\<lambda>_. 0), unix_millis = (\<lambda>_. 0),
      encode_records = (\<lambda>_ _. Inr [])\<rparr>"

lemma memory_response_codes:
  "response_codes (memory_response rq) = map (\<lambda>k. (k, ErrorCode 0)) (remdups (map fst (request_items rq)))"
  by (simp add: response_codes_def memory_response_def comp_def)

lemma memory_response_ok:
  "(\<forall>k b. (k, b) \<in> set (request_items rq) \<longrightarrow> b \<in> log w k) \<Longrightarrow> answered log w rq (memory_response rq)"
  "in_sequence hist log w rq (memory_response rq)"
  by (auto simp: answered_def in_sequence_def covers_def memory_response_codes comp_def is_ok_def image_image NONE_def)

lemma memory_pipelined:
  assumes "\<And>w rq. (\<forall>k b. (k, b) \<in> set (request_items rq) \<longrightarrow> b \<in> snd w k) \<Longrightarrow> Q w rq (memory_response rq)"
    and "\<And>w w'. log_le snd w w' \<Longrightarrow> log_le log w w'"
  shows "pipelined fst log Q memory_ops"
proof -
  have recv: "receives fst log Q w as (recv_many memory_ops w as)" for w as
  proof -
    let ?res = "recv_many memory_ops w as"
    have "log_le log w (snd ?res)" by (rule assms(2)) (auto simp: log_le_def memory_ops_def)
    moreover have "fst (snd ?res) a \<in> {[], tl (fst w a)} \<and>
        (\<forall>resp. r = Inr resp \<longrightarrow> fst w a = hd (fst w a) # fst (snd ?res) a \<and> Q (snd ?res) (hd (fst w a)) resp)"
      if ar: "(a, r) \<in> set (zip as (fst ?res))" for a r
    proof -
      have a: "a \<in> set as" and r: "r = (case fst w a of [] \<Rightarrow> Inl (Io ''closed'') | rq # _ \<Rightarrow> Inr (memory_response rq))"
        using ar by (auto simp: memory_ops_def set_zip)
      have "Q (snd ?res) (hd (fst w a)) (memory_response (hd (fst w a)))" if "fst w a \<noteq> []"
        by (rule assms(1)) (use a that in \<open>auto simp: memory_ops_def\<close>)
      with a r show ?thesis by (auto simp: memory_ops_def split: list.splits)
    qed
    ultimately show ?thesis by (auto simp: receives_def) (auto simp: memory_ops_def)
  qed
  have "log_le log w (snd (recv_many memory_ops w as))" for w as using recv [of w as] by (simp add: receives_def)
  moreover have "sends fst log w a rq (send_at memory_ops w a rq)" for w a rq
  proof -
    have "log_le log w ((fst w)(a := fst w a @ [rq]), snd w)" by (rule assms(2)) (simp add: log_le_def)
    then show ?thesis by (simp add: sends_def memory_ops_def)
  qed
  ultimately show ?thesis using recv
    by (simp add: pipelined_def) (simp add: memory_ops_def quiet_def)
qed

definition demo_producer :: "bytes list \<Rightarrow> memory producer" where
  "demo_producer q = \<lparr>pd_cluster = (\<lambda>_. [], \<lambda>_. {}), pd_state = idempotent_producer, pd_transactional_id = None,
     pd_coordinator = None, pd_acks = - 1, pd_timeout_ms = 30000, pd_compression = NoCompression, pd_partitioner = Crc32, pd_round_robin = 0,
     pd_pending = [((''t'', 0), q)], pd_max_in_flight = 5, pd_staged = [], pd_linger = 0, pd_batch_size = 16384,
     pd_offsets = []\<rparr>"

lemma demo_idle: "idle fst (pd_cluster (demo_producer q))" "bt_wf (pd_pending (demo_producer q))"
  "queue (demo_producer q) k = (if k = (''t'', 0) then q else [])" "pd_max_in_flight (demo_producer q) = 5"
  by (simp_all add: demo_producer_def idle_def bt_wf_def queue_def bt_get_def)

theorem flush_retires_only_written_witness:
  "(\<forall>k. \<exists>n. queue (snd (flush_pending memory_ops (demo_producer [[1], [2], [3]]))) k =
        drop n (queue (demo_producer [[1], [2], [3]]) k) \<and>
      set (take n (queue (demo_producer [[1], [2], [3]]) k)) \<subseteq>
        snd (pd_cluster (snd (flush_pending memory_ops (demo_producer [[1], [2], [3]])))) k) \<and>
   fst (flush_pending memory_ops (demo_producer [[1], [2], [3]])) \<noteq> Inl Panicked"
proof -
  let ?p = "demo_producer [[1], [2], [3]]"
  have "pipelined fst snd (answered snd) memory_ops"
    by (auto intro!: memory_pipelined memory_response_ok(1))
  from flush_retires_only_written [OF this _ _ surjective_pairing, of ?p] show ?thesis by (simp add: demo_idle)
qed

theorem flush_never_fences_itself_witness:
  "pd_state (snd (flush_pending memory_ops (demo_producer [[1], [2], [3]]))) = idempotent_producer \<and>
   in_order (\<lambda>k. if k = (''t'', 0) then [[1], [2], [3]] else []) snd
     (snd (flush_pending memory_ops (demo_producer [[1], [2], [3]])))"
proof -
  let ?p = "demo_producer [[1], [2], [3]]" and ?h = "\<lambda>k. if k = (''t'', 0) then [[1], [2], [3]] else []"
  have "in_order ?h snd ?p" by (auto simp: in_order_def demo_idle)
  then have "pd_state (snd (flush_pending memory_ops ?p)) = pd_state ?p \<and> in_order ?h snd (snd (flush_pending memory_ops ?p))"
    by (intro flush_never_fences_itself [of fst snd ?h memory_ops ?p "fst (flush_pending memory_ops ?p)"])
       (auto simp: demo_idle intro!: memory_pipelined memory_response_ok)
  then show ?thesis by (simp add: demo_producer_def)
qed

end
