(* ===== verification/Window_Spec.thy ===== *)
theory Window_Spec
  imports Window_Safety
begin

text \<open>
  The repository's own abstract specification of the window, \<^verbatim>\<open>spec/ProducerWindow.tla\<close>, and the proof
  that \<open>flush\<close> implements it turn by turn: a call is a sequence of turns of the retry loop, each of which is,
  for each partition, one \<open>SendWindow\<close> step of the specification or changes nothing.
\<close>

section \<open>The specification\<close>

text \<open>
  The variables \<^verbatim>\<open>pending\<close>, \<^verbatim>\<open>log\<close> and \<^verbatim>\<open>failures\<close>; the bound \<^verbatim>\<open>MaxFailures\<close>, which only keeps the
  model checker's state space finite, is left out.
\<close>

type_synonym 'b tla_state = "'b list \<times> 'b list \<times> nat"

inductive SendWindow :: "nat \<Rightarrow> 'b tla_state \<Rightarrow> 'b tla_state \<Rightarrow> bool" for max_in_flight where
  "pending \<noteq> [] \<Longrightarrow> w = min max_in_flight (length pending) \<Longrightarrow> k \<le> w \<Longrightarrow>
   SendWindow max_in_flight (pending, log, f)
     (drop k pending, log @ take k pending, if k < w then f + 1 else f)"

inductive_cases SendWindowE: "SendWindow m s s'"

text \<open>Its safety property: the log is at all times an exact prefix of what was enqueued.\<close>

lemma log_is_exact_prefix:
  assumes "(SendWindow m)\<^sup>*\<^sup>* (pending, log, f) s'"
  shows "\<exists>pending' log' f'. s' = (pending', log', f') \<and> log' @ pending' = log @ pending"
  using assms by induction (auto elim!: SendWindowE)

text \<open>A window of at most \<open>m\<close> batches, some leading run of which is retired, is one step, or none if nothing is queued.\<close>

lemma retiring_is_SendWindow:
  assumes "n \<le> m"
  shows "\<exists>f'. (SendWindow m)\<^sup>=\<^sup>= (q, log, f) (drop n q, log @ take n q, f')"
proof (cases "q = []")
  case True
  then show ?thesis by (intro exI [of _ f]) simp
next
  case False
  let ?k = "min n (length q)"
  have "SendWindow m (q, log, f) (drop ?k q, log @ take ?k q, if ?k < min m (length q) then f + 1 else f)"
    by (rule SendWindow.intros [OF False refl]) (use assms in simp)
  moreover have "drop ?k q = drop n q" "take ?k q = take n q" by (simp_all add: min_def)
  ultimately show ?thesis by auto
qed

lemma same_drop_same_take: "drop n xs = drop m xs \<Longrightarrow> take n xs = take m xs"
  by (metis append_eq_append_conv append_take_drop_id)

section \<open>Refinement\<close>

text \<open>
  What one turn of the retry loop is, in the specification's terms: for every partition one \<open>SendWindow\<close> step, or nothing, whatever
  has been retired and counted before, and the batches it appends to the specification's log are in the broker's.
\<close>

definition turn_simulated ::
  "('w \<Rightarrow> partition_key \<Rightarrow> bytes set) \<Rightarrow> nat \<Rightarrow> 'w producer \<Rightarrow> 'w producer \<Rightarrow> bool" where
  "turn_simulated log m x y \<longleftrightarrow>
     (\<forall>k acked f. \<exists>new f'. (SendWindow m)\<^sup>=\<^sup>= (queue x k, acked, f) (queue y k, acked @ new, f') \<and> set new \<subseteq> log (pd_cluster y) k)"

lemma turn_is_SendWindow:
  assumes "turn_ok outst log Q p t"
  shows "turn_simulated log (pd_max_in_flight p) p (turn_producer t)"
  unfolding turn_simulated_def
proof (intro allI)
  fix k acked f
  obtain n where n: "queue (turn_producer t) k = drop n (queue p k)" "set (take n (queue p k)) \<subseteq> log (pd_cluster (turn_producer t)) k"
    using assms unfolding turn_ok_def retires_written_def by blast
  obtain m where m: "m \<le> pd_max_in_flight p" "queue (turn_producer t) k = drop m (queue p k)"
    using assms unfolding turn_ok_def one_window_def by blast
  have "take n (queue p k) = take m (queue p k)" by (rule same_drop_same_take) (metis n(1) m(2))
  then show "\<exists>new f'. (SendWindow (pd_max_in_flight p))\<^sup>=\<^sup>= (queue p k, acked, f) (queue (turn_producer t) k, acked @ new, f') \<and>
      set new \<subseteq> log (pd_cluster (turn_producer t)) k"
    using retiring_is_SendWindow [OF m(1), of "queue p k" acked f] n(2) m(2) by metis
qed

lemma flush_loop_simulated:
  assumes "pipelined outst log Q ops" and "\<And>w rq resp. Q w rq resp \<Longrightarrow> answered log w rq resp"
    and "idle outst (pd_cluster p)" and "bt_wf (pd_pending p)" and "flush_loop ops attempts out p = (res, p')"
  shows "\<exists>ps. length ps \<le> length attempts \<and> last (p # ps) = p' \<and>
    successively (\<lambda>x y. (\<exists>a out. y = turn_producer (flush_turn ops a out x)) \<and> turn_simulated log (pd_max_in_flight p) x y) (p # ps)"
  using assms(3-5)
proof (induction attempts arbitrary: p out)
  case Nil
  then show ?case by (intro exI [of _ "[]"]) simp
next
  case (Cons a attempts)
  note turn = flush_turn_ok [OF assms(1,2) Cons.prems(1,2), of a out]
  define p1 where "p1 = turn_producer (flush_turn ops a out p)"
  have s1: "turn_simulated log (pd_max_in_flight p) p p1" using turn_is_SendWindow [OF turn] unfolding p1_def .
  show ?case
  proof (cases "flush_turn ops a out p")
    case (Done r p2)
    then have "p' = p1" using Cons.prems(3) by (simp add: p1_def)
    then show ?thesis using s1 by (intro exI [of _ "[p1]"]) (auto simp: p1_def)
  next
    case (Again out1 p2)
    have p1: "bt_wf (pd_pending p1)" "idle outst (pd_cluster p1)" "pd_max_in_flight p1 = pd_max_in_flight p"
      "flush_loop ops attempts out1 p1 = (res, p')"
      using turn Again Cons.prems(3) by (simp_all add: turn_ok_def turn_end_def one_window_def p1_def)
    obtain ps where "length ps \<le> length attempts" "last (p1 # ps) = p'"
      "successively (\<lambda>x y. (\<exists>a out. y = turn_producer (flush_turn ops a out x)) \<and> turn_simulated log (pd_max_in_flight p) x y) (p1 # ps)"
      using Cons.IH [OF p1(2,1,4)] unfolding p1(3) by blast
    then show ?thesis using s1 by (intro exI [of _ "p1 # ps"]) (auto simp: p1_def)
  qed
qed

lemma unequal_step: "(SendWindow m)\<^sup>=\<^sup>= (q, acked, f) (q', acked', f') \<Longrightarrow> length q \<le> length q' + m"
  by (auto elim!: SendWindowE)

text \<open>
  C3: turn by turn, \<open>flush\<close> implements the specification.  Under the contract of the cluster layer, a call of \<open>flush\<close> is a sequence of at most forty turns of
  its retry loop, from the producer it is called on to the one it leaves, and each turn is for every partition at once one \<open>SendWindow\<close> step of
  \<^verbatim>\<open>ProducerWindow.tla\<close> with this producer's \<^verbatim>\<open>max_in_flight\<close>, or leaves the partition alone: it retires a leading run of one
  window, never more, and what it retires is in the partition's log at the broker.  So no call retires more than forty windows of a partition.
\<close>
theorem flush_refines_ProducerWindow:
  assumes "pipelined outst log (answered log) ops" and "idle outst (pd_cluster p)" and "bt_wf (pd_pending p)"
    and "flush_pending ops p = (res, p')"
  shows "(\<exists>ps. length ps \<le> MAX_RETRIES \<and> last (p # ps) = p' \<and>
      successively (\<lambda>x y. (\<exists>a out. y = turn_producer (flush_turn ops a out x)) \<and>
        (\<forall>k acked f. \<exists>new f'. (SendWindow (pd_max_in_flight p))\<^sup>=\<^sup>= (queue x k, acked, f) (queue y k, acked @ new, f') \<and>
           set new \<subseteq> log (pd_cluster y) k)) (p # ps)) \<and>
    length (queue p k) \<le> length (queue p' k) + MAX_RETRIES * pd_max_in_flight p"
proof -
  obtain ps where ps: "length ps \<le> length [0..<MAX_RETRIES]" "last (p # ps) = p'"
    "successively (\<lambda>x y. (\<exists>a out. y = turn_producer (flush_turn ops a out x)) \<and> turn_simulated log (pd_max_in_flight p) x y) (p # ps)"
    using flush_loop_simulated [OF assms(1) _ assms(2,3) assms(4) [unfolded flush_pending_def]] by blast
  have step: "length (queue x k) \<le> length (queue y k) + pd_max_in_flight p" if "turn_simulated log (pd_max_in_flight p) x y" for x y
    using that unequal_step unfolding turn_simulated_def by metis
  have "length (queue x k) \<le> length (queue (last (x # xs)) k) + length xs * pd_max_in_flight p"
    if "successively (\<lambda>x y. (\<exists>a out. y = turn_producer (flush_turn ops a out x)) \<and> turn_simulated log (pd_max_in_flight p) x y) (x # xs)" for x xs
    using that
  proof (induction xs arbitrary: x)
    case (Cons y ys)
    from Cons.prems have "turn_simulated log (pd_max_in_flight p) x y"
      and rest: "successively (\<lambda>x y. (\<exists>a out. y = turn_producer (flush_turn ops a out x)) \<and> turn_simulated log (pd_max_in_flight p) x y) (y # ys)"
      by simp_all
    then have "length (queue x k) \<le> length (queue y k) + pd_max_in_flight p" by (intro step)
    also have "\<dots> \<le> length (queue (last (y # ys)) k) + length ys * pd_max_in_flight p + pd_max_in_flight p" using Cons.IH [OF rest] by simp
    finally show ?case by simp
  qed simp
  from this [OF ps(3)] have "length (queue p k) \<le> length (queue p' k) + length ps * pd_max_in_flight p" by (simp only: ps(2))
  moreover have "length ps * pd_max_in_flight p \<le> MAX_RETRIES * pd_max_in_flight p" using ps(1) by (intro mult_right_mono) simp_all
  ultimately have "length (queue p k) \<le> length (queue p' k) + MAX_RETRIES * pd_max_in_flight p" by linarith
  moreover have "length ps \<le> MAX_RETRIES" using ps(1) by simp
  ultimately show ?thesis using ps(2) ps(3) [unfolded turn_simulated_def] by (intro conjI exI [of _ ps])
qed

theorem flush_refines_ProducerWindow_witness:
  "\<exists>ps. length ps \<le> MAX_RETRIES \<and> last (demo_producer [[1], [2], [3]] # ps) = snd (flush_pending memory_ops (demo_producer [[1], [2], [3]])) \<and>
     successively (\<lambda>x y. \<forall>k acked f. \<exists>new f'. (SendWindow 5)\<^sup>=\<^sup>= (queue x k, acked, f) (queue y k, acked @ new, f'))
       (demo_producer [[1], [2], [3]] # ps)"
proof -
  let ?p = "demo_producer [[1], [2], [3]]"
  have "pipelined fst snd (answered snd) memory_ops" by (rule memory_pipelined) (auto intro: memory_response_ok(1))
  from flush_refines_ProducerWindow [OF this demo_idle(1,2), of "[[1], [2], [3]]" "fst (flush_pending memory_ops ?p)"
      "snd (flush_pending memory_ops ?p)", THEN conjunct1]
  obtain ps where ps: "length ps \<le> MAX_RETRIES" "last (?p # ps) = snd (flush_pending memory_ops ?p)"
    "successively (\<lambda>x y. (\<exists>a out. y = turn_producer (flush_turn memory_ops a out x)) \<and>
        (\<forall>k acked f. \<exists>new f'. (SendWindow (pd_max_in_flight ?p))\<^sup>=\<^sup>= (queue x k, acked, f) (queue y k, acked @ new, f') \<and>
           set new \<subseteq> snd (pd_cluster y) k)) (?p # ps)" by auto
  have "successively (\<lambda>x y. \<forall>k acked f. \<exists>new f'. (SendWindow 5)\<^sup>=\<^sup>= (queue x k, acked, f) (queue y k, acked @ new, f')) (?p # ps)"
    by (rule successively_mono [OF ps(3)]) (fastforce simp: demo_idle)
  with ps(1,2) show ?thesis by blast
qed

end
