(* ===== verification/Producer_Client.thy ===== *)
theory Producer_Client
  imports Producer_Window
begin

text \<open>
  The rest of the producer, \<^verbatim>\<open>barnabas-client/src/producer.rs\<close>: construction and settings,
  coordinator routing, transactions, staging and encoding records, and the calls that compose
  them with \<open>flush_pending\<close>.  A method is a function from the producer to its result and the
  producer afterwards; a method that can reach the \<^verbatim>\<open>expect\<close> of \<open>flush\<close> returns
  \<open>client_error failure\<close>.  The retry loops run over the list of attempts \<open>[0..<MAX_RETRIES]\<close>.
\<close>

section \<open>Construction and settings\<close>

definition new_producer_record :: "bytes option \<Rightarrow> bytes option \<Rightarrow> producer_record" where
  "new_producer_record key val = \<lparr>pre_key = key, pre_value = val, pre_timestamp = None\<rparr>"

definition fresh_producer :: "'w \<Rightarrow> producer_state \<Rightarrow> string option \<Rightarrow> 'w producer" where
  "fresh_producer w st txn_id =
     \<lparr>pd_cluster = w, pd_state = st, pd_transactional_id = txn_id, pd_coordinator = None, pd_acks = - 1,
      pd_timeout_ms = 30000, pd_compression = NoCompression, pd_partitioner = Crc32, pd_round_robin = 0,
      pd_pending = [], pd_max_in_flight = DEFAULT_MAX_IN_FLIGHT, pd_staged = [], pd_linger = 0,
      pd_batch_size = DEFAULT_BATCH_SIZE, pd_offsets = []\<rparr>"

definition set_partitioner :: "'w producer \<Rightarrow> partitioner \<Rightarrow> 'w producer" where
  "set_partitioner p x = p\<lparr>pd_partitioner := x\<rparr>"

definition set_compression :: "'w producer \<Rightarrow> compression \<Rightarrow> 'w producer" where
  "set_compression p x = p\<lparr>pd_compression := x\<rparr>"

definition set_linger :: "'w producer \<Rightarrow> nat \<Rightarrow> 'w producer" where
  "set_linger p x = p\<lparr>pd_linger := x\<rparr>"

text \<open>The two \<^verbatim>\<open>assert!\<close>s.\<close>

definition set_batch_size :: "'w producer \<Rightarrow> nat \<Rightarrow> client_error failure + 'w producer" where
  "set_batch_size p n = (if n = 0 then Inl Panicked else Inr (p\<lparr>pd_batch_size := n\<rparr>))"

definition set_max_in_flight :: "'w producer \<Rightarrow> nat \<Rightarrow> client_error failure + 'w producer" where
  "set_max_in_flight p n = (if n = 0 then Inl Panicked else Inr (p\<lparr>pd_max_in_flight := n\<rparr>))"

definition queued :: "'w producer \<Rightarrow> nat" where
  "queued p = sum_list (map length (bt_values (pd_pending p))) + length (pd_staged p)"

section \<open>Coordinator routing\<close>

definition coordinator_address :: "coordinator_info \<Rightarrow> string" where
  "coordinator_address resp = ci_host resp @ '':'' @ show_int (ci_port resp)"

text \<open>The first non-zero code, or 0: what every \<^verbatim>\<open>error_of\<close> extracts.\<close>

definition first_error :: "coordinator_response \<Rightarrow> error_code" where
  "first_error r = ErrorCode (case find (\<lambda>c. c \<noteq> 0) (cr_codes r) of None \<Rightarrow> 0 | Some c \<Rightarrow> c)"

definition out_of_retries :: "string \<Rightarrow> client_error" where
  "out_of_retries op = Broker op (code_of COORDINATOR_NOT_AVAILABLE) Retry"

definition pause :: "'w cluster_ops \<Rightarrow> nat \<Rightarrow> 'w producer \<Rightarrow> 'w producer" where
  "pause ops attempt p = p\<lparr>pd_cluster := backoff ops (pd_cluster p) attempt\<rparr>"

fun find_coordinator_loop ::
  "'w cluster_ops \<Rightarrow> string \<Rightarrow> nat list \<Rightarrow> 'w producer \<Rightarrow> (client_error + string) \<times> 'w producer" where
  "find_coordinator_loop ops txn_id [] p = (Inl (out_of_retries ''FindCoordinator''), p)"
| "find_coordinator_loop ops txn_id (attempt # attempts) p =
     (case call_find_coordinator ops (pd_cluster p) txn_id 1 of
        (Inl e, w) \<Rightarrow> (Inl e, p\<lparr>pd_cluster := w\<rparr>)
      | (Inr resp, w) \<Rightarrow>
          (let p1 = p\<lparr>pd_cluster := w\<rparr>; code = ErrorCode (ci_error_code resp)
           in if is_ok code
              then (Inr (coordinator_address resp), p1\<lparr>pd_coordinator := Some (coordinator_address resp)\<rparr>)
              else if disposition_of code \<in> {Retry, FindCoordinator}
              then find_coordinator_loop ops txn_id attempts (pause ops attempt p1)
              else (Inl (Broker ''FindCoordinator'' (code_of code) (disposition_of code)), p1)))"

definition find_coordinator :: "'w cluster_ops \<Rightarrow> 'w producer \<Rightarrow> (client_error + string) \<times> 'w producer" where
  "find_coordinator ops p =
     (case pd_transactional_id p of
        None \<Rightarrow> (Inr [], p)
      | Some txn_id \<Rightarrow> find_coordinator_loop ops txn_id [0..<MAX_RETRIES] p)"

definition coordinator_addr :: "'w cluster_ops \<Rightarrow> 'w producer \<Rightarrow> (client_error + string) \<times> 'w producer" where
  "coordinator_addr ops p =
     (case pd_coordinator p of Some a \<Rightarrow> (Inr a, p) | None \<Rightarrow> find_coordinator ops p)"

text \<open>What a code does to the call: \<open>Inl\<close> ends it, \<open>Inr\<close> goes round again.\<close>

definition act_on_code :: "string \<Rightarrow> error_code \<Rightarrow> 'w producer \<Rightarrow> (client_error \<times> 'w producer) + 'w producer" where
  "act_on_code op code p =
     (case disposition_of code of
        Retry \<Rightarrow> Inr p
      | FindCoordinator \<Rightarrow> Inr (p\<lparr>pd_coordinator := None\<rparr>)
      | Fatal \<Rightarrow> Inl (Broker op (code_of code) Fatal, p\<lparr>pd_state := fence (pd_state p)\<rparr>)
      | d \<Rightarrow> Inl (Broker op (code_of code) d, p))"

fun coordinator_call_loop ::
  "'w cluster_ops \<Rightarrow> string \<Rightarrow> coordinator_request \<Rightarrow> nat list \<Rightarrow> 'w producer \<Rightarrow>
   (client_error + coordinator_response) \<times> 'w producer" where
  "coordinator_call_loop ops op req [] p = (Inl (out_of_retries op), p)"
| "coordinator_call_loop ops op req (attempt # attempts) p =
     (case coordinator_addr ops p of
        (Inl e, p1) \<Rightarrow> (Inl e, p1)
      | (Inr a, p1) \<Rightarrow>
          (case (if a = [] then call_any ops (pd_cluster p1) req else call_at ops (pd_cluster p1) a req) of
             (Inl e, w) \<Rightarrow> (Inl e, p1\<lparr>pd_cluster := w\<rparr>)
           | (Inr resp, w) \<Rightarrow>
               (let p2 = p1\<lparr>pd_cluster := w\<rparr>
                in if is_ok (first_error resp) then (Inr resp, p2)
                   else case act_on_code op (first_error resp) p2 of
                          Inl (e, p3) \<Rightarrow> (Inl e, p3)
                        | Inr p3 \<Rightarrow> coordinator_call_loop ops op req attempts (pause ops attempt p3))))"

definition coordinator_call ::
  "'w cluster_ops \<Rightarrow> string \<Rightarrow> coordinator_request \<Rightarrow> 'w producer \<Rightarrow> (client_error + coordinator_response) \<times> 'w producer" where
  "coordinator_call ops op req p = coordinator_call_loop ops op req [0..<MAX_RETRIES] p"

definition init_producer_id :: "'w cluster_ops \<Rightarrow> 'w producer \<Rightarrow> (client_error + unit) \<times> 'w producer" where
  "init_producer_id ops p =
     (case coordinator_call ops ''InitProducerId'' (InitProducerId (pd_transactional_id p) (pd_timeout_ms p)) p of
        (Inl e, p1) \<Rightarrow> (Inl e, p1)
      | (Inr resp, p1) \<Rightarrow> (Inr (), p1\<lparr>pd_state := on_init_producer_id (pd_state p1) (cr_identity resp)\<rparr>))"

text \<open>\<^verbatim>\<open>Producer::transactional\<close> and \<^verbatim>\<open>Producer::idempotent\<close>, once the cluster is connected.\<close>

definition finish_construction :: "(client_error + unit) \<times> 'w producer \<Rightarrow> client_error + 'w producer" where
  "finish_construction r = (case r of (Inl e, _) \<Rightarrow> Inl e | (Inr _, p) \<Rightarrow> Inr p)"

definition open_transactional :: "'w cluster_ops \<Rightarrow> 'w \<Rightarrow> string \<Rightarrow> client_error + 'w producer" where
  "open_transactional ops w txn_id =
     finish_construction (init_producer_id ops (fresh_producer w transactional_producer (Some txn_id)))"

definition open_idempotent :: "'w cluster_ops \<Rightarrow> 'w \<Rightarrow> client_error + 'w producer" where
  "open_idempotent ops w = finish_construction (init_producer_id ops (fresh_producer w idempotent_producer None))"

section \<open>Transactions\<close>

definition client_begin :: "'w producer \<Rightarrow> (client_error + unit) \<times> 'w producer" where
  "client_begin p =
     (case begin_transaction (pd_state p) of
        (Inl e, s) \<Rightarrow> (Inl (Producer e), p\<lparr>pd_state := s\<rparr>)
      | (Inr _, s) \<Rightarrow> (Inr (), p\<lparr>pd_state := s\<rparr>))"

text \<open>\<^verbatim>\<open>identity().ok_or(..)?\<close> and \<^verbatim>\<open>transactional_id.clone().ok_or(..)?\<close>.\<close>

definition credentials_of :: "'w producer \<Rightarrow> client_error + producer_identity \<times> string" where
  "credentials_of p =
     (case identity (pd_state p) of
        None \<Rightarrow> Inl (Missing ''producer id'')
      | Some i \<Rightarrow> (case pd_transactional_id p of
                     None \<Rightarrow> Inl (Missing ''transactional id'')
                   | Some txn_id \<Rightarrow> Inr (i, txn_id)))"

definition client_end :: "'w cluster_ops \<Rightarrow> bool \<Rightarrow> 'w producer \<Rightarrow> (client_error + unit) \<times> 'w producer" where
  "client_end ops committed p =
     (case end_transaction (pd_state p) of
        (Inl e, s) \<Rightarrow> (Inl (Producer e), p\<lparr>pd_state := s\<rparr>)
      | (Inr _, s) \<Rightarrow>
          (let p1 = p\<lparr>pd_state := s\<rparr>
           in case credentials_of p1 of
                Inl e \<Rightarrow> (Inl e, p1)
              | Inr (i, txn_id) \<Rightarrow>
                  (case coordinator_call ops ''EndTxn'' (EndTxn txn_id i committed) p1 of
                     (Inl e, p2) \<Rightarrow> (Inl e, p2)
                   | (Inr _, p2) \<Rightarrow> (Inr (), p2\<lparr>pd_state := on_end_transaction (pd_state p2)\<rparr>))))"

definition commit_transaction :: "'w cluster_ops \<Rightarrow> 'w producer \<Rightarrow> (client_error + unit) \<times> 'w producer" where
  "commit_transaction ops p = client_end ops True p"

definition abort_transaction :: "'w cluster_ops \<Rightarrow> 'w producer \<Rightarrow> (client_error + unit) \<times> 'w producer" where
  "abort_transaction ops p = client_end ops False p"

text \<open>The group coordinator is found afresh and kept only for this call.\<close>

fun group_coordinator_loop ::
  "'w cluster_ops \<Rightarrow> string \<Rightarrow> coordinator_request \<Rightarrow> nat list \<Rightarrow> string option \<Rightarrow> 'w producer \<Rightarrow>
   (client_error + unit) \<times> 'w producer" where
  "group_coordinator_loop ops group_id req [] a p = (Inl (out_of_retries ''TxnOffsetCommit''), p)"
| "group_coordinator_loop ops group_id req (attempt # attempts) a p =
     (let commit_at = (\<lambda>at p1.
            (case call_at ops (pd_cluster p1) at req of
               (Inl e, w) \<Rightarrow> (Inl e, p1\<lparr>pd_cluster := w\<rparr>)
             | (Inr resp, w) \<Rightarrow>
                 (let p2 = p1\<lparr>pd_cluster := w\<rparr>; code = first_error resp
                  in if is_ok code then (Inr (), p2)
                     else case disposition_of code of
                            Retry \<Rightarrow> group_coordinator_loop ops group_id req attempts (Some at) (pause ops attempt p2)
                          | FindCoordinator \<Rightarrow> group_coordinator_loop ops group_id req attempts None (pause ops attempt p2)
                          | Fatal \<Rightarrow> (Inl (Broker ''TxnOffsetCommit'' (code_of code) Fatal),
                                       p2\<lparr>pd_state := fence (pd_state p2)\<rparr>)
                          | d \<Rightarrow> (Inl (Broker ''TxnOffsetCommit'' (code_of code) d), p2))))
      in case a of
           Some at \<Rightarrow> commit_at at p
         | None \<Rightarrow>
             (case call_find_coordinator ops (pd_cluster p) group_id 0 of
                (Inl e, w) \<Rightarrow> (Inl e, p\<lparr>pd_cluster := w\<rparr>)
              | (Inr resp, w) \<Rightarrow>
                  (let p1 = p\<lparr>pd_cluster := w\<rparr>; code = ErrorCode (ci_error_code resp)
                   in if is_ok code then commit_at (coordinator_address resp) p1
                      else if disposition_of code \<in> {Retry, FindCoordinator}
                      then group_coordinator_loop ops group_id req attempts None (pause ops attempt p1)
                      else (Inl (Broker ''FindCoordinator'' (code_of code) (disposition_of code)), p1))))"

definition group_coordinator_call ::
  "'w cluster_ops \<Rightarrow> string \<Rightarrow> coordinator_request \<Rightarrow> 'w producer \<Rightarrow> (client_error + unit) \<times> 'w producer" where
  "group_coordinator_call ops group_id req p = group_coordinator_loop ops group_id req [0..<MAX_RETRIES] None p"

definition send_offsets_to_transaction ::
  "'w cluster_ops \<Rightarrow> (topic_partition, int) btree \<Rightarrow> group_metadata \<Rightarrow> 'w producer \<Rightarrow> (client_error + unit) \<times> 'w producer" where
  "send_offsets_to_transaction ops offsets md p =
     (if txn (pd_state p) \<noteq> InTransaction then (Inl (Producer NoTransaction), p)
      else if offsets = [] then (Inr (), p)
      else case credentials_of p of
             Inl e \<Rightarrow> (Inl e, p)
           | Inr (i, txn_id) \<Rightarrow>
               (case coordinator_call ops ''AddOffsetsToTxn'' (AddOffsetsToTxn txn_id i (gmd_group_id md)) p of
                  (Inl e, p1) \<Rightarrow> (Inl e, p1)
                | (Inr _, p1) \<Rightarrow>
                    group_coordinator_call ops (gmd_group_id md)
                      (TxnOffsetCommit txn_id i md
                        (bt_group (\<lambda>(tp, _). tp_topic tp) (\<lambda>(tp, off). (tp_partition tp, off)) offsets)) p1))"

section \<open>Queueing records\<close>

definition enroll_all :: "'w cluster_ops \<Rightarrow> string \<Rightarrow> int list \<Rightarrow> 'w producer \<Rightarrow> (client_error + unit) \<times> 'w producer" where
  "enroll_all ops topic parts p =
     (let wanted = filter (needs_enrollment (pd_state p) topic) parts
      in if wanted = [] then (Inr (), p)
         else case credentials_of p of
                Inl e \<Rightarrow> (Inl e, p)
              | Inr (i, txn_id) \<Rightarrow>
                  (case coordinator_call ops ''AddPartitionsToTxn'' (AddPartitionsToTxn txn_id i topic wanted) p of
                     (Inl e, p1) \<Rightarrow> (Inl e, p1)
                   | (Inr _, p1) \<Rightarrow>
                       (Inr (), p1\<lparr>pd_state := fold (\<lambda>part s. on_enrolled s topic part) wanted (pd_state p1)\<rparr>)))"

definition batch_records ::
  "'w producer \<Rightarrow> producer_identity \<Rightarrow> int \<Rightarrow> producer_record list \<Rightarrow> sequence_range \<Rightarrow> batch_record list" where
  "batch_records p i millis recs rng =
     map (\<lambda>(n, r). \<lparr>br_transactional = (pd_transactional_id p \<noteq> None), br_identity = i, br_offset = int n,
                     br_sequence = wrap32 (seq_base rng + (if int n \<le> i32_max then int n else i32_max)),
                     br_timestamp = (case pre_timestamp r of Some t \<Rightarrow> t | None \<Rightarrow> millis),
                     br_key = pre_key r, br_value = pre_value r\<rparr>) (enumerate 0 recs)"

definition encode_batch ::
  "'w cluster_ops \<Rightarrow> 'w producer \<Rightarrow> producer_record list \<Rightarrow> sequence_range \<Rightarrow> client_error + bytes" where
  "encode_batch ops p recs rng =
     (case identity (pd_state p) of
        None \<Rightarrow> Inl (Missing ''producer id'')
      | Some i \<Rightarrow>
          (case encode_records ops (pd_compression p) (batch_records p i (unix_millis ops (pd_cluster p)) recs rng) of
             Inl e \<Rightarrow> Inl (Core (Codec (''encode record batch: '' @ e)))
           | Inr b \<Rightarrow> Inr b))"

definition encode_for ::
  "'w cluster_ops \<Rightarrow> string \<Rightarrow> int \<Rightarrow> producer_record list \<Rightarrow> 'w producer \<Rightarrow> (client_error + bytes) \<times> 'w producer" where
  "encode_for ops topic part recs p =
     (if i32_max < int (length recs) then (Inl (Missing ''batch size''), p)
      else case allocate (pd_state p) topic part (int (length recs)) of
             (Inl e, s) \<Rightarrow> (Inl (Producer e), p\<lparr>pd_state := s\<rparr>)
           | (Inr rng, s) \<Rightarrow>
               (let p1 = p\<lparr>pd_state := s\<rparr> in (encode_batch ops p1 recs rng, p1)))"

definition enqueue ::
  "'w cluster_ops \<Rightarrow> string \<Rightarrow> int \<Rightarrow> producer_record list \<Rightarrow> 'w producer \<Rightarrow> (client_error + unit) \<times> 'w producer" where
  "enqueue ops topic part recs p =
     (if recs = [] then (Inr (), p)
      else case enroll_all ops topic [part] p of
             (Inl e, p1) \<Rightarrow> (Inl e, p1)
           | (Inr _, p1) \<Rightarrow>
               (case encode_for ops topic part recs p1 of
                  (Inl e, p2) \<Rightarrow> (Inl e, p2)
                | (Inr batch, p2) \<Rightarrow>
                    (Inr (), p2\<lparr>pd_pending := bt_entry (topic, part) [] (\<lambda>q. q @ [batch]) (pd_pending p2)\<rparr>)))"

section \<open>Staging\<close>

text \<open>\<^verbatim>\<open>staged.remove(..)\<close> then \<^verbatim>\<open>enqueue\<close>, key by key: the loop of \<^verbatim>\<open>send_ready\<close> and \<^verbatim>\<open>drain_staged\<close>.\<close>

fun unstage :: "'w cluster_ops \<Rightarrow> partition_key list \<Rightarrow> 'w producer \<Rightarrow> (client_error + unit) \<times> 'w producer" where
  "unstage ops [] p = (Inr (), p)"
| "unstage ops (key # keys) p =
     (case bt_get (pd_staged p) key of
        None \<Rightarrow> unstage ops keys p
      | Some st \<Rightarrow>
          (case enqueue ops (fst key) (snd key) (sb_records st) (p\<lparr>pd_staged := bt_remove key (pd_staged p)\<rparr>) of
             (Inl e, p1) \<Rightarrow> (Inl e, p1)
           | (Inr _, p1) \<Rightarrow> unstage ops keys p1))"

definition drain_staged :: "'w cluster_ops \<Rightarrow> 'w producer \<Rightarrow> (client_error + unit) \<times> 'w producer" where
  "drain_staged ops p = unstage ops (bt_keys (pd_staged p)) p"

definition flush :: "'w cluster_ops \<Rightarrow> 'w producer \<Rightarrow> (client_error failure + written) \<times> 'w producer" where
  "flush ops p =
     (case drain_staged ops p of
        (Inl e, p1) \<Rightarrow> (Inl (Failed e), p1)
      | (Inr _, p1) \<Rightarrow> flush_pending ops p1)"

definition is_ready :: "'w producer \<Rightarrow> nat \<Rightarrow> staged_batch \<Rightarrow> bool" where
  "is_ready p t st \<longleftrightarrow> pd_batch_size p \<le> sb_bytes st \<or> pd_linger p \<le> t - sb_since st"

definition send_ready :: "'w cluster_ops \<Rightarrow> 'w producer \<Rightarrow> (client_error failure + unit) \<times> 'w producer" where
  "send_ready ops p =
     (let ready = map fst (filter (\<lambda>(_, st). is_ready p (now ops (pd_cluster p)) st) (pd_staged p))
      in if ready = [] then (Inr (), p)
         else case unstage ops ready p of
                (Inl e, p1) \<Rightarrow> (Inl (Failed e), p1)
              | (Inr _, p1) \<Rightarrow>
                  (case flush ops p1 of (Inl e, p2) \<Rightarrow> (Inl e, p2) | (Inr _, p2) \<Rightarrow> (Inr (), p2)))"

definition tick :: "'w cluster_ops \<Rightarrow> 'w producer \<Rightarrow> (client_error failure + unit) \<times> 'w producer" where
  "tick ops p = send_ready ops p"

definition linger_deadline :: "'w producer \<Rightarrow> nat option" where
  "linger_deadline p =
     (case map (\<lambda>st. sb_since st + pd_linger p) (bt_values (pd_staged p)) of
        [] \<Rightarrow> None
      | t # ts \<Rightarrow> Some (fold min ts t))"

definition record_bytes :: "producer_record \<Rightarrow> nat" where
  "record_bytes r =
     (case pre_key r of None \<Rightarrow> 0 | Some k \<Rightarrow> length k) + (case pre_value r of None \<Rightarrow> 0 | Some v \<Rightarrow> length v) + RECORD_OVERHEAD"

definition stage :: "'w cluster_ops \<Rightarrow> partition_key \<Rightarrow> producer_record \<Rightarrow> 'w producer \<Rightarrow> 'w producer" where
  "stage ops key r p =
     p\<lparr>pd_staged := bt_entry key \<lparr>sb_records = [], sb_bytes = 0, sb_since = now ops (pd_cluster p)\<rparr>
        (\<lambda>st. st\<lparr>sb_records := sb_records st @ [r], sb_bytes := sb_bytes st + record_bytes r\<rparr>) (pd_staged p)\<rparr>"

definition produce_to ::
  "'w cluster_ops \<Rightarrow> string \<Rightarrow> int \<Rightarrow> producer_record \<Rightarrow> 'w producer \<Rightarrow> (client_error failure + unit) \<times> 'w producer" where
  "produce_to ops topic part r p = send_ready ops (stage ops (topic, part) r p)"

section \<open>Choosing partitions\<close>

fun count_waiting_loop ::
  "'w cluster_ops \<Rightarrow> string \<Rightarrow> nat list \<Rightarrow> 'w producer \<Rightarrow> (client_error + int) \<times> 'w producer" where
  "count_waiting_loop ops topic [] p = (Inl (NoLeader topic (- 1)), p)"
| "count_waiting_loop ops topic (attempt # attempts) p =
     (case topic_partition_count ops (pd_cluster p) topic of (r, w) \<Rightarrow>
        let p1 = p\<lparr>pd_cluster := w\<rparr>;
            wait = (if attempt + 1 < MAX_RETRIES then count_waiting_loop ops topic attempts (pause ops attempt p1)
                    else (case r of Inl e \<Rightarrow> (Inl e, p1) | Inr _ \<Rightarrow> (Inl (NoLeader topic (- 1)), p1)))
        in case r of
             Inr n \<Rightarrow> if 0 < n then (Inr n, p1) else wait
           | Inl (NoLeader _ _) \<Rightarrow> wait
           | Inl e \<Rightarrow> (Inl e, p1))"

definition partition_count_waiting :: "'w cluster_ops \<Rightarrow> string \<Rightarrow> 'w producer \<Rightarrow> (client_error + int) \<times> 'w producer" where
  "partition_count_waiting ops topic p = count_waiting_loop ops topic [0..<MAX_RETRIES] p"

text \<open>The counter is a copy: the producer's own does not move.\<close>

definition producer_partition_for ::
  "'w cluster_ops \<Rightarrow> string \<Rightarrow> bytes option \<Rightarrow> 'w producer \<Rightarrow> (client_error + int) \<times> 'w producer" where
  "producer_partition_for ops topic key p =
     (case partition_count_waiting ops topic p of
        (Inl e, p1) \<Rightarrow> (Inl e, p1)
      | (Inr n, p1) \<Rightarrow>
          (case fst (partition_for (pd_partitioner p1) key n (pd_round_robin p1)) of
             None \<Rightarrow> (Inl (NoLeader topic (- 1)), p1)
           | Some part \<Rightarrow> (Inr part, p1)))"

definition produce ::
  "'w cluster_ops \<Rightarrow> string \<Rightarrow> producer_record \<Rightarrow> 'w producer \<Rightarrow> (client_error failure + unit) \<times> 'w producer" where
  "produce ops topic r p =
     (case producer_partition_for ops topic (pre_key r) p of
        (Inl e, p1) \<Rightarrow> (Inl (Failed e), p1)
      | (Inr part, p1) \<Rightarrow> produce_to ops topic part r p1)"

definition send ::
  "'w cluster_ops \<Rightarrow> string \<Rightarrow> int \<Rightarrow> producer_record list \<Rightarrow> 'w producer \<Rightarrow> (client_error failure + int) \<times> 'w producer" where
  "send ops topic part recs p =
     (if recs = [] then (Inr (- 1), p)
      else case enqueue ops topic part recs p of
             (Inl e, p1) \<Rightarrow> (Inl (Failed e), p1)
           | (Inr _, p1) \<Rightarrow>
               (case flush ops p1 of
                  (Inl e, p2) \<Rightarrow> (Inl e, p2)
                | (Inr ws, p2) \<Rightarrow> (Inr (case ws of [] \<Rightarrow> - 1 | (_, _, off) # _ \<Rightarrow> off), p2)))"

fun place_records ::
  "string \<Rightarrow> int \<Rightarrow> producer_record list \<Rightarrow> 'w producer \<Rightarrow> (int, producer_record list) btree \<Rightarrow>
   (client_error + (int, producer_record list) btree) \<times> 'w producer" where
  "place_records topic n [] p acc = (Inr acc, p)"
| "place_records topic n (r # rs) p acc =
     (case partition_for (pd_partitioner p) (pre_key r) n (pd_round_robin p) of
        (None, rr) \<Rightarrow> (Inl (NoLeader topic (- 1)), p\<lparr>pd_round_robin := rr\<rparr>)
      | (Some part, rr) \<Rightarrow>
          place_records topic n rs (p\<lparr>pd_round_robin := rr\<rparr>) (bt_entry part [] (\<lambda>xs. xs @ [r]) acc))"

fun enqueue_all ::
  "'w cluster_ops \<Rightarrow> string \<Rightarrow> (int \<times> producer_record list) list \<Rightarrow> 'w producer \<Rightarrow> (client_error + unit) \<times> 'w producer" where
  "enqueue_all ops topic [] p = (Inr (), p)"
| "enqueue_all ops topic ((part, recs) # rest) p =
     (case enqueue ops topic part recs p of
        (Inl e, p1) \<Rightarrow> (Inl e, p1)
      | (Inr _, p1) \<Rightarrow> enqueue_all ops topic rest p1)"

definition send_keyed ::
  "'w cluster_ops \<Rightarrow> string \<Rightarrow> producer_record list \<Rightarrow> 'w producer \<Rightarrow>
   (client_error failure + (int \<times> int) list) \<times> 'w producer" where
  "send_keyed ops topic recs p =
     (if recs = [] then (Inr [], p)
      else case partition_count_waiting ops topic p of
             (Inl e, p1) \<Rightarrow> (Inl (Failed e), p1)
           | (Inr n, p1) \<Rightarrow>
               (case place_records topic n recs p1 [] of
                  (Inl e, p2) \<Rightarrow> (Inl (Failed e), p2)
                | (Inr by_partition, p2) \<Rightarrow>
                    (case enroll_all ops topic (bt_keys by_partition) p2 of
                       (Inl e, p3) \<Rightarrow> (Inl (Failed e), p3)
                     | (Inr _, p3) \<Rightarrow>
                         (case enqueue_all ops topic by_partition p3 of
                            (Inl e, p4) \<Rightarrow> (Inl (Failed e), p4)
                          | (Inr _, p4) \<Rightarrow>
                              (case flush ops p4 of
                                 (Inl e, p5) \<Rightarrow> (Inl e, p5)
                               | (Inr ws, p5) \<Rightarrow> (Inr (map snd ws), p5))))))"

end
