(* ===== verification/Window_Progress.thy ===== *)
theory Window_Progress
  imports Window_Safety
begin

text \<open>
  Progress of the pipelined window on a cluster where nothing fails: a turn writes a whole window of every
  partition, so \<open>flush\<close> delivers queues of up to \<open>MAX_RETRIES\<close> windows, and gives up on longer ones.
\<close>

section \<open>A healthy cluster\<close>

definition everything :: "'w \<Rightarrow> partition_key \<Rightarrow> bytes set" where
  "everything w k = UNIV"

definition accepted :: "'w \<Rightarrow> produce_request \<Rightarrow> produce_response \<Rightarrow> bool" where
  "accepted w rq resp \<longleftrightarrow> covers rq resp \<and> (\<forall>(k, c)\<in>set (response_codes resp). is_ok c)"

text \<open>A cluster on which nothing fails: leaders are known, sends go through, every batch is accepted.\<close>

definition healthy :: "('w \<Rightarrow> string \<Rightarrow> produce_request list) \<Rightarrow> 'w cluster_ops \<Rightarrow> bool" where
  "healthy outst ops \<longleftrightarrow>
     pipelined outst everything accepted ops \<and>
     (\<forall>w t i. \<exists>a w'. leader_addr ops w t i = (Inr a, w')) \<and>
     (\<forall>w a rq. fst (send_at ops w a rq) = Inr () \<and> outst (snd (send_at ops w a rq)) a = outst w a @ [rq]) \<and>
     (\<forall>w as. distinct as \<longrightarrow> (\<forall>a\<in>set as. outst w a \<noteq> []) \<longrightarrow>
        (\<exists>resps. fst (recv_many ops w as) = map Inr resps))"

lemma healthy_pipelined: "healthy outst ops \<Longrightarrow> pipelined outst everything accepted ops"
  by (simp add: healthy_def)

lemma healthy_send_round:
  assumes "healthy outst ops"
  shows "\<exists>w. send_round ops p r bb sent = ((None, sent @ targets p bb r), p\<lparr>pd_cluster := w\<rparr>) \<and>
    (\<forall>a. outst w a = outst (pd_cluster p) a @ puts p r (targets p bb r) a)"
proof (induction bb arbitrary: p sent)
  case Nil
  show ?case by (auto simp: targets_def intro!: exI [of _ "pd_cluster p"])
next
  case (Cons b bb)
  obtain a keys where b: "b = (a, keys)" by (cases b)
  show ?case
  proof (cases "taking p r keys = []")
    case True
    then show ?thesis using Cons.IH [of p sent] by (simp add: b targets_Cons)
  next
    case False
    let ?ks = "taking p r keys"
    let ?rq = "produce_request_for p ?ks r"
    obtain w1 where s: "send_at ops (pd_cluster p) a ?rq = (Inr (), w1)" and here: "outst w1 a = outst (pd_cluster p) a @ [?rq]"
      using assms unfolding healthy_def by (metis prod.collapse snd_conv)
    have law: "sends outst everything (pd_cluster p) a ?rq (Inr (), w1)"
      using healthy_pipelined [OF assms] s unfolding pipelined_def by metis
    have all: "outst w1 x = outst (pd_cluster p) x @ puts p r [(a, ?ks)] x" for x
      using law here by (cases "x = a") (simp_all add: sends_def puts_def)
    obtain w where "send_round ops (p\<lparr>pd_cluster := w1\<rparr>) r bb (sent @ [(a, ?ks)]) =
        ((None, (sent @ [(a, ?ks)]) @ targets p bb r), p\<lparr>pd_cluster := w\<rparr>)"
      "\<forall>x. outst w x = outst w1 x @ puts p r (targets p bb r) x"
      using Cons.IH [of "p\<lparr>pd_cluster := w1\<rparr>" "sent @ [(a, ?ks)]"] by auto
    moreover have "puts p r (targets p (b # bb) r) x = puts p r [(a, ?ks)] x @ puts p r (targets p bb r) x" for x
      unfolding b targets_Cons using False by (simp only: if_False puts_append)
    ultimately show ?thesis using s False all by (auto simp: b targets_Cons)
  qed
qed

lemma healthy_send_rounds:
  assumes "healthy outst ops" and "\<forall>r<hi. targets p bb r \<noteq> []" and "lo \<le> hi"
    and "\<forall>a. outst (pd_cluster p) a = requests_to p bb a [0..<lo]"
  shows "\<exists>w. send_rounds ops p bb [lo..<hi] (map (targets p bb) [0..<lo]) = (Inr (map (targets p bb) [0..<hi]), p\<lparr>pd_cluster := w\<rparr>) \<and>
    (\<forall>a. outst w a = requests_to p bb a [0..<hi])"
  using assms(2-4)
proof (induction "hi - lo" arbitrary: lo p)
  case 0
  then show ?case by (auto intro!: exI [of _ "pd_cluster p"])
next
  case (Suc n)
  then have lt: "lo < hi" by simp
  obtain w1 where s: "send_round ops p lo bb [] = ((None, targets p bb lo), p\<lparr>pd_cluster := w1\<rparr>)"
    "\<forall>a. outst w1 a = outst (pd_cluster p) a @ puts p lo (targets p bb lo) a"
    using healthy_send_round [OF assms(1), of p lo bb "[]"] by auto
  let ?p1 = "p\<lparr>pd_cluster := w1\<rparr>"
  have reqs: "requests_to p bb a [0..<Suc lo] = requests_to p bb a [0..<lo] @ puts p lo (targets p bb lo) a" for a
    by (simp add: requests_to_def)
  have st: "\<forall>a. outst (pd_cluster ?p1) a = requests_to ?p1 bb a [0..<Suc lo]"
    using s(2) Suc.prems(3) by (simp add: reqs del: upt_Suc)
  have "n = hi - Suc lo" "Suc lo \<le> hi" using Suc.hyps(2) lt by auto
  from Suc.hyps(1) [OF this(1) _ this(2) st] Suc.prems(1)
  obtain w where w: "send_rounds ops ?p1 bb [Suc lo..<hi] (map (targets p bb) [0..<Suc lo]) =
      (Inr (map (targets p bb) [0..<hi]), p\<lparr>pd_cluster := w\<rparr>)" "\<forall>a. outst w a = requests_to p bb a [0..<hi]"
    by auto
  moreover have "targets p bb lo \<noteq> []" using Suc.prems(1) lt by blast
  ultimately show ?case using s(1) lt by (auto simp: upt_conv_Cons)
qed

lemma collect_round_no_error:
  "snd (snd (collect_round r (zip sent (map Inr resps)) (codes, offs, err))) = err"
proof (induction sent arbitrary: resps codes offs)
  case (Cons t sent)
  show ?case
  proof (cases resps)
    case (Cons x xs)
    obtain c o' where "fold (collect_topic r) x (codes, offs) = (c, o')" by fastforce
    then show ?thesis using Cons.IH [of xs c o'] \<open>resps = x # xs\<close> by (cases t) simp
  qed simp
qed simp

lemma healthy_collect:
  assumes "healthy outst ops" and "bt_wf bb" and "\<forall>a. outst (pd_cluster p) a = requests_to p0 bb a rs"
  shows "snd (fst (collect_rounds ops r (map (targets p0 bb) rs) p out None)) = None"
  using assms(3)
proof (induction rs arbitrary: r p out)
  case (Cons x rs)
  let ?sent = "targets p0 bb x" and ?w = "pd_cluster p"
  have split: "outst ?w a = puts p0 x ?sent a @ requests_to p0 bb a rs" for a
    using Cons.prems by (simp add: requests_to_def)
  have busy: "outst ?w (fst t) = produce_request_for p0 (snd t) x # requests_to p0 bb (fst t) rs" if "t \<in> set ?sent" for t
    using split [of "fst t"] puts_one [OF distinct_targets [OF assms(2)], of "fst t" "snd t" p0 x p0] that by simp
  obtain resps w1 where rs: "recv_many ops ?w (map fst ?sent) = (map Inr resps, w1)"
  proof -
    have "\<forall>a\<in>set (map fst ?sent). outst ?w a \<noteq> []" using busy by auto
    with assms(1) distinct_targets [OF assms(2)] obtain resps where "fst (recv_many ops ?w (map fst ?sent)) = map Inr resps"
      unfolding healthy_def by meson
    then show ?thesis using that by (metis prod.collapse)
  qed
  have law: "receives outst everything accepted ?w (map fst ?sent) (map Inr resps, w1)"
    using healthy_pipelined [OF assms(1)] distinct_targets [OF assms(2)] rs unfolding pipelined_def by metis
  then have len: "length resps = length ?sent" by (simp add: receives_def)
  have st: "outst w1 a = requests_to p0 bb a rs" for a
  proof (cases "a \<in> fst ` set ?sent")
    case False
    then show ?thesis using law split puts_none [OF False] by (simp add: receives_def)
  next
    case True
    then obtain t where t: "t \<in> set ?sent" "a = fst t" by auto
    then obtain z where "(t, z) \<in> set (zip ?sent resps)" using len by (metis in_set_impl_in_set_zip1)
    then have "(a, Inr z) \<in> set (zip (map fst ?sent) (map Inr resps))" by (force simp: t(2) zip_map_map)
    with law have "outst ?w a = hd (outst ?w a) # outst w1 a" unfolding receives_def by fastforce
    with busy [OF t(1)] t(2) show ?thesis by (metis list.inject)
  qed
  obtain codes offs err where c: "collect_round r (zip ?sent (map Inr resps)) ([], pd_offsets p, None) = (codes, offs, err)"
    by (metis surj_pair)
  then have "err = None" using collect_round_no_error [of r ?sent resps "[]" "pd_offsets p" None] by simp
  with Cons.IH [of "p\<lparr>pd_cluster := w1, pd_offsets := offs\<rparr>"] st rs c show ?case by simp
qed simp

lemma healthy_route:
  assumes "healthy outst ops" and "bt_wf bb"
  shows "\<exists>bb' p'. route ops p keys bb un = (Inr (bb', un), p') \<and> mset (routed bb') = mset (routed bb) + mset keys"
  using assms(2)
proof (induction keys arbitrary: p bb)
  case (Cons key keys)
  obtain a w where l: "leader_addr ops (pd_cluster p) (fst key) (snd key) = (Inr a, w)"
    using assms(1) unfolding healthy_def by blast
  have "bt_wf (bt_entry a [] (\<lambda>ks. ks @ [key]) bb)" using Cons.prems by simp
  from Cons.IH [OF this, of "p\<lparr>pd_cluster := w\<rparr>"] routed_entry [OF Cons.prems, of a key] l show ?case by auto
qed simp

lemma note_all_ok:
  "\<forall>(r, k, c)\<in>set its. is_ok c \<Longrightarrow> fold_sum (\<lambda>(r, kc). note_result ops r kc) its v = Inr v"
  by (induction its) (auto simp: note_result_def)

lemma window_depth_bounds:
  assumes "k \<in> set (routed bb)" and "\<forall>k\<in>set (routed bb). bt_get (pd_pending p) k \<noteq> None"
  shows "min (window_depth p bb) (length (queue p k)) = min (pd_max_in_flight p) (length (queue p k)) \<and>
    (\<forall>r<window_depth p bb. targets p bb r \<noteq> [])"
proof -
  define lens where "lens = concat (map (\<lambda>key. case bt_get (pd_pending p) key of None \<Rightarrow> [] | Some q \<Rightarrow> [length q]) (routed bb))"
  have lens: "set lens = (\<lambda>k. length (queue p k)) ` set (routed bb)"
    using assms(2) unfolding lens_def by (force simp: queue_def split: option.splits)
  have ne: "set lens \<noteq> {}" using assms(1) lens by auto
  have "window_depth p bb = min (if lens = [] then 0 else Max (set lens)) (pd_max_in_flight p)"
    by (simp only: window_depth_def lens_def routed_def bt_values_def Let_def)
  then have depth: "window_depth p bb = min (Max (set lens)) (pd_max_in_flight p)" using ne by simp
  have "length (queue p k) \<le> Max (set lens)" using assms(1) lens by (intro Max_ge) auto
  moreover have "targets p bb r \<noteq> []" if "r < window_depth p bb" for r
  proof
    assume t: "targets p bb r = []"
    have "Max (set lens) \<in> set lens" using ne by (intro Max_in) auto
    then obtain k' where k': "k' \<in> set (routed bb)" "length (queue p k') = Max (set lens)" using lens by auto
    then have "k' \<in> set (concat (map snd (targets p bb r)))" using that depth by (simp add: concat_targets)
    then show False by (simp add: t)
  qed
  ultimately show ?thesis by (simp add: depth)
qed

lemma healthy_window:
  assumes "healthy outst ops" and "bt_wf bb" and "distinct (routed bb)" and "idle outst (pd_cluster p)"
    and "bt_wf (pd_pending p)" and "set (routed bb) = set (bt_keys (pd_pending p))" and "pd_pending p \<noteq> []"
  shows "\<exists>outs p3. window_turn ops attempt out bb p = after_window ops attempt outs out p3 \<and> frame_of p p3 \<and>
    idle outst (pd_cluster p3) \<and> length outs = window_depth p bb \<and>
    (\<exists>ws. window_codes everything accepted p (set (routed bb)) ws outs)"
proof -
  let ?d = "window_depth p bb"
  have "bt_keys (pd_pending p) \<noteq> []" using assms(7) by (simp add: bt_keys_def)
  then obtain k where k: "k \<in> set (routed bb)" unfolding assms(6) by (meson list.set_sel(1))
  have known: "\<forall>k\<in>set (routed bb). bt_get (pd_pending p) k \<noteq> None" unfolding assms(6) by (simp add: bt_keys_get)
  have tgt: "\<forall>r<?d. targets p bb r \<noteq> []" using window_depth_bounds [OF k known] by blast
  have "\<forall>a. outst (pd_cluster p) a = requests_to p bb a [0..<0]" using assms(4) by (simp add: idle_def requests_to_def)
  from healthy_send_rounds [OF assms(1) tgt _ this]
  obtain w where s: "send_window ops p bb ?d = (Inr (map (targets p bb) [0..<?d]), p\<lparr>pd_cluster := w\<rparr>)"
    and st: "\<forall>a. outst w a = requests_to p bb a [0..<?d]" by (auto simp: send_window_def)
  let ?p2 = "p\<lparr>pd_cluster := w\<rparr>"
  obtain outs e p3 where c: "collect_window ops ?p2 (map (targets p bb) [0..<?d]) = ((outs, e), p3)" by (metis surj_pair)
  have e: "e = None" using healthy_collect [OF assms(1,2), of ?p2 p "[0..<?d]" 0 "[]"] st c by (simp add: collect_window_def)
  from window_exchange [OF healthy_pipelined [OF assms(1)] assms(2,4) s c] e
  obtain d w1 where p3: "frame_of p p3" "idle outst (pd_cluster p3)" and d: "d \<le> ?d" "d = ?d \<or> targets p bb d = []"
    and ans: "window_answers everything accepted p 0 w1 (map (targets p bb) [0..<d]) outs (pd_cluster p3)"
    by (auto simp: frame_of_def)
  have "d = ?d" using d tgt by (metis le_neq_implies_less)
  moreover have "\<And>w rq resp. accepted w rq resp \<Longrightarrow> covers rq resp" by (simp add: accepted_def)
  ultimately have "length outs = ?d \<and> (\<exists>ws. window_codes everything accepted p (set (routed bb)) ws outs)"
    using window_answers_codes [OF ans assms(3)] by blast
  then show ?thesis using s c e p3 by (auto simp: window_turn_def)
qed

lemma accepted_codes_ok:
  assumes "window_codes everything accepted p K ws outs"
  shows "\<forall>(r, k, c)\<in>set (items outs). is_ok c"
proof clarify
  fix r t i c assume "(r, (t, i), c) \<in> set (items outs)"
  then have "r < length outs" "((t, i), c) \<in> set (outs ! r)" by (simp_all add: items_mem)
  from window_codes_answer [OF assms this] show "is_ok c" unfolding accepted_def by blast
qed

lemma healthy_after_window:
  assumes "healthy outst ops" and "window_codes everything accepted p K ws outs" and "idle outst (pd_cluster p)"
    and "bt_wf (pd_pending p)" and "length outs = depth"
    and "\<And>k. if k \<in> K then min depth (length (queue p k)) = min m (length (queue p k)) else queue p k = []"
  shows "\<exists>p' out'. (\<forall>k. queue p' k = drop m (queue p k)) \<and> pd_max_in_flight p' = pd_max_in_flight p \<and>
    bt_wf (pd_pending p') \<and> (\<forall>q\<in>set (bt_values (pd_pending p')). q \<noteq> []) \<and> idle outst (pd_cluster p') \<and>
    after_window ops attempt outs out p = (if pd_pending p' = [] then Done (Inr out') p' else Again out' p')"
proof -
  note pl = healthy_pipelined [OF assms(1)]
  let ?v = "\<lparr>vd_producer = p, vd_failed_at = [], vd_needs_refresh = False\<rparr>"
  have note_ok: "note_outcomes ops outs p = Inr ?v"
    unfolding note_outcomes_items by (rule note_all_ok [OF accepted_codes_ok [OF assms(2)]])
  obtain p1 out1 where ret: "retire [] outs (p, out) = (p1, out1)" by fastforce
  define p2 where "p2 = drop_empty (p1\<lparr>pd_offsets := []\<rparr>)"
  have ans: "\<And>w rq resp. accepted w rq resp \<Longrightarrow> answered everything w rq resp"
    unfolding accepted_def answered_def everything_def by blast
  have r2: "bt_wf (pd_pending p2)" "quiet outst everything (pd_cluster p) (pd_cluster p2)"
    and q2: "\<And>k. queue p2 k = drop (length (filter (\<lambda>(r, k', c). k' = k \<and> live [] k r) (items outs))) (queue p k)"
    using after_window_retires [OF pl ans assms(2) _ assms(4) note_ok, of out p1 out1 p2] ret
    by (auto simp: p2_def everything_def log_le_def)
  have q: "queue p2 k = drop m (queue p k)" for k
  proof (cases "k \<in> K")
    case True
    then show ?thesis
      using q2 [of k] count_retired [OF assms(2) True, of "[]"] assms(5) assms(6) [of k]
      by (simp add: retired_def) (metis drop_all length_drop linorder_linear min.absorb1 min.absorb2 drop_take take_all)
  next
    case False
    then show ?thesis using q2 [of k] assms(6) [of k] by simp
  qed
  have mif: "pd_max_in_flight p2 = pd_max_in_flight p"
  proof -
    obtain mm where "p1 = p\<lparr>pd_pending := mm\<rparr>" using retire_fold_queue [OF ret [unfolded retire_items]] by blast
    then show ?thesis by (simp add: p2_def)
  qed
  have ne: "\<forall>q\<in>set (bt_values (pd_pending p2)). q \<noteq> []"
    by (auto simp: p2_def drop_empty_def bt_values_def)
  have id2: "idle outst (pd_cluster p2)" using r2(2) assms(3) by (simp add: quiet_def)
  have aw: "after_window ops attempt outs out p =
      (if pd_pending p2 = [] then Done (Inr (sort out1)) p2 else Again out1 (wait_retry ops p2 attempt))"
    using note_ok ret by (simp add: after_window_def p2_def Let_def)
  show ?thesis
  proof (cases "pd_pending p2 = []")
    case True
    then show ?thesis using aw q mif r2(1) ne id2 by (intro exI [of _ p2] exI [of _ "sort out1"]) simp
  next
    case False
    let ?p3 = "wait_retry ops p2 attempt"
    note w = wait_retry_quiet [OF pl, of p2 attempt]
    have same: "pd_pending ?p3 = pd_pending p2" "pd_max_in_flight ?p3 = pd_max_in_flight p2"
      using only_cluster_differsD conjunct1 [OF w] by blast+
    have "idle outst (pd_cluster ?p3)" using w id2 by (simp add: quiet_def)
    then show ?thesis using aw q mif r2(1) ne same queue_pending [OF same(1)] False
      by (intro exI [of _ ?p3] exI [of _ out1]) simp
  qed
qed

lemma pending_empty_iff:
  "bt_wf (pd_pending p) \<Longrightarrow> \<forall>q\<in>set (bt_values (pd_pending p)). q \<noteq> [] \<Longrightarrow> pd_pending p = [] \<longleftrightarrow> (\<forall>k. queue p k = [])"
proof (cases "pd_pending p")
  case (Cons x xs)
  assume ne: "\<forall>q\<in>set (bt_values (pd_pending p)). q \<noteq> []"
  have "queue p (fst x) = snd x" by (simp add: queue_def Cons bt_get_def)
  moreover have "snd x \<noteq> []" using ne by (simp add: Cons bt_values_def)
  ultimately show ?thesis using Cons by (metis list.distinct(1))
qed (simp add: queue_def)

lemma healthy_turn:
  assumes "healthy outst ops" and "idle outst (pd_cluster p)" and "bt_wf (pd_pending p)"
  shows "\<exists>p' out'. (\<forall>k. queue p' k = drop (pd_max_in_flight p) (queue p k)) \<and> pd_max_in_flight p' = pd_max_in_flight p \<and>
    bt_wf (pd_pending p') \<and> (\<forall>q\<in>set (bt_values (pd_pending p')). q \<noteq> []) \<and> idle outst (pd_cluster p') \<and>
    flush_turn ops attempt out p = (if pd_pending p' = [] then Done (Inr out') p' else Again out' p')"
proof -
  let ?p = "drop_empty p" and ?keys = "bt_keys (pd_pending (drop_empty p))"
  have q: "queue ?p = queue p" using queue_drop_empty [OF assms(3)] by (simp add: fun_eq_iff)
  have wf: "bt_wf (pd_pending ?p)" by (rule drop_empty_wf [OF assms(3)])
  have ne: "\<forall>q\<in>set (bt_values (pd_pending ?p)). q \<noteq> []" by (auto simp: drop_empty_def bt_values_def)
  show ?thesis
  proof (cases "pd_pending ?p = []")
    case True
    then have "\<forall>k. queue p k = []" using pending_empty_iff [OF wf ne] q by simp
    with True assms(2) q show ?thesis
      by (intro exI [of _ ?p] exI [of _ "sort out"]) (simp add: flush_turn_window bt_values_def)
  next
    case False
    obtain bb p1 where r: "route ops ?p ?keys [] False = (Inr (bb, False), p1)"
      and m: "mset (routed bb) = mset (routed []) + mset ?keys"
      using healthy_route [OF assms(1) bt_wf_Nil] by blast
    have bb: "bt_wf bb" "frame_of ?p p1" "idle outst (pd_cluster p1)"
      using route_routes [OF healthy_pipelined [OF assms(1)] r] only_cluster_frame assms(2) by (auto simp: quiet_def)
    have same: "pd_pending p1 = pd_pending ?p" "pd_max_in_flight p1 = pd_max_in_flight p" using frame_ofD [OF bb(2)] by auto
    have q1: "queue p1 = queue p" using queue_pending [OF same(1)] q by simp
    have m': "mset (routed bb) = mset ?keys" using m by (simp add: routed_def)
    have routed: "distinct (routed bb)" "set (routed bb) = set ?keys"
      using mset_eq_imp_distinct_iff [OF m'] bt_wf_distinct [OF wf] mset_eq_setD [OF m'] by auto
    have "bb \<noteq> []" using m' False by (auto simp: routed_def bt_keys_def)
    from healthy_window [OF assms(1) bb(1) routed(1) bb(3), unfolded same, OF wf routed(2) False, of attempt out]
    obtain outs p3 ws where w: "window_turn ops attempt out bb p1 = after_window ops attempt outs out p3" "frame_of p1 p3"
      "idle outst (pd_cluster p3)" "length outs = window_depth p1 bb"
      "window_codes everything accepted p1 (set (routed bb)) ws outs" by blast
    have same3: "pd_pending p3 = pd_pending p1" "pd_max_in_flight p3 = pd_max_in_flight p1" using frame_ofD [OF w(2)] by auto
    have q3: "queue p3 = queue p1" using queue_pending [OF same3(1)] .
    have known: "\<forall>k\<in>set (routed bb). bt_get (pd_pending p1) k \<noteq> None" unfolding routed(2) same by (simp add: bt_keys_get)
    have runs: "if k \<in> set (routed bb) then min (window_depth p1 bb) (length (queue p3 k)) = min (pd_max_in_flight p) (length (queue p3 k))
        else queue p3 k = []" for k
    proof (cases "k \<in> set (routed bb)")
      case True
      then show ?thesis using window_depth_bounds [OF True known] by (simp add: q3 same)
    next
      case False
      then have "bt_get (pd_pending p1) k = None" unfolding routed(2) same by (simp add: bt_keys_get)
      with False show ?thesis by (simp add: q3 queue_def)
    qed
    from healthy_after_window [OF assms(1) w(5) [folded window_codes_queue [OF q3, of everything accepted]] w(3) _ w(4) runs, of attempt out]
    obtain p' out' where p': "\<forall>k. queue p' k = drop (pd_max_in_flight p) (queue p3 k)" "pd_max_in_flight p' = pd_max_in_flight p3"
      "bt_wf (pd_pending p')" "\<forall>q\<in>set (bt_values (pd_pending p')). q \<noteq> []" "idle outst (pd_cluster p')"
      "after_window ops attempt outs out p3 = (if pd_pending p' = [] then Done (Inr out') p' else Again out' p')"
      using wf same same3 by auto
    have "flush_turn ops attempt out p = after_window ops attempt outs out p3"
      using r False \<open>bb \<noteq> []\<close> w(1) by (simp add: flush_turn_window)
    with p' show ?thesis by (intro exI [of _ p'] exI [of _ out']) (simp add: q3 q1 same same3)
  qed
qed

lemma healthy_flush_delivers:
  assumes "healthy outst ops" and "idle outst (pd_cluster p)" and "bt_wf (pd_pending p)" and "attempts \<noteq> []"
    and "\<forall>k. length (queue p k) \<le> length attempts * pd_max_in_flight p"
  shows "\<exists>ws p'. flush_loop ops attempts out p = (Inr ws, p') \<and> pd_pending p' = []"
  using assms(2-5)
proof (induction attempts arbitrary: p out)
  case (Cons a attempts)
  from healthy_turn [OF assms(1) Cons.prems(1,2), of a out]
  obtain p1 out1 where t: "\<forall>k. queue p1 k = drop (pd_max_in_flight p) (queue p k)" "pd_max_in_flight p1 = pd_max_in_flight p"
      "bt_wf (pd_pending p1)" "\<forall>q\<in>set (bt_values (pd_pending p1)). q \<noteq> []" "idle outst (pd_cluster p1)"
      "flush_turn ops a out p = (if pd_pending p1 = [] then Done (Inr out1) p1 else Again out1 p1)"
    by blast
  have len: "\<forall>k. length (queue p1 k) \<le> length attempts * pd_max_in_flight p1"
    using Cons.prems(4) t(1,2) by (auto simp: le_diff_conv add.commute)
  show ?case
  proof (cases "pd_pending p1 = []")
    case True
    then show ?thesis using t(6) by simp
  next
    case False
    then have "attempts \<noteq> []" using len pending_empty_iff [OF t(3,4)] by auto
    from Cons.IH [OF t(5,3) this len] False t(6) show ?thesis by simp
  qed
qed simp

lemma healthy_flush_gives_up:
  assumes "healthy outst ops" and "idle outst (pd_cluster p)" and "bt_wf (pd_pending p)"
    and "length attempts * pd_max_in_flight p < length (queue p k)"
  shows "\<exists>t i p'. flush_loop ops attempts out p = (Inl (Failed (NoLeader t i)), p') \<and>
    (\<forall>k. queue p' k = drop (length attempts * pd_max_in_flight p) (queue p k))"
  using assms(2-4)
proof (induction attempts arbitrary: p out)
  case Nil
  then have "bt_get (pd_pending p) k \<noteq> None" by (auto simp: queue_def split: option.splits)
  then obtain x xs where "pd_pending p = x # xs" by (cases "pd_pending p") auto
  then show ?case by (simp add: no_leader_error_def bt_keys_def)
next
  case (Cons a attempts)
  from healthy_turn [OF assms(1) Cons.prems(1,2), of a out]
  obtain p1 out1 where t: "\<forall>k. queue p1 k = drop (pd_max_in_flight p) (queue p k)" "pd_max_in_flight p1 = pd_max_in_flight p"
      "bt_wf (pd_pending p1)" "\<forall>q\<in>set (bt_values (pd_pending p1)). q \<noteq> []" "idle outst (pd_cluster p1)"
      "flush_turn ops a out p = (if pd_pending p1 = [] then Done (Inr out1) p1 else Again out1 p1)"
    by blast
  have long: "length attempts * pd_max_in_flight p1 < length (queue p1 k)"
    using Cons.prems(3) t(1,2) by (simp add: less_diff_conv add.commute)
  then have "queue p1 k \<noteq> []" by auto
  then have "pd_pending p1 \<noteq> []" using pending_empty_iff [OF t(3,4)] by blast
  with Cons.IH [OF t(5,3) long, of out1] t(1,2,6) show ?case by (simp add: add.commute)
qed

text \<open>
  C5: on a healthy cluster a flush delivers.  When leaders are known, sends go through and every batch
  is accepted, and no partition has more than forty windows of batches queued, \<open>flush\<close> returns
  successfully with nothing left queued.
\<close>
theorem flush_delivers_when_healthy:
  assumes "healthy outst ops" and "idle outst (pd_cluster p)" and "bt_wf (pd_pending p)"
    and "\<forall>k. length (queue p k) \<le> MAX_RETRIES * pd_max_in_flight p"
  shows "\<exists>written p'. flush_pending ops p = (Inr written, p') \<and> pd_pending p' = []"
  using healthy_flush_delivers [OF assms(1-3), of "[0..<MAX_RETRIES]" "[]"] assms(4)
  by (simp add: flush_pending_def MAX_RETRIES_def)

text \<open>
  C40: a long queue is given up on.  The retry budget counts every window, successful ones included: a
  partition with more than forty windows of batches queued makes \<open>flush\<close> fail with \<open>NoLeader\<close> on the
  same healthy cluster, after it has written forty windows of each partition, and leaves the rest queued.
\<close>
theorem flush_gives_up_on_a_long_queue:
  assumes "healthy outst ops" and "idle outst (pd_cluster p)" and "bt_wf (pd_pending p)"
    and "MAX_RETRIES * pd_max_in_flight p < length (queue p k)"
  shows "\<exists>t i p'. flush_pending ops p = (Inl (Failed (NoLeader t i)), p') \<and>
    (\<forall>k. queue p' k = drop (MAX_RETRIES * pd_max_in_flight p) (queue p k))"
  using healthy_flush_gives_up [OF assms(1-3), of "[0..<MAX_RETRIES]" k "[]"] assms(4)
  by (simp add: flush_pending_def)

section \<open>The cluster in memory is healthy\<close>

lemma memory_accepted: "accepted w rq (memory_response rq)"
  by (auto simp: accepted_def covers_def memory_response_codes comp_def is_ok_def image_image NONE_def)

lemma memory_healthy: "healthy fst memory_ops"
proof -
  have "pipelined fst everything accepted memory_ops"
    by (rule memory_pipelined) (auto simp: memory_accepted everything_def log_le_def)
  moreover have "\<exists>resps. fst (recv_many memory_ops w as) = map Inr resps" if "\<forall>a\<in>set as. fst w a \<noteq> []" for w as
  proof -
    have "fst (recv_many memory_ops w as) = map Inr (map (\<lambda>a. memory_response (hd (fst w a))) as)"
      using that by (auto simp: memory_ops_def split: list.splits)
    then show ?thesis by blast
  qed
  ultimately show ?thesis unfolding healthy_def by (auto simp: memory_ops_def) 
qed

theorem flush_delivers_when_healthy_witness:
  "\<exists>written p'. flush_pending memory_ops (demo_producer (replicate 200 [7])) = (Inr written, p') \<and> pd_pending p' = []"
  by (rule flush_delivers_when_healthy [OF memory_healthy]) (simp_all add: demo_idle MAX_RETRIES_def)

theorem flush_gives_up_on_a_long_queue_witness:
  "\<exists>t i p'. flush_pending memory_ops (demo_producer (replicate 201 [7])) = (Inl (Failed (NoLeader t i)), p') \<and>
    (\<forall>k. queue p' k = drop (MAX_RETRIES * 5) (queue (demo_producer (replicate 201 [7])) k))"
  using flush_gives_up_on_a_long_queue [OF memory_healthy, of "demo_producer (replicate 201 [7])" "(''t'', 0)"]
  by (simp add: demo_idle MAX_RETRIES_def)

end
