(* ===== verification/Producer_Laws.thy ===== *)
theory Producer_Laws
  imports Producer_Client Window_Progress
begin

text \<open>
  What the producer's calls do to its queues, its staged records and its protocol state
  (\<^verbatim>\<open>barnabas-client/src/producer.rs\<close>): queueing keeps sequence order, enrolment
  precedes allocation, what ending a transaction leaves behind, that a record without a key never moves
  the round-robin counter in \<open>produce\<close>, and what a ready batch makes \<open>send_ready\<close> send.
\<close>

section \<open>What the calls leave alone\<close>

text \<open>Everything but the cluster, the cached coordinator and the protocol state.\<close>

definition keeps_queues :: "'w producer \<Rightarrow> 'w producer \<Rightarrow> bool" where
  "keeps_queues p p' \<longleftrightarrow>
     p' = p\<lparr>pd_cluster := pd_cluster p', pd_coordinator := pd_coordinator p', pd_state := pd_state p'\<rparr>"

lemma keeps_queues_refl [simp]: "keeps_queues p p"
  by (simp add: keeps_queues_def)

lemma keeps_queues_trans: "keeps_queues p p1 \<Longrightarrow> keeps_queues p1 p2 \<Longrightarrow> keeps_queues p p2"
  unfolding keeps_queues_def by (cases p; cases p1; cases p2) simp

lemma keeps_queues_updates [simp]:
  "keeps_queues p (p\<lparr>pd_cluster := w\<rparr>)" "keeps_queues p (p\<lparr>pd_cluster := w, pd_coordinator := c\<rparr>)"
  "keeps_queues p (p\<lparr>pd_coordinator := c\<rparr>)" "keeps_queues p (p\<lparr>pd_state := s\<rparr>)"
  by (simp_all add: keeps_queues_def)

lemma keeps_queuesD:
  "keeps_queues p p' \<Longrightarrow> pd_pending p' = pd_pending p \<and> pd_staged p' = pd_staged p \<and>
     pd_transactional_id p' = pd_transactional_id p \<and> pd_offsets p' = pd_offsets p \<and>
     pd_round_robin p' = pd_round_robin p \<and> pd_partitioner p' = pd_partitioner p \<and> pd_max_in_flight p' = pd_max_in_flight p"
  unfolding keeps_queues_def by (cases p; cases p') simp

lemma find_coordinator_loop_frame:
  "find_coordinator_loop ops t as p = (r, p') \<Longrightarrow> keeps_queues p p' \<and> pd_state p' = pd_state p"
proof (induction as arbitrary: p)
  case (Cons a as)
  obtain x w where x: "call_find_coordinator ops (pd_cluster p) t 1 = (x, w)" by fastforce
  show ?case
  proof (cases "\<exists>resp. x = Inr resp \<and> \<not> is_ok (ErrorCode (ci_error_code resp)) \<and>
      disposition_of (ErrorCode (ci_error_code resp)) \<in> {Retry, FindCoordinator}")
    case True
    then have "find_coordinator_loop ops t as (pause ops a (p\<lparr>pd_cluster := w\<rparr>)) = (r, p')"
      using Cons.prems x by auto
    from Cons.IH [OF this] show ?thesis
      using keeps_queues_trans [of p "pause ops a (p\<lparr>pd_cluster := w\<rparr>)" p'] by (simp add: pause_def)
  next
    case False
    then show ?thesis using Cons.prems x by (cases x) (auto simp: Let_def split: if_splits)
  qed
qed simp

lemma coordinator_addr_frame:
  "coordinator_addr ops p = (r, p') \<Longrightarrow> keeps_queues p p' \<and> pd_state p' = pd_state p"
  by (auto simp: coordinator_addr_def find_coordinator_def dest: find_coordinator_loop_frame split: option.splits)

text \<open>
  A coordinator call touches no queue, succeeds only on a response without an error, and
  changes the protocol state only by fencing it, which it reports.
\<close>

lemma coordinator_call_loop_frame:
  assumes "coordinator_call_loop ops op req as p = (r, p')"
  shows "keeps_queues p p' \<and> (\<forall>resp. r = Inr resp \<longrightarrow> is_ok (first_error resp) \<and> pd_state p' = pd_state p) \<and>
    (\<forall>e. r = Inl e \<longrightarrow> pd_state p' = pd_state p \<or>
       (\<exists>c. e = Broker op c Fatal) \<and> pd_state p' = fence (pd_state p))"
  using assms
proof (induction as arbitrary: p)
  case (Cons a as)
  obtain x p1 where x: "coordinator_addr ops p = (x, p1)" by fastforce
  note f1 = coordinator_addr_frame [OF x]
  show ?case
  proof (cases x)
    case (Inl e)
    then show ?thesis using Cons.prems x f1 by auto
  next
    case (Inr ad)
    obtain y w where y: "(if ad = [] then call_any ops (pd_cluster p1) req else call_at ops (pd_cluster p1) ad req) = (y, w)"
      by fastforce
    let ?p2 = "p1\<lparr>pd_cluster := w\<rparr>"
    have k2: "keeps_queues p ?p2" using keeps_queues_trans [of p p1] f1 by simp
    show ?thesis
    proof (cases y)
      case (Inl e)
      then show ?thesis using Cons.prems x Inr y f1 k2 by auto
    next
      case (Inr resp)
      then have step: "coordinator_call_loop ops op req (a # as) p =
          (if is_ok (first_error resp) then (Inr resp, ?p2)
           else case act_on_code op (first_error resp) ?p2 of
                  Inl (e, p3) \<Rightarrow> (Inl e, p3)
                | Inr p3 \<Rightarrow> coordinator_call_loop ops op req as (pause ops a p3))"
        using x \<open>x = Inr ad\<close> y by (simp add: Let_def)
      show ?thesis
      proof (cases "is_ok (first_error resp)")
        case True
        then show ?thesis using Cons.prems step f1 k2 by auto
      next
        case False
        show ?thesis
        proof (cases "act_on_code op (first_error resp) ?p2")
          case (Inl ep)
          then show ?thesis using Cons.prems step False f1 keeps_queues_trans [OF k2]
            by (cases ep) (auto simp: act_on_code_def split: disposition.splits)
        next
          case (Inr p3)
          then have p3: "keeps_queues ?p2 p3" "pd_state p3 = pd_state ?p2"
            by (auto simp: act_on_code_def split: disposition.splits)
          have "coordinator_call_loop ops op req as (pause ops a p3) = (r, p')" using Cons.prems step False Inr by simp
          from Cons.IH [OF this] show ?thesis
            using keeps_queues_trans [OF keeps_queues_trans [OF k2 p3(1)], of "pause ops a p3"]
              keeps_queues_trans [of p "pause ops a p3" p'] p3(2) f1 by (simp add: pause_def)
        qed
      qed
    qed
  qed
qed auto

lemma coordinator_call_frame:
  assumes "coordinator_call ops op req p = (r, p')"
  shows "keeps_queues p p' \<and> (\<forall>resp. r = Inr resp \<longrightarrow> is_ok (first_error resp) \<and> pd_state p' = pd_state p) \<and>
    (\<forall>e. r = Inl e \<longrightarrow> pd_state p' = pd_state p \<or>
       (\<exists>c. e = Broker op c Fatal) \<and> pd_state p' = fence (pd_state p))"
  using coordinator_call_loop_frame assms unfolding coordinator_call_def by blast


lemma fold_on_enrolled:
  "fold (\<lambda>part s. on_enrolled s topic part) parts s = s\<lparr>enrolled := enrolled s \<union> (\<lambda>x. (topic, x)) ` set parts\<rparr>"
  by (induction parts arbitrary: s) (auto simp: on_enrolled_def)

text \<open>Enrolling is one coordinator call; on success every partition asked for is in the transaction.\<close>

lemma enroll_all_result:
  assumes "enroll_all ops topic parts p = (r, p')"
  shows "keeps_queues p p' \<and>
    (r = Inr () \<longrightarrow> (\<exists>new. pd_state p' = (pd_state p)\<lparr>enrolled := enrolled (pd_state p) \<union> new\<rparr>) \<and>
       (transactional (pd_state p) \<and> txn (pd_state p) = InTransaction \<longrightarrow>
          (\<lambda>x. (topic, x)) ` set parts \<subseteq> enrolled (pd_state p'))) \<and>
    (\<forall>e. r = Inl e \<longrightarrow> pd_state p' = pd_state p \<or> pd_state p' = fence (pd_state p))"
proof -
  define wanted where "wanted = filter (needs_enrollment (pd_state p) topic) parts"
  show ?thesis
  proof (cases "wanted = []")
    case True
    then have "r = Inr ()" "p' = p" using assms by (simp_all add: enroll_all_def wanted_def Let_def)
    moreover have "(\<lambda>x. (topic, x)) ` set parts \<subseteq> enrolled (pd_state p)"
      if "transactional (pd_state p) \<and> txn (pd_state p) = InTransaction"
      using True that by (auto simp: wanted_def filter_empty_conv needs_enrollment_def)
    ultimately show ?thesis by (auto intro!: exI [of _ "{}"])
  next
    case False
    show ?thesis
    proof (cases "credentials_of p")
      case (Inl e)
      then show ?thesis using assms False by (auto simp: enroll_all_def wanted_def [symmetric] Let_def)
    next
      case (Inr it)
      obtain i txn_id where it: "it = (i, txn_id)" by (cases it)
      obtain x p1 where c: "coordinator_call ops ''AddPartitionsToTxn'' (AddPartitionsToTxn txn_id i topic wanted) p = (x, p1)"
        by fastforce
      note f = coordinator_call_frame [OF c]
      show ?thesis
      proof (cases x)
        case (Inl e)
        then have "r = Inl e" "p' = p1" using assms False Inr it c by (simp_all add: enroll_all_def wanted_def [symmetric] Let_def)
        then show ?thesis using f Inl by auto
      next
        case (Inr resp)
        then have p': "p' = p1\<lparr>pd_state := fold (\<lambda>part s. on_enrolled s topic part) wanted (pd_state p1)\<rparr>" "r = Inr ()"
          using assms False \<open>credentials_of p = Inr it\<close> it c by (auto simp: enroll_all_def wanted_def [symmetric] Let_def)
        have st: "pd_state p1 = pd_state p" using f Inr by blast
        then have st': "pd_state p' = (pd_state p)\<lparr>enrolled := enrolled (pd_state p) \<union> (\<lambda>x. (topic, x)) ` set wanted\<rparr>"
          by (simp add: p' fold_on_enrolled)
        have "keeps_queues p p'" using keeps_queues_trans [of p p1 p'] f by (simp add: p')
        moreover have "(\<lambda>x. (topic, x)) ` set parts \<subseteq> enrolled (pd_state p')"
          if "transactional (pd_state p) \<and> txn (pd_state p) = InTransaction"
          using that by (auto simp: st' wanted_def needs_enrollment_def)
        ultimately show ?thesis using st' p'(2) by blast
      qed
    qed
  qed
qed

lemma encode_for_result:
  assumes "encode_for ops topic part recs p = (r, p')"
  shows "p' = p\<lparr>pd_state := pd_state p'\<rparr> \<and>
    (\<forall>b. r = Inr b \<longrightarrow> (\<exists>i rng. identity (pd_state p) = Some i \<and> seq_base rng = next_sequence (pd_state p) topic part \<and>
       seq_count rng = int (length recs) \<and>
       encode_records ops (pd_compression p) (batch_records p i (unix_millis ops (pd_cluster p)) recs rng) = Inr b \<and>
       pd_state p' = (pd_state p)\<lparr>sequences := (sequences (pd_state p))((topic, part) \<mapsto> seq_end rng)\<rparr> \<and>
       (transactional (pd_state p) \<longrightarrow> txn (pd_state p) = InTransaction \<and> (topic, part) \<in> enrolled (pd_state p))))"
proof -
  obtain x s where al: "allocate (pd_state p) topic part (int (length recs)) = (x, s)" by fastforce
  show ?thesis
  proof (cases x)
    case (Inl e)
    then show ?thesis using assms al by (auto simp: encode_for_def split: if_splits)
  next
    case (Inr rng)
    note facts = allocate_Inr [OF al [unfolded Inr]]
    have "batch_records (p\<lparr>pd_state := s\<rparr>) = batch_records p" by (simp add: batch_records_def fun_eq_iff)
    with facts assms al Inr show ?thesis
      by (auto simp: encode_for_def encode_batch_def Let_def split: if_splits option.splits sum.splits)
  qed
qed

lemma queue_entry: "queue (p\<lparr>pd_pending := bt_entry key [] (\<lambda>q. q @ [b]) (pd_pending p)\<rparr>) =
    (queue p)(key := queue p key @ [b])"
  by (auto simp: queue_def fun_eq_iff btree_simps split: option.splits)

lemma enqueue_result:
  assumes "recs \<noteq> []" and "enqueue ops topic part recs p = (r, p')"
  shows "case r of
     Inl e \<Rightarrow> queue p' = queue p
   | Inr _ \<Rightarrow> \<exists>i rng w batch.
       seq_base rng = next_sequence (pd_state p) topic part \<and> seq_count rng = int (length recs) \<and>
       identity (pd_state p) = Some i \<and>
       encode_records ops (pd_compression p) (batch_records p i (unix_millis ops w) recs rng) = Inr batch \<and>
       queue p' = (queue p)((topic, part) := queue p (topic, part) @ [batch]) \<and>
       sequences (pd_state p') = (sequences (pd_state p))((topic, part) \<mapsto> seq_end rng) \<and>
       (transactional (pd_state p) \<longrightarrow> txn (pd_state p) = InTransaction \<and> (topic, part) \<in> enrolled (pd_state p'))"
proof -
  obtain x p1 where en: "enroll_all ops topic [part] p = (x, p1)" by fastforce
  note k1 = enroll_all_result [OF en]
  have q1: "queue p1 = queue p" using queue_pending keeps_queuesD k1 by blast
  show ?thesis
  proof (cases x)
    case (Inl e)
    then have "r = Inl e" "p' = p1" using assms en by (simp_all add: enqueue_def)
    then show ?thesis using q1 by simp
  next
    case (Inr u)
    obtain y p2 where ef: "encode_for ops topic part recs p1 = (y, p2)" by fastforce
    note k2 = encode_for_result [OF ef]
    have q2: "queue p2 = queue p1"
    proof -
      obtain s where "p2 = p1\<lparr>pd_state := s\<rparr>" using k2 by blast
      then show ?thesis by (simp add: queue_def fun_eq_iff)
    qed
    show ?thesis
    proof (cases y)
      case (Inl e)
      then have "r = Inl e" "p' = p2" using assms en Inr ef by (simp_all add: enqueue_def)
      then show ?thesis using q1 q2 by simp
    next
      case (Inr b)
      then have r: "r = Inr ()" "p' = p2\<lparr>pd_pending := bt_entry (topic, part) [] (\<lambda>q. q @ [b]) (pd_pending p2)\<rparr>"
        using assms en \<open>x = Inr u\<close> ef by (auto simp: enqueue_def)
      obtain new where st: "pd_state p1 = (pd_state p)\<lparr>enrolled := enrolled (pd_state p) \<union> new\<rparr>"
        using k1 \<open>x = Inr u\<close> by auto
      obtain i rng where e: "identity (pd_state p1) = Some i" "seq_base rng = next_sequence (pd_state p1) topic part"
        "seq_count rng = int (length recs)"
        "encode_records ops (pd_compression p1) (batch_records p1 i (unix_millis ops (pd_cluster p1)) recs rng) = Inr b"
        "pd_state p2 = (pd_state p1)\<lparr>sequences := (sequences (pd_state p1))((topic, part) \<mapsto> seq_end rng)\<rparr>"
        "transactional (pd_state p1) \<longrightarrow> txn (pd_state p1) = InTransaction \<and> (topic, part) \<in> enrolled (pd_state p1)"
        using k2 Inr by blast
      have same: "pd_compression p1 = pd_compression p" "batch_records p1 = batch_records p"
      proof -
        obtain w c s where "p1 = p\<lparr>pd_cluster := w, pd_coordinator := c, pd_state := s\<rparr>"
          using k1 unfolding keeps_queues_def by blast
        then show "pd_compression p1 = pd_compression p" "batch_records p1 = batch_records p"
          by (simp_all add: batch_records_def fun_eq_iff)
      qed
      have nx: "next_sequence (pd_state p1) topic part = next_sequence (pd_state p) topic part"
        by (simp add: st next_sequence_def)
      have "queue p' = (queue p)((topic, part) := queue p (topic, part) @ [b])"
        unfolding r(2) queue_entry q2 q1 ..
      moreover have "sequences (pd_state p') = (sequences (pd_state p))((topic, part) \<mapsto> seq_end rng)"
        using e(5) by (simp add: r(2) st)
      moreover have "transactional (pd_state p) \<longrightarrow> txn (pd_state p) = InTransaction \<and> (topic, part) \<in> enrolled (pd_state p')"
        using e(5,6) by (simp add: r(2) st)
      ultimately show ?thesis
        unfolding r(1) using e(1-4) nx by (auto simp: same st intro!: exI [of _ i] exI [of _ rng] exI [of _ "pd_cluster p1"] exI [of _ b])
    qed
  qed
qed

text \<open>
  C19: queueing keeps a partition's batches in sequence order.  A call of \<open>enqueue\<close> that succeeds puts
  exactly one batch at the end of the partition's queue: the encoding, made once, of the records
  numbered from the partition's next sequence number on; that number moves on by the number
  of records, no other partition's does, and no other queue changes; a transactional producer was
  in a transaction, and the partition is enrolled in it.  A call that fails queues nothing.
\<close>
theorem enqueue_in_sequence:
  assumes "recs \<noteq> []" and "enqueue ops topic part recs p = (r, p')"
  shows "case r of
     Inl e \<Rightarrow> queue p' = queue p
   | Inr _ \<Rightarrow> \<exists>i rng w batch.
       seq_base rng = next_sequence (pd_state p) topic part \<and> seq_count rng = int (length recs) \<and>
       identity (pd_state p) = Some i \<and>
       encode_records ops (pd_compression p) (batch_records p i (unix_millis ops w) recs rng) = Inr batch \<and>
       queue p' = (queue p)((topic, part) := queue p (topic, part) @ [batch]) \<and>
       sequences (pd_state p') = (sequences (pd_state p))((topic, part) \<mapsto> seq_end rng) \<and>
       (transactional (pd_state p) \<longrightarrow> txn (pd_state p) = InTransaction \<and> (topic, part) \<in> enrolled (pd_state p'))"
  by (rule enqueue_result [OF assms])

section \<open>Ending a transaction\<close>

text \<open>
  Ending a transaction.  When \<open>commit_transaction\<close> or \<open>abort_transaction\<close> succeeds the producer is ready for
  the next transaction with nothing enrolled; no queue or staged record is touched, so
  records not flushed before a commit are not part of it.  When the coordinator's answer makes the
  call fail without fencing (the retry budget, a transport error), the producer stays between states: beginning,
  committing and aborting are all refused from then on.
\<close>
theorem ending_a_transaction:
  assumes "client_end ops committed p = (r, p')" and "txn (pd_state p) = InTransaction"
  shows "pd_pending p' = pd_pending p \<and> pd_staged p' = pd_staged p \<and>
    sequences (pd_state p') = sequences (pd_state p) \<and>
    (r = Inr () \<longrightarrow> txn (pd_state p') = Ready \<and> enrolled (pd_state p') = {}) \<and>
    (r \<noteq> Inr () \<and> txn (pd_state p') \<noteq> TxnFatal \<longrightarrow>
       txn (pd_state p') = Ending \<and> fst (client_begin p') \<noteq> Inr () \<and>
       fst (commit_transaction ops p') = Inl (Producer NoTransaction) \<and>
       fst (abort_transaction ops p') = Inl (Producer NoTransaction))"
proof -
  define p1 where "p1 = p\<lparr>pd_state := (pd_state p)\<lparr>txn := Ending\<rparr>\<rparr>"
  have et: "end_transaction (pd_state p) = (Inr (), (pd_state p)\<lparr>txn := Ending\<rparr>)"
    using assms(2) by (simp add: end_transaction_def check_usable_def)
  have stuck: "fst (client_begin q) \<noteq> Inr () \<and> fst (commit_transaction ops q) = Inl (Producer NoTransaction) \<and>
       fst (abort_transaction ops q) = Inl (Producer NoTransaction)" if "txn (pd_state q) = Ending" for q
    using that by (auto simp: client_begin_def begin_transaction_def commit_transaction_def abort_transaction_def
        client_end_def end_transaction_def check_usable_def)
  show ?thesis
  proof (cases "credentials_of p1")
    case (Inl e)
    then have "r = Inl e" "p' = p1" using assms(1) et by (simp_all add: client_end_def p1_def Let_def)
    moreover have "txn (pd_state p1) = Ending" by (simp add: p1_def)
    ultimately show ?thesis using stuck [of p1] by (simp add: p1_def)
  next
    case (Inr it)
    obtain i txn_id where it: "it = (i, txn_id)" by (cases it)
    obtain x p2 where c: "coordinator_call ops ''EndTxn'' (EndTxn txn_id i committed) p1 = (x, p2)" by fastforce
    note f = coordinator_call_frame [OF c]
    have q2: "pd_pending p2 = pd_pending p" "pd_staged p2 = pd_staged p"
      using keeps_queuesD [OF conjunct1 [OF f]] by (simp_all add: p1_def)
    show ?thesis
    proof (cases x)
      case (Inl e)
      then have r: "r = Inl e" "p' = p2" using assms(1) et Inr it c by (simp_all add: client_end_def p1_def [symmetric] Let_def)
      have "pd_state p2 = pd_state p1 \<or> pd_state p2 = fence (pd_state p1)" using f Inl by blast
      then show ?thesis using r q2 stuck [of p2] by (auto simp: p1_def fence_def)
    next
      case (Inr resp)
      then have r: "r = Inr ()" "p' = p2\<lparr>pd_state := on_end_transaction (pd_state p2)\<rparr>"
        using assms(1) et \<open>credentials_of p1 = Inr it\<close> it c by (auto simp: client_end_def p1_def [symmetric] Let_def)
      have "pd_state p2 = pd_state p1" using f Inr by blast
      then show ?thesis using r q2 by (simp add: p1_def on_end_transaction_def)
    qed
  qed
qed

section \<open>What sending leaves alone\<close>

definition unsent :: "'w producer \<Rightarrow> (partition_key, staged_batch) btree \<times> u32 \<times> partitioner \<times> string option" where
  "unsent p = (pd_staged p, pd_round_robin p, pd_partitioner p, pd_transactional_id p)"

lemma unsent_updates [simp]:
  "unsent (p\<lparr>pd_cluster := w\<rparr>) = unsent p" "unsent (p\<lparr>pd_offsets := offs\<rparr>) = unsent p"
  "unsent (p\<lparr>pd_pending := q\<rparr>) = unsent p" "unsent (p\<lparr>pd_state := s\<rparr>) = unsent p"
  "unsent (p\<lparr>pd_cluster := w, pd_offsets := offs\<rparr>) = unsent p"
  by (simp_all add: unsent_def)

lemma keeps_queues_unsent: "keeps_queues p p' \<Longrightarrow> unsent p' = unsent p"
  by (drule keeps_queuesD) (simp add: unsent_def)

lemma drop_empty_unsent [simp]: "unsent (drop_empty p) = unsent p"
  by (simp add: drop_empty_def)

lemma wait_retry_unsent [simp]: "unsent (wait_retry ops p n) = unsent p"
  by (simp add: wait_retry_def)

lemma route_unsent: "unsent (snd (route ops p keys bb un)) = unsent p"
  by (induction keys arbitrary: p bb un) (auto split: prod.splits sum.splits client_error.splits)

lemma refresh_topics_unsent: "unsent (snd (refresh_topics ops p ts)) = unsent p"
  by (induction ts arbitrary: p) (auto split: prod.splits sum.splits)

lemma send_round_unsent: "unsent (snd (send_round ops p r bb sent)) = unsent p"
proof (induction bb arbitrary: p sent)
  case (Cons b bb)
  then show ?case by (cases b) (auto simp: Let_def split: prod.splits sum.splits)
qed simp

lemma collect_rounds_unsent: "unsent (snd (collect_rounds ops r rounds p out err)) = unsent p"
  by (induction rounds arbitrary: r p out err) (auto split: prod.splits)

lemma send_rounds_unsent: "unsent (snd (send_rounds ops p bb rs rounds)) = unsent p"
proof (induction rs arbitrary: p rounds)
  case (Cons r rs)
  obtain e sent p1 where s: "send_round ops p r bb [] = ((e, sent), p1)" by (metis surj_pair)
  moreover have "unsent p1 = unsent p" using send_round_unsent [of ops p r bb "[]"] s by simp
  ultimately show ?case using Cons.IH
    by (cases e) (simp_all add: collect_window_def collect_rounds_unsent)
qed simp

lemma note_items_unsent:
  "unsent (case fold_sum (\<lambda>(r, kc). note_result ops r kc) its v of Inl (e, p) \<Rightarrow> p | Inr v' \<Rightarrow> vd_producer v') =
     unsent (vd_producer v)"
proof (induction its arbitrary: v)
  case (Cons it its)
  obtain r k c where it: "it = (r, k, c)" by (cases it)
  have "unsent (case note_result ops r (k, c) v of Inl (e, p) \<Rightarrow> p | Inr v' \<Rightarrow> vd_producer v') = unsent (vd_producer v)"
    by (auto simp: note_result_def Let_def split: disposition.splits)
  with Cons.IH show ?case by (cases "note_result ops r (k, c) v") (auto simp: it)
qed simp

lemma retire_fold_unsent: "unsent (fst (fold (\<lambda>(r, kc). retire_result fa r kc) its s)) = unsent (fst s)"
proof (induction its arbitrary: s)
  case (Cons it its)
  obtain r k c p out where "it = (r, k, c)" "s = (p, out)" by (cases it; cases s) auto
  moreover have "unsent (fst (retire_result fa r (k, c) (p, out))) = unsent p"
    by (auto simp: retire_result_def split: option.splits list.splits)
  ultimately show ?case using Cons.IH by simp
qed simp

fun turn_producer :: "'w turn \<Rightarrow> 'w producer" where
  "turn_producer (Done r p) = p"
| "turn_producer (Again out p) = p"

lemma after_window_unsent: "unsent (turn_producer (after_window ops attempt outs out p)) = unsent p"
proof (cases "note_outcomes ops outs p")
  case (Inl ep)
  then show ?thesis
    using note_items_unsent [of ops "items outs" "\<lparr>vd_producer = p, vd_failed_at = [], vd_needs_refresh = False\<rparr>"]
    by (cases ep) (simp add: after_window_def note_outcomes_items)
next
  case (Inr v)
  have v: "unsent (vd_producer v) = unsent p"
    using note_items_unsent [of ops "items outs" "\<lparr>vd_producer = p, vd_failed_at = [], vd_needs_refresh = False\<rparr>"] Inr
    by (simp add: note_outcomes_items)
  obtain p1 out1 where r: "retire (vd_failed_at v) outs (vd_producer v, out) = (p1, out1)" by fastforce
  have "unsent p1 = unsent p"
    using retire_fold_unsent [of "vd_failed_at v" "items outs" "(vd_producer v, out)"] r v by (simp add: retire_items)
  moreover obtain x p3 where f: "refresh_topics ops (drop_empty (p1\<lparr>pd_offsets := []\<rparr>))
      (remdups_adj (sort (map fst (bt_keys (pd_pending (drop_empty (p1\<lparr>pd_offsets := []\<rparr>))))))) = (x, p3)" by fastforce
  moreover have "unsent p3 = unsent p1" using refresh_topics_unsent [of ops "drop_empty (p1\<lparr>pd_offsets := []\<rparr>)"] f
    by (metis drop_empty_unsent snd_conv unsent_updates(2))
  ultimately show ?thesis using Inr r by (cases x) (simp_all add: after_window_def Let_def)
qed

lemma flush_turn_unsent: "unsent (turn_producer (flush_turn ops attempt out p)) = unsent p"
proof -
  obtain x p1 where ro: "route ops (drop_empty p) (bt_keys (pd_pending (drop_empty p))) [] False = (x, p1)" by fastforce
  have u1: "unsent p1 = unsent p" using route_unsent [of ops "drop_empty p"] ro by (metis drop_empty_unsent snd_conv)
  have w: "unsent (turn_producer (window_turn ops attempt out bb p1)) = unsent p" for bb
  proof -
    obtain y p2 where s: "send_window ops p1 bb (window_depth p1 bb) = (y, p2)" by fastforce
    have u2: "unsent p2 = unsent p" using send_rounds_unsent [of ops p1 bb] s u1 by (metis send_window_def snd_conv)
    show ?thesis
    proof (cases y)
      case (Inr rounds)
      obtain outs e p3 where c: "collect_window ops p2 rounds = ((outs, e), p3)" by (metis surj_pair)
      have "unsent p3 = unsent p" using collect_rounds_unsent [of ops 0 rounds p2 "[]" None] c u2 by (simp add: collect_window_def)
      then show ?thesis using s Inr c after_window_unsent [of ops attempt outs out p3]
        by (auto simp: window_turn_def Let_def split: option.splits client_error.splits)
    qed (use s u2 in \<open>simp add: window_turn_def\<close>)
  qed
  show ?thesis using ro u1 w by (auto simp: flush_turn_window Let_def split: sum.splits prod.splits)
qed

lemma flush_pending_unsent: "unsent (snd (flush_pending ops p)) = unsent p"
proof -
  have "unsent (snd (flush_loop ops as out p)) = unsent p" for as out
  proof (induction as arbitrary: out p)
    case (Cons a as)
    then show ?case using flush_turn_unsent [of ops a out p] by (cases "flush_turn ops a out p") simp_all
  qed simp
  then show ?thesis by (simp add: flush_pending_def)
qed

lemma enqueue_unsent: "unsent (snd (enqueue ops topic part recs p)) = unsent p"
proof -
  obtain x p1 where e: "enroll_all ops topic [part] p = (x, p1)" by fastforce
  obtain y p2 where f: "encode_for ops topic part recs p1 = (y, p2)" by fastforce
  have "unsent p1 = unsent p" using enroll_all_result [OF e] keeps_queues_unsent by blast
  moreover obtain s where "p2 = p1\<lparr>pd_state := s\<rparr>" using encode_for_result [OF f] by blast
  ultimately show ?thesis using e f by (cases x; cases y) (auto simp: enqueue_def)
qed

lemma unstage_unsent:
  assumes "unstage ops keys p = (r, p')"
  shows "pd_round_robin p' = pd_round_robin p \<and> pd_partitioner p' = pd_partitioner p \<and>
    (r = Inr () \<longrightarrow> pd_staged p' = filter (\<lambda>e. fst e \<notin> set keys) (pd_staged p))"
  using assms
proof (induction keys arbitrary: p)
  case (Cons key keys)
  show ?case
  proof (cases "bt_get (pd_staged p) key")
    case None
    then have "filter (\<lambda>e. fst e \<noteq> key \<and> fst e \<notin> set keys) (pd_staged p) = filter (\<lambda>e. fst e \<notin> set keys) (pd_staged p)"
      by (intro filter_cong) (auto simp: bt_get_def map_of_eq_None_iff)
    with None Cons show ?thesis by simp
  next
    case (Some st)
    let ?p0 = "p\<lparr>pd_staged := bt_remove key (pd_staged p)\<rparr>"
    obtain x p1 where e: "enqueue ops (fst key) (snd key) (sb_records st) ?p0 = (x, p1)" by fastforce
    have u: "unsent p1 = unsent ?p0" using enqueue_unsent e by (metis snd_conv)
    show ?thesis
    proof (cases x)
      case (Inl err)
      then show ?thesis using Cons.prems Some e u by (auto simp: unsent_def)
    next
      case (Inr u')
      then have "unstage ops keys p1 = (r, p')" using Cons.prems Some e by simp
      from Cons.IH [OF this] u show ?thesis by (auto simp: unsent_def bt_remove_def)
    qed
  qed
qed simp

lemma flush_clears_staged:
  assumes "flush ops p = (r, p')"
  shows "pd_round_robin p' = pd_round_robin p \<and> pd_partitioner p' = pd_partitioner p \<and>
    (\<forall>ws. r = Inr ws \<longrightarrow> pd_staged p' = [])"
proof -
  obtain x p1 where d: "drain_staged ops p = (x, p1)" by fastforce
  note u = unstage_unsent [OF d [unfolded drain_staged_def]]
  have f: "unsent (snd (flush_pending ops p1)) = unsent p1" by (rule flush_pending_unsent)
  show ?thesis
  proof (cases x)
    case (Inr y)
    then have "pd_staged p1 = []" using u by (auto simp: bt_keys_def filter_empty_conv)
    then show ?thesis using assms d Inr f u by (auto simp: flush_def unsent_def)
  qed (use assms d u in \<open>auto simp: flush_def\<close>)
qed

lemma send_ready_result:
  assumes "send_ready ops p = (r, p')"
  shows "pd_round_robin p' = pd_round_robin p \<and> pd_partitioner p' = pd_partitioner p \<and>
    ((\<forall>e\<in>set (pd_staged p). \<not> is_ready p (now ops (pd_cluster p)) (snd e)) \<longrightarrow> r = Inr () \<and> p' = p) \<and>
    ((\<exists>e\<in>set (pd_staged p). is_ready p (now ops (pd_cluster p)) (snd e)) \<longrightarrow> r = Inr () \<longrightarrow> pd_staged p' = [])"
proof -
  define ready where "ready = map fst (filter (\<lambda>(_, st). is_ready p (now ops (pd_cluster p)) st) (pd_staged p))"
  have rd: "ready = [] \<longleftrightarrow> (\<forall>e\<in>set (pd_staged p). \<not> is_ready p (now ops (pd_cluster p)) (snd e))"
    by (auto simp: ready_def filter_empty_conv)
  show ?thesis
  proof (cases "ready = []")
    case True
    then have "r = Inr ()" "p' = p" using assms by (simp_all add: send_ready_def ready_def)
    then show ?thesis using True rd by simp
  next
    case False
    obtain x p1 where u: "unstage ops ready p = (x, p1)" by fastforce
    obtain y p2 where f: "flush ops p1 = (y, p2)" by fastforce
    note fl = flush_clears_staged [OF f]
    have rp: "(r, p') = (case x of Inl e \<Rightarrow> (Inl (Failed e), p1)
        | Inr _ \<Rightarrow> (case y of Inl e \<Rightarrow> (Inl e, p2) | Inr _ \<Rightarrow> (Inr (), p2)))"
      using assms u f False by (auto simp: send_ready_def ready_def [symmetric] Let_def split: sum.splits)
    show ?thesis using rp fl unstage_unsent [OF u] False rd by (auto split: sum.splits)
  qed
qed

text \<open>
  \<open>send_ready\<close> (and \<open>tick\<close>, which is it) sends nothing and changes nothing while no staged batch
  has reached the batch size or its linger; once one has, a call that succeeds leaves nothing staged, the partial
  and recent batches of other partitions included.
\<close>
theorem one_ready_batch_sends_all:
  assumes "tick ops p = (r, p')"
  shows "((\<forall>(key, st)\<in>set (pd_staged p). sb_bytes st < pd_batch_size p \<and> now ops (pd_cluster p) - sb_since st < pd_linger p) \<longrightarrow>
       r = Inr () \<and> p' = p) \<and>
    ((\<exists>(key, st)\<in>set (pd_staged p). pd_batch_size p \<le> sb_bytes st \<or> pd_linger p \<le> now ops (pd_cluster p) - sb_since st) \<longrightarrow>
       r = Inr () \<longrightarrow> pd_staged p' = [])"
  using send_ready_result [OF assms [unfolded tick_def]]
  by (auto simp: is_ready_def case_prod_beta not_le)

lemma count_waiting_keeps: "count_waiting_loop ops topic as p = (r, p') \<Longrightarrow> unsent p' = unsent p"
proof (induction as arbitrary: p)
  case (Cons a as)
  obtain x w where x: "topic_partition_count ops (pd_cluster p) topic = (x, w)" by fastforce
  have "unsent (pause ops a (p\<lparr>pd_cluster := w\<rparr>)) = unsent p" by (simp add: pause_def)
  with Cons.IH [of "pause ops a (p\<lparr>pd_cluster := w\<rparr>)"] Cons.prems x show ?case
    by (cases x) (auto simp: Let_def split: if_splits client_error.splits)
qed simp

lemma count_waiting_positive: "count_waiting_loop ops topic as p = (Inr n, p') \<Longrightarrow> 0 < n"
proof (induction as arbitrary: p)
  case (Cons a as)
  obtain x w where x: "topic_partition_count ops (pd_cluster p) topic = (x, w)" by fastforce
  from Cons.IH [of "pause ops a (p\<lparr>pd_cluster := w\<rparr>)"] Cons.prems x show ?case
    by (cases x) (auto simp: Let_def split: if_splits client_error.splits)
qed simp


text \<open>
  \<open>produce\<close> never moves the round-robin counter, so every record without a key that goes through
  it is staged for one and the same partition of a topic, the one the counter stood at, however many are produced.
\<close>
theorem produce_without_key_stays_put:
  assumes "\<And>w. fst (topic_partition_count ops w topic) = Inr n" and "0 < n" and "in_i32 n"
    and "pre_key r = None" and "produce ops topic r p = (res, p')"
  shows "pd_round_robin p' = pd_round_robin p \<and>
    (\<exists>p1. pd_staged p1 = pd_staged p \<and>
       produce ops topic r p = produce_to ops topic (uint (pd_round_robin p) mod n) r p1)"
proof -
  obtain w where w: "topic_partition_count ops (pd_cluster p) topic = (Inr n, w)"
    using assms(1) by (metis prod.collapse)
  define p1 where "p1 = p\<lparr>pd_cluster := w\<rparr>"
  have "[0..<MAX_RETRIES] = 0 # [1..<MAX_RETRIES]" by (simp add: upt_conv_Cons MAX_RETRIES_def)
  then have c: "partition_count_waiting ops topic p = (Inr n, p1)"
    using w assms(2) by (simp add: partition_count_waiting_def p1_def)
  have "fst (partition_for (pd_partitioner p1) None n (pd_round_robin p1)) = Some (uint (pd_round_robin p) mod n)"
    using pf.unkeyed [OF assms(2,3)] by (simp add: p1_def)
  then have pr: "produce ops topic r p = produce_to ops topic (uint (pd_round_robin p) mod n) r p1"
    using c assms(4) by (simp add: produce_def producer_partition_for_def)
  have "pd_round_robin p' = pd_round_robin (stage ops (topic, uint (pd_round_robin p) mod n) r p1)"
    using send_ready_result assms(5) pr unfolding produce_to_def by metis
  then have "pd_round_robin p' = pd_round_robin p" by (simp add: stage_def p1_def)
  moreover have "pd_staged p1 = pd_staged p" by (simp add: p1_def)
  ultimately show ?thesis using pr by blast
qed

text \<open>
  Sequence numbers are taken before the batch is encoded and are not given back.  When the encoder
  refuses a batch, \<open>enqueue\<close> reports it and queues nothing, but the partition's next sequence number has moved past the
  records that will never be sent.
\<close>
theorem failed_encoding_leaves_a_gap:
  assumes "\<And>c rs. encode_records ops c rs = Inl e" and "identity (pd_state p) = Some i"
    and "txn (pd_state p) \<noteq> TxnFatal" and "\<not> transactional (pd_state p)" and "recs \<noteq> []" and "int (length recs) \<le> i32_max"
  shows "\<exists>p'. enqueue ops topic part recs p = (Inl (Core (Codec (''encode record batch: '' @ e))), p') \<and>
    pd_pending p' = pd_pending p \<and>
    next_sequence (pd_state p') topic part = wrap32 (next_sequence (pd_state p) topic part + int (length recs))"
proof -
  let ?rng = "\<lparr>seq_base = next_sequence (pd_state p) topic part, seq_count = int (length recs)\<rparr>"
  have "check_usable (pd_state p) = Inr ()" using assms(2,3) by (simp add: check_usable_def split: txn_state.split)
  then have al: "allocate (pd_state p) topic part (int (length recs)) =
      (Inr ?rng, (pd_state p)\<lparr>sequences := (sequences (pd_state p))((topic, part) \<mapsto> seq_end ?rng)\<rparr>)"
    using assms(4) by (simp add: allocate_def next_sequence_def seq_end_def Let_def)
  have "enroll_all ops topic [part] p = (Inr (), p)"
    using assms(4) by (simp add: enroll_all_def needs_enrollment_def)
  then show ?thesis using assms al
    by (simp add: enqueue_def encode_for_def encode_batch_def next_sequence_def seq_end_def)
qed

section \<open>Witnesses\<close>

definition opened :: "memory producer" where
  "opened = (demo_producer [])\<lparr>pd_state := on_init_producer_id idempotent_producer \<lparr>producer_id = 7, producer_epoch = 0\<rparr>\<rparr>"

definition hello :: producer_record where
  "hello = new_producer_record None (Some [104])"

lemmas opened_simps = opened_def hello_def demo_producer_def memory_ops_def new_producer_record_def
  on_init_producer_id_def idempotent_producer_def default_producer_def

lemma enqueue_opened:
  "enqueue memory_ops ''t'' 0 [hello] opened =
    (Inr (), opened\<lparr>pd_state := snd (allocate (pd_state opened) ''t'' 0 1), pd_pending := [((''t'', 0), [[]])]\<rparr>)"
  by (simp add: opened_simps enqueue_def enroll_all_def needs_enrollment_def encode_for_def encode_batch_def
      allocate_def check_usable_def Let_def bt_entry_def bt_get_def)

theorem enqueue_in_sequence_witness:
  "queue (snd (enqueue memory_ops ''t'' 0 [hello] opened)) =
     (queue opened)((''t'', 0) := queue opened (''t'', 0) @ [[]])"
  using enqueue_in_sequence [OF _ enqueue_opened] by (auto simp: enqueue_opened) (auto simp: memory_ops_def)

definition in_transaction :: "memory producer" where
  "in_transaction = opened\<lparr>pd_transactional_id := Some ''id'', pd_coordinator := Some ''b:1'',
     pd_state := (pd_state opened)\<lparr>transactional := True, txn := InTransaction\<rparr>\<rparr>"

lemma retries_Cons: "[0..<MAX_RETRIES] = 0 # [1..<MAX_RETRIES]"
  by (simp add: upt_conv_Cons MAX_RETRIES_def)

lemma commit_lost:
  "client_end memory_ops True in_transaction =
     (Inl (Io ''closed''), in_transaction\<lparr>pd_state := (pd_state in_transaction)\<lparr>txn := Ending\<rparr>\<rparr>)"
  by (simp add: client_end_def in_transaction_def opened_simps end_transaction_def check_usable_def credentials_of_def
      coordinator_call_def retries_Cons coordinator_addr_def)

theorem ending_a_transaction_witness:
  "fst (client_begin (snd (client_end memory_ops True in_transaction))) \<noteq> Inr () \<and>
   fst (commit_transaction memory_ops (snd (client_end memory_ops True in_transaction))) = Inl (Producer NoTransaction)"
  using ending_a_transaction [OF commit_lost] by (simp add: commit_lost) (simp add: in_transaction_def)

definition with_staged :: "memory producer" where
  "with_staged = opened\<lparr>pd_linger := 100,
     pd_staged := [((''t'', 0), \<lparr>sb_records = [hello], sb_bytes = 16384, sb_since = 0\<rparr>),
                   ((''t'', 1), \<lparr>sb_records = [hello], sb_bytes = 17, sb_since = 0\<rparr>)]\<rparr>"

lemma tick_with_staged: "\<exists>p'. tick memory_ops with_staged = (Inr (), p')"
proof -
  let ?q = "with_staged\<lparr>pd_staged := [], pd_pending := [((''t'', 0), [[]]), ((''t'', 1), [[]])],
    pd_state := snd (allocate (snd (allocate (pd_state opened) ''t'' 0 1)) ''t'' 1 1)\<rparr>"
  have un: "send_ready memory_ops with_staged =
      (case flush_pending memory_ops ?q of (Inl e, p2) \<Rightarrow> (Inl e, p2) | (Inr _, p2) \<Rightarrow> (Inr (), p2))"
    by (simp add: send_ready_def flush_def drain_staged_def is_ready_def with_staged_def opened_simps bt_get_def bt_remove_def
        bt_keys_def enqueue_def enroll_all_def needs_enrollment_def encode_for_def encode_batch_def
        allocate_def check_usable_def Let_def bt_entry_def)
  have "\<exists>ws p'. flush_loop memory_ops [0..<MAX_RETRIES] [] ?q = (Inr ws, p') \<and> pd_pending p' = []"
    by (rule healthy_flush_delivers [OF memory_healthy])
       (auto simp: with_staged_def opened_def demo_producer_def idle_def bt_wf_def MAX_RETRIES_def queue_def bt_get_def)
  then show ?thesis by (auto simp: tick_def un flush_pending_def)
qed

theorem one_ready_batch_sends_all_witness:
  "(\<exists>(key, st)\<in>set (pd_staged with_staged). sb_bytes st < pd_batch_size with_staged) \<and>
   pd_staged (snd (tick memory_ops with_staged)) = []"
proof -
  obtain p' where t: "tick memory_ops with_staged = (Inr (), p')" using tick_with_staged by blast
  have "\<exists>(key, st)\<in>set (pd_staged with_staged). pd_batch_size with_staged \<le> sb_bytes st"
    by (simp add: with_staged_def opened_def demo_producer_def)
  with one_ready_batch_sends_all [OF t] have "pd_staged p' = []" by auto
  then show ?thesis using t by (simp add: with_staged_def opened_def demo_producer_def)
qed

theorem produce_without_key_stays_put_witness:
  "pd_round_robin (snd (produce memory_ops ''t'' hello opened)) = pd_round_robin opened"
  using produce_without_key_stays_put [of memory_ops "''t''" 1 hello opened, OF _ _ _ _ surjective_pairing]
  by (simp add: in_i32_def) (simp add: hello_def new_producer_record_def memory_ops_def)

theorem failed_encoding_leaves_a_gap_witness:
  "\<exists>p'. enqueue (memory_ops\<lparr>encode_records := \<lambda>_ _. Inl ''too big''\<rparr>) ''t'' 0 [hello] opened =
     (Inl (Core (Codec (''encode record batch: '' @ ''too big''))), p') \<and> pd_pending p' = pd_pending opened \<and>
     next_sequence (pd_state p') ''t'' 0 = 1"
proof -
  let ?ops = "memory_ops\<lparr>encode_records := \<lambda>_ _. Inl ''too big''\<rparr>"
  have "\<exists>p'. enqueue ?ops ''t'' 0 [hello] opened =
     (Inl (Core (Codec (''encode record batch: '' @ ''too big''))), p') \<and> pd_pending p' = pd_pending opened \<and>
     next_sequence (pd_state p') ''t'' 0 = wrap32 (next_sequence (pd_state opened) ''t'' 0 + int (length [hello]))"
    by (rule failed_encoding_leaves_a_gap) (simp_all add: opened_simps)
  then show ?thesis by (simp add: opened_simps next_sequence_def wrap32_def)
qed

end
