(* ===== verification/Frame.thy ===== *)
theory Frame
  imports Errors
begin

text \<open>
  Kafka's framing, \<^verbatim>\<open>barnabas-core/src/frame.rs\<close>: a 4-byte big-endian length followed by that
  many bytes.  \<open>frame_decoder\<close> is the reassembly buffer; \<open>push\<close>, \<open>needed\<close> and
  \<open>next_frame\<close> are its operations and \<open>frame\<close> is the encoder.  The lemmas show that a
  stream of frames is recovered exactly, however the socket splits it, that a rejected prefix
  consumes nothing, and that \<open>needed\<close> is exact.
\<close>

section \<open>The decoder\<close>

definition DEFAULT_MAX_FRAME :: nat where
  "DEFAULT_MAX_FRAME = 100 * 1024 * 1024"

record frame_decoder =
  buf :: bytes
  max_frame :: nat

definition new_decoder :: "nat \<Rightarrow> frame_decoder" where
  "new_decoder limit = \<lparr>buf = [], max_frame = limit\<rparr>"

definition default_decoder :: frame_decoder where
  "default_decoder = new_decoder DEFAULT_MAX_FRAME"

definition push :: "frame_decoder \<Rightarrow> bytes \<Rightarrow> frame_decoder" where
  "push d bs = d\<lparr>buf := buf d @ bs\<rparr>"

definition buffered :: "frame_decoder \<Rightarrow> nat" where
  "buffered d = length (buf d)"

definition needed :: "frame_decoder \<Rightarrow> nat" where
  "needed d =
     (if length (buf d) < 4 then 4 - length (buf d)
      else let len = i32_from_be (take 4 (buf d));
               len = min (if 0 \<le> len then nat len else 0) (max_frame d)
           in (4 + len) - length (buf d))"

definition next_frame :: "frame_decoder \<Rightarrow> (core_error + bytes option) \<times> frame_decoder" where
  "next_frame d =
     (if length (buf d) < 4 then (Inr None, d)
      else let len = i32_from_be (take 4 (buf d))
           in if len < 0 then (Inl (FrameTooLarge usize_max (max_frame d)), d)
              else if max_frame d < nat len then (Inl (FrameTooLarge (nat len) (max_frame d)), d)
              else if length (buf d) < 4 + nat len then (Inr None, d)
              else let rest = drop 4 (buf d)
                   in (Inr (Some (take (nat len) rest)), d\<lparr>buf := drop (nat len) rest\<rparr>))"

definition frame :: "bytes \<Rightarrow> core_error + bytes" where
  "frame body =
     (if int (length body) \<le> i32_max then Inr (be_bytes 4 (int (length body)) @ body)
      else Inl (FrameTooLarge (length body) (nat i32_max)))"

lemmas frame_defs = new_decoder_def push_def buffered_def next_frame_def

section \<open>The prefix\<close>

text \<open>What the decoder knows once four bytes are present.\<close>

definition prefix_ok :: "frame_decoder \<Rightarrow> bool" where
  "prefix_ok d \<longleftrightarrow> 4 \<le> length (buf d) \<longrightarrow>
     0 \<le> i32_from_be (take 4 (buf d)) \<and> nat (i32_from_be (take 4 (buf d))) \<le> max_frame d"

lemma next_frame_error_iff: "(\<exists>e. fst (next_frame d) = Inl e) \<longleftrightarrow> \<not> prefix_ok d"
  by (auto simp: next_frame_def prefix_ok_def Let_def not_le)

lemma next_frame_error_keeps: "fst (next_frame d) = Inl e \<Longrightarrow> snd (next_frame d) = d"
  by (auto simp: next_frame_def Let_def split: if_splits)

lemma next_frame_none_keeps: "fst (next_frame d) = Inr None \<Longrightarrow> snd (next_frame d) = d"
  by (auto simp: next_frame_def Let_def split: if_splits)

lemma next_frame_max [simp]: "max_frame (snd (next_frame d)) = max_frame d"
  by (auto simp: next_frame_def Let_def)

lemma push_max [simp]: "max_frame (push d bs) = max_frame d"
  by (simp add: push_def)

lemma push_push: "push (push d a) b = push d (a @ b)"
  by (simp add: push_def)

lemma next_frame_some:
  assumes "next_frame d = (Inr (Some body), d')"
  shows "buf d = take 4 (buf d) @ body @ buf d'" and "length body \<le> max_frame d"
    and "i32_from_be (take 4 (buf d)) = int (length body)"
proof -
  let ?len = "i32_from_be (take 4 (buf d))"
  from assms have len: "4 \<le> length (buf d)" "0 \<le> ?len" "nat ?len \<le> max_frame d"
      "4 + nat ?len \<le> length (buf d)"
    and body: "body = take (nat ?len) (drop 4 (buf d))"
    and rest: "buf d' = drop (nat ?len) (drop 4 (buf d))"
    by (auto simp: next_frame_def Let_def split: if_splits)
  show "buf d = take 4 (buf d) @ body @ buf d'"
    unfolding body rest by (metis append_take_drop_id)
  show "length body \<le> max_frame d" and "?len = int (length body)"
    unfolding body using len by auto
qed

lemma next_frame_shrinks: "next_frame d = (Inr (Some body), d') \<Longrightarrow> length (buf d') < length (buf d)"
  by (auto simp: next_frame_def Let_def split: if_splits)

section \<open>Encoding then decoding\<close>

definition frameable :: "nat \<Rightarrow> bytes \<Rightarrow> bool" where
  "frameable limit body \<longleftrightarrow> length body \<le> limit \<and> int (length body) \<le> i32_max"

definition wire :: "bytes \<Rightarrow> bytes" where
  "wire body = be_bytes 4 (int (length body)) @ body"

lemma frame_wire: "frame body = Inr w \<longleftrightarrow> int (length body) \<le> i32_max \<and> w = wire body"
  by (auto simp: frame_def wire_def)

lemma length_wire [simp]: "length (wire body) = 4 + length body"
  by (simp add: wire_def)

lemma wire_prefix: "int (length body) \<le> i32_max \<Longrightarrow> i32_from_be (take 4 (wire body @ xs)) = int (length body)"
  by (simp add: wire_def be_simps in_i32_def)

lemma next_frame_wire:
  assumes "buf d = wire body @ rest" and "frameable (max_frame d) body"
  shows "next_frame d = (Inr (Some body), d\<lparr>buf := rest\<rparr>)"
proof -
  have "i32_from_be (take 4 (buf d)) = int (length body)"
    using assms wire_prefix [of body rest] by (simp add: frameable_def)
  moreover have "drop 4 (buf d) = body @ rest"
    using assms(1) by (simp add: wire_def)
  ultimately show ?thesis
    using assms by (simp add: next_frame_def Let_def frameable_def)
qed

lemma next_frame_fragment:
  assumes "buf d @ extra = wire body" and "extra \<noteq> []" and "frameable (max_frame d) body"
  shows "next_frame d = (Inr None, d)"
proof (cases "length (buf d) < 4")
  case True
  then show ?thesis by (simp add: next_frame_def)
next
  case False
  have "take 4 (buf d) = take 4 (wire body)"
    using False assms(1) by (metis append_eq_conv_conj diff_is_0_eq' leI take_0 take_append append_Nil2)
  then have "i32_from_be (take 4 (buf d)) = int (length body)"
    using assms(3) wire_prefix [of body "[]"] by (simp add: frameable_def)
  moreover have "length (buf d) < 4 + length body"
    using assms(1,2) by (metis length_append length_greater_0_conv length_wire less_add_same_cancel1)
  ultimately show ?thesis
    using False assms(3) by (simp add: next_frame_def Let_def frameable_def)
qed

section \<open>Any split of the stream\<close>

text \<open>
  How a reader uses the decoder (\<^verbatim>\<open>Broker::recv\<close>): after each chunk from the socket, take
  frames until there is none.  \<open>drain\<close> is that inner loop, \<open>feed\<close> the outer one.
\<close>

function drain :: "frame_decoder \<Rightarrow> (core_error + bytes list) \<times> frame_decoder" where
  "drain d =
     (case next_frame d of
        (Inl e, d') \<Rightarrow> (Inl e, d')
      | (Inr None, d') \<Rightarrow> (Inr [], d')
      | (Inr (Some body), d') \<Rightarrow>
          (case drain d' of
             (Inl e, d'') \<Rightarrow> (Inl e, d'')
           | (Inr bodies, d'') \<Rightarrow> (Inr (body # bodies), d'')))"
  by pat_completeness auto
termination
  by (relation "measure (\<lambda>d. length (buf d))") (auto dest!: sym next_frame_shrinks)

declare drain.simps [simp del]

fun feed :: "frame_decoder \<Rightarrow> bytes list \<Rightarrow> (core_error + bytes list) \<times> frame_decoder" where
  "feed d [] = (Inr [], d)"
| "feed d (c # cs) =
     (case drain (push d c) of
        (Inl e, d') \<Rightarrow> (Inl e, d')
      | (Inr bodies, d') \<Rightarrow>
          (case feed d' cs of
             (Inl e, d'') \<Rightarrow> (Inl e, d'')
           | (Inr extra, d'') \<Rightarrow> (Inr (bodies @ extra), d'')))"

lemma drain_wires:
  assumes "buf d = concat (map wire bodies) @ rest"
    and "list_all (frameable (max_frame d)) bodies"
    and "next_frame (d\<lparr>buf := rest\<rparr>) = (Inr None, d\<lparr>buf := rest\<rparr>)"
  shows "drain d = (Inr bodies, d\<lparr>buf := rest\<rparr>)"
  using assms
proof (induction bodies arbitrary: d)
  case Nil
  then have "d = d\<lparr>buf := rest\<rparr>" by simp
  with Nil have "next_frame d = (Inr None, d)" by simp
  with \<open>d = d\<lparr>buf := rest\<rparr>\<close> show ?case by (simp add: drain.simps [of d])
next
  case (Cons b bs)
  let ?d' = "d\<lparr>buf := concat (map wire bs) @ rest\<rparr>"
  have step: "next_frame d = (Inr (Some b), ?d')"
    using Cons.prems by (intro next_frame_wire) auto
  have "drain ?d' = (Inr bs, ?d'\<lparr>buf := rest\<rparr>)"
    using Cons.prems by (intro Cons.IH) auto
  with step show ?case by (simp add: drain.simps [of d])
qed

text \<open>A buffer that is a run of whole frames and a proper prefix of one more.\<close>

lemma stream_split:
  assumes "a @ b = concat (map wire bodies)" and "list_all (frameable limit) bodies"
  shows "\<exists>n frag. n \<le> length bodies \<and> a = concat (map wire (take n bodies)) @ frag \<and>
     frag @ b = concat (map wire (drop n bodies)) \<and>
     (frag = [] \<or> (\<exists>body extra. n < length bodies \<and> frag @ extra = wire body \<and> extra \<noteq> [] \<and>
        body = bodies ! n))"
  using assms
proof (induction bodies arbitrary: a)
  case Nil
  then show ?case by auto
next
  case (Cons x xs)
  show ?case
  proof (cases "length (wire x) \<le> length a")
    case True
    define a' where "a' = drop (length (wire x)) a"
    have whole: "a @ b = wire x @ concat (map wire xs)"
      using Cons.prems(1) by simp
    have "take (length (wire x)) (a @ b) = wire x"
      unfolding whole by simp
    with True have a: "a = wire x @ a'"
      by (metis a'_def append_take_drop_id diff_is_0_eq take_0 append_Nil2 take_append)
    with whole have rest: "a' @ b = concat (map wire xs)" by simp
    from Cons.IH [OF rest] Cons.prems(2) obtain n frag where n: "n \<le> length xs"
      "a' = concat (map wire (take n xs)) @ frag" "frag @ b = concat (map wire (drop n xs))"
      "frag = [] \<or> (\<exists>body extra. n < length xs \<and> frag @ extra = wire body \<and> extra \<noteq> [] \<and> body = xs ! n)"
      by auto
    with a show ?thesis by (intro exI [of _ "Suc n"] exI [of _ frag]) auto
  next
    case False
    define extra where "extra = drop (length a) (wire x)"
    have "take (length a) (wire x @ concat (map wire xs)) = a"
      using Cons.prems(1) by (metis append_eq_conv_conj concat.simps(2) list.simps(9))
    then have pre: "take (length a) (wire x) = a"
      using False by simp
    have "a @ extra = wire x"
      unfolding extra_def using pre by (metis append_take_drop_id)
    moreover have "extra \<noteq> []"
      unfolding extra_def using False by simp
    ultimately show ?thesis using Cons.prems by (intro exI [of _ 0] exI [of _ a]) auto
  qed
qed

lemma feed_wires:
  assumes "buf d @ concat cs = concat (map wire bodies)"
    and "list_all (frameable (max_frame d)) bodies"
    and "next_frame d = (Inr None, d)"
  shows "feed d cs = (Inr bodies, d\<lparr>buf := []\<rparr>)"
  using assms
proof (induction cs arbitrary: d bodies)
  case Nil
  then have "buf d = concat (map wire bodies) @ []" by simp
  have "drain d = (Inr bodies, d\<lparr>buf := []\<rparr>)"
    by (rule drain_wires) (use Nil in \<open>auto simp: next_frame_def\<close>)
  moreover have "drain d = (Inr [], d)"
    using Nil by (simp add: drain.simps [of d])
  ultimately show ?case by simp
next
  case (Cons c cs)
  have "(buf d @ c) @ concat cs = concat (map wire bodies)"
    using Cons.prems(1) by simp
  from stream_split [OF this Cons.prems(2)] obtain n frag where n: "n \<le> length bodies"
    and a: "buf d @ c = concat (map wire (take n bodies)) @ frag"
    and b: "frag @ concat cs = concat (map wire (drop n bodies))"
    and frag: "frag = [] \<or> (\<exists>body extra. n < length bodies \<and> frag @ extra = wire body \<and>
        extra \<noteq> [] \<and> body = bodies ! n)"
    by blast
  let ?d = "push d c"
  let ?d' = "?d\<lparr>buf := frag\<rparr>"
  have ok: "list_all (frameable (max_frame d)) (take n bodies)"
      "list_all (frameable (max_frame d)) (drop n bodies)"
    using Cons.prems(2) by (auto simp: list_all_iff dest: in_set_takeD in_set_dropD)
  have none: "next_frame ?d' = (Inr None, ?d')"
    using frag
  proof
    assume "frag = []"
    then show ?thesis by (simp add: next_frame_def)
  next
    assume "\<exists>body extra. n < length bodies \<and> frag @ extra = wire body \<and> extra \<noteq> [] \<and> body = bodies ! n"
    then show ?thesis
      using Cons.prems(2) by (auto simp: list_all_length intro!: next_frame_fragment)
  qed
  have "drain ?d = (Inr (take n bodies), ?d')"
    by (rule drain_wires) (use a ok none in \<open>auto simp: push_def\<close>)
  moreover have "feed ?d' cs = (Inr (drop n bodies), ?d'\<lparr>buf := []\<rparr>)"
    by (rule Cons.IH) (use b ok none in auto)
  ultimately show ?case by (simp add: push_def)
qed

text \<open>
  C8: framing round-trips under every split of the stream.  Whatever bodies a peer frames, and
  into whatever chunks the socket cuts the bytes (down to one byte at a time, or several frames
  and a fragment together), a reader that takes frames after each chunk obtains exactly those
  bodies, in order, and is left with an empty buffer.
\<close>

theorem frames_survive_any_split:
  assumes "list_all2 (\<lambda>body w. frame body = Inr w) bodies ws"
    and "list_all (\<lambda>body. length body \<le> limit) bodies"
    and "concat chunks = concat ws"
  shows "feed (new_decoder limit) chunks = (Inr bodies, new_decoder limit)"
proof -
  have ws: "ws = map wire bodies" and "list_all (\<lambda>body. int (length body) \<le> i32_max) bodies"
    using assms(1) by (induction bodies ws rule: list_all2_induct) (auto simp: frame_wire)
  with assms(2) have "list_all (frameable limit) bodies"
    by (auto simp: list_all_iff frameable_def)
  with assms(3) ws show ?thesis
    using feed_wires [of "new_decoder limit" chunks bodies]
    by (simp add: new_decoder_def next_frame_def)
qed

theorem frames_survive_any_split_witness:
  "feed (new_decoder 16) [[0, 0], [0, 2, 7], [8, 0, 0, 0], [0, 0, 0, 0, 1], [9]] =
     (Inr [[7, 8], [], [9]], new_decoder 16)"
  by (rule frames_survive_any_split [where ws = "[[0, 0, 0, 2, 7, 8], [0, 0, 0, 0], [0, 0, 0, 1, 9]]"])
     (simp_all add: frame_def be_bytes_4)

text \<open>
  The allocation guard.  \<open>next_frame\<close> fails exactly when a complete prefix is negative or
  above the configured limit, and then the buffer is untouched; a frame it yields is never longer
  than the limit, was preceded by its own length, and leaves exactly the bytes behind it.
\<close>

theorem next_frame_guard:
  "((\<exists>e. fst (next_frame d) = Inl e) \<longleftrightarrow>
      4 \<le> length (buf d) \<and>
      (i32_from_be (take 4 (buf d)) < 0 \<or> int (max_frame d) < i32_from_be (take 4 (buf d)))) \<and>
   (fst (next_frame d) = Inl e \<longrightarrow> snd (next_frame d) = d) \<and>
   (next_frame d = (Inr (Some body), d') \<longrightarrow>
      length body \<le> max_frame d \<and> buf d = take 4 (buf d) @ body @ buf d' \<and>
      i32_from_be (take 4 (buf d)) = int (length body))"
proof -
  have "(\<exists>e. fst (next_frame d) = Inl e) \<longleftrightarrow>
      4 \<le> length (buf d) \<and>
      (i32_from_be (take 4 (buf d)) < 0 \<or> int (max_frame d) < i32_from_be (take 4 (buf d)))"
    unfolding next_frame_error_iff by (auto simp: prefix_ok_def)
  then show ?thesis
    using next_frame_error_keeps [of d e] next_frame_some [of d body d'] by blast
qed

theorem next_frame_guard_witness:
  "snd (next_frame \<lparr>buf = [127, 255, 255, 255], max_frame = 1024\<rparr>) =
     \<lparr>buf = [127, 255, 255, 255], max_frame = 1024\<rparr> \<and>
   length [5 :: u8] \<le> max_frame \<lparr>buf = [0, 0, 0, 1, 5, 6], max_frame = 9\<rparr>"
  using next_frame_guard [of "\<lparr>buf = [127, 255, 255, 255], max_frame = 1024\<rparr>"
      "FrameTooLarge 2147483647 1024"]
    next_frame_guard [of "\<lparr>buf = [0, 0, 0, 1, 5, 6], max_frame = 9\<rparr>" _ "[5]"
      "\<lparr>buf = [6], max_frame = 9\<rparr>"]
  by (simp add: next_frame_def i32_from_be_def)

text \<open>
  \<open>needed\<close> sizes the read.  While a prefix is acceptable, no frame is available exactly
  when \<open>needed\<close> is positive; a read shorter than \<open>needed\<close> never completes a frame, and once
  the prefix is there, reading exactly \<open>needed\<close> bytes completes it.
\<close>

theorem needed_exact:
  assumes "prefix_ok d"
  shows "(fst (next_frame d) = Inr None \<longleftrightarrow> 0 < needed d) \<and>
     (length extra < needed d \<and> prefix_ok (push d extra) \<longrightarrow>
        fst (next_frame (push d extra)) = Inr None) \<and>
     (4 \<le> length (buf d) \<and> length extra = needed d \<longrightarrow>
        (\<exists>body d'. next_frame (push d extra) = (Inr (Some body), d')))"
proof (intro conjI impI; (elim conjE)?)
  show "fst (next_frame d) = Inr None \<longleftrightarrow> 0 < needed d"
    using assms by (auto simp: next_frame_def needed_def prefix_ok_def Let_def min_def)
  show "fst (next_frame (push d extra)) = Inr None"
    if "length extra < needed d" "prefix_ok (push d extra)"
    using that assms
    by (auto simp: next_frame_def needed_def prefix_ok_def push_def Let_def min_def split: if_splits)
  show "\<exists>body d'. next_frame (push d extra) = (Inr (Some body), d')"
    if "4 \<le> length (buf d)" "length extra = needed d"
    using that assms
    by (auto simp: next_frame_def needed_def prefix_ok_def push_def Let_def min_def split: if_splits)
qed

theorem needed_exact_witness:
  "needed \<lparr>buf = [0, 0, 0, 3, 1], max_frame = 9\<rparr> = 2 \<and>
   fst (next_frame \<lparr>buf = [0, 0, 0, 3, 1], max_frame = 9\<rparr>) = Inr None \<and>
   fst (next_frame (push \<lparr>buf = [0, 0, 0, 3, 1], max_frame = 9\<rparr> [2])) = Inr None \<and>
   (\<exists>body d'. next_frame (push \<lparr>buf = [0, 0, 0, 3, 1], max_frame = 9\<rparr> [2, 3]) = (Inr (Some body), d'))"
proof -
  let ?d = "\<lparr>buf = [0, 0, 0, 3, 1], max_frame = 9\<rparr>"
  have ok: "prefix_ok ?d" and two: "needed ?d = 2" and ok1: "prefix_ok (push ?d [2])"
    by (simp_all add: prefix_ok_def needed_def push_def i32_from_be_def)
  show ?thesis
    using needed_exact [OF ok, of "[2]"] needed_exact [OF ok, of "[2, 3]"] two ok1 by simp
qed

end
