(* ===== verification/Conn.thy ===== *)
theory Conn
  imports Frame
begin

text \<open>
  Request/response correlation over one broker connection, \<^verbatim>\<open>barnabas-core/src/conn.rs\<close>.  The
  wire codec is the \<^verbatim>\<open>kafka-protocol\<close> crate and is a parameter: \<open>enc_header\<close> and
  \<open>enc_body\<close> stand for \<^verbatim>\<open>encode_request_header_into_buffer\<close> and \<^verbatim>\<open>Encodable::encode\<close>,
  \<open>dec_header\<close> for \<^verbatim>\<open>ResponseHeader::decode\<close> (the correlation id and the bytes left),
  \<open>rhv\<close> for \<^verbatim>\<open>ApiKey::response_header_version\<close>.  An API key is its wire number.  The text of a
  \<open>Codec\<close> error is the constant part of the message and the codec's own text.

  Shown: a response is only ever matched to the oldest outstanding request, a desynchronised
  stream does not advance, pipelined requests get exactly their own answers under any split of
  the stream, and outstanding correlation ids are pairwise distinct.
\<close>

section \<open>State\<close>

record pending =
  p_api_key :: int
  p_version :: int
  p_correlation_id :: int

record pending_response =
  r_api_key :: int
  r_version :: int
  r_correlation_id :: int
  r_body :: bytes

record connection =
  client_id :: string
  next_correlation_id :: int
  in_flight_queue :: "pending list"
  decoder :: frame_decoder

record request_header =
  request_api_key :: int
  request_api_version :: int
  correlation_id :: int
  header_client_id :: "string option"

section \<open>Operations\<close>

definition new_connection :: "string \<Rightarrow> connection" where
  "new_connection cid =
     \<lparr>client_id = cid, next_correlation_id = 0, in_flight_queue = [], decoder = default_decoder\<rparr>"

definition in_flight :: "connection \<Rightarrow> nat" where
  "in_flight c = length (in_flight_queue c)"

definition request ::
  "(request_header \<Rightarrow> string + bytes) \<Rightarrow> (int \<Rightarrow> string + bytes) \<Rightarrow>
   connection \<Rightarrow> int \<Rightarrow> int \<Rightarrow> (core_error + bytes) \<times> connection" where
  "request enc_header enc_body c api_key version =
     (let cid = wrap32 (next_correlation_id c + 1);
          c1 = c\<lparr>next_correlation_id := cid\<rparr>;
          header = \<lparr>request_api_key = api_key, request_api_version = version,
                    correlation_id = cid, header_client_id = Some (client_id c)\<rparr>
      in case enc_header header of
           Inl e \<Rightarrow> (Inl (Codec (''encode header: '' @ e)), c1)
         | Inr h \<Rightarrow>
             (case enc_body version of
                Inl e \<Rightarrow> (Inl (Codec (''encode: '' @ e)), c1)
              | Inr b \<Rightarrow>
                  (frame (h @ b),
                   c1\<lparr>in_flight_queue := in_flight_queue c @
                        [\<lparr>p_api_key = api_key, p_version = version, p_correlation_id = cid\<rparr>]\<rparr>)))"

definition push_bytes :: "connection \<Rightarrow> bytes \<Rightarrow> connection" where
  "push_bytes c bs = c\<lparr>decoder := push (decoder c) bs\<rparr>"

definition conn_needed :: "connection \<Rightarrow> nat" where
  "conn_needed c = needed (decoder c)"

definition next_response ::
  "(int \<Rightarrow> bytes \<Rightarrow> string + int \<times> bytes) \<Rightarrow> (int \<Rightarrow> int \<Rightarrow> int) \<Rightarrow>
   connection \<Rightarrow> (core_error + pending_response option) \<times> connection" where
  "next_response dec_header rhv c =
     (case next_frame (decoder c) of
        (Inl e, d) \<Rightarrow> (Inl e, c\<lparr>decoder := d\<rparr>)
      | (Inr None, d) \<Rightarrow> (Inr None, c\<lparr>decoder := d\<rparr>)
      | (Inr (Some fr), d) \<Rightarrow>
          (let c1 = c\<lparr>decoder := d\<rparr>
           in case in_flight_queue c of
                [] \<Rightarrow> (Inl Unsolicited, c1)
              | p # ps \<Rightarrow>
                  (case dec_header (rhv (p_api_key p) (p_version p)) fr of
                     Inl e \<Rightarrow> (Inl (Codec (''decode response header: '' @ e)), c1)
                   | Inr (got, rest) \<Rightarrow>
                       if got \<noteq> p_correlation_id p
                       then (Inl (Correlation got (p_correlation_id p)), c1)
                       else (Inr (Some \<lparr>r_api_key = p_api_key p, r_version = p_version p,
                                        r_correlation_id = got, r_body = rest\<rparr>),
                             c1\<lparr>in_flight_queue := ps\<rparr>))))"

definition decode_response ::
  "(int \<Rightarrow> bytes \<Rightarrow> string + 'r) \<Rightarrow> pending_response \<Rightarrow> core_error + 'r" where
  "decode_response dec_body r =
     (case dec_body (r_version r) (r_body r) of
        Inl e \<Rightarrow> Inl (Codec (''decode response: '' @ e))
      | Inr v \<Rightarrow> Inr v)"

section \<open>Matching\<close>

lemma next_response_matches:
  assumes "next_response dec rhv c = (Inr (Some r), c')"
  obtains p ps where "in_flight_queue c = p # ps" and "in_flight_queue c' = ps"
    and "r_api_key r = p_api_key p" and "r_version r = p_version p"
    and "r_correlation_id r = p_correlation_id p"
  using assms
  by (auto simp: next_response_def Let_def split: prod.splits sum.splits option.splits list.splits if_splits)

lemma next_response_error_keeps:
  assumes "next_response dec rhv c = (Inl e, c')"
  shows "in_flight_queue c' = in_flight_queue c"
  using assms
  by (auto simp: next_response_def Let_def split: prod.splits sum.splits option.splits list.splits if_splits)

lemma next_response_shrinks:
  "next_response dec rhv c = (Inr (Some r), c') \<Longrightarrow>
     length (buf (decoder c')) < length (buf (decoder c))"
  by (auto simp: next_response_def Let_def
      split: prod.splits sum.splits option.splits list.splits if_splits dest!: next_frame_shrinks)

section \<open>Pipelining under any split\<close>

text \<open>
  The reader's use of a connection: after each chunk from the socket, take responses until there
  is none.
\<close>

function take_responses ::
  "(int \<Rightarrow> bytes \<Rightarrow> string + int \<times> bytes) \<Rightarrow> (int \<Rightarrow> int \<Rightarrow> int) \<Rightarrow>
   connection \<Rightarrow> (core_error + pending_response list) \<times> connection" where
  "take_responses dec rhv c =
     (case next_response dec rhv c of
        (Inl e, c') \<Rightarrow> (Inl e, c')
      | (Inr None, c') \<Rightarrow> (Inr [], c')
      | (Inr (Some r), c') \<Rightarrow>
          (case take_responses dec rhv c' of
             (Inl e, c'') \<Rightarrow> (Inl e, c'')
           | (Inr rs, c'') \<Rightarrow> (Inr (r # rs), c'')))"
  by pat_completeness auto
termination
  by (relation "measure (\<lambda>(dec, rhv, c). length (buf (decoder c)))")
     (auto dest!: sym next_response_shrinks)

declare take_responses.simps [simp del]

fun receive ::
  "(int \<Rightarrow> bytes \<Rightarrow> string + int \<times> bytes) \<Rightarrow> (int \<Rightarrow> int \<Rightarrow> int) \<Rightarrow>
   connection \<Rightarrow> bytes list \<Rightarrow> (core_error + pending_response list) \<times> connection" where
  "receive dec rhv c [] = (Inr [], c)"
| "receive dec rhv c (x # xs) =
     (case take_responses dec rhv (push_bytes c x) of
        (Inl e, c') \<Rightarrow> (Inl e, c')
      | (Inr rs, c') \<Rightarrow>
          (case receive dec rhv c' xs of
             (Inl e, c'') \<Rightarrow> (Inl e, c'')
           | (Inr rs', c'') \<Rightarrow> (Inr (rs @ rs'), c'')))"

text \<open>What the answer to one outstanding request looks like on the wire.\<close>

definition answers ::
  "(int \<Rightarrow> bytes \<Rightarrow> string + int \<times> bytes) \<Rightarrow> (int \<Rightarrow> int \<Rightarrow> int) \<Rightarrow> pending \<Rightarrow> bytes \<Rightarrow> bytes \<Rightarrow> bool" where
  "answers dec rhv p fr rest \<longleftrightarrow>
     dec (rhv (p_api_key p) (p_version p)) fr = Inr (p_correlation_id p, rest)"

definition response_to :: "pending \<Rightarrow> bytes \<Rightarrow> pending_response" where
  "response_to p rest = \<lparr>r_api_key = p_api_key p, r_version = p_version p,
     r_correlation_id = p_correlation_id p, r_body = rest\<rparr>"

lemma next_response_answer:
  assumes "next_frame (decoder c) = (Inr (Some fr), d)" and "in_flight_queue c = p # ps"
    and "answers dec rhv p fr rest"
  shows "next_response dec rhv c =
     (Inr (Some (response_to p rest)), c\<lparr>decoder := d, in_flight_queue := ps\<rparr>)"
  using assms by (simp add: next_response_def answers_def response_to_def Let_def)

lemma take_responses_drain:
  assumes "drain (decoder c) = (Inr frs, d)"
    and "list_all2 (\<lambda>p (fr, rest). answers dec rhv p fr rest) ps (zip frs rests)"
    and "length rests = length frs" and "in_flight_queue c = ps @ qs"
  shows "take_responses dec rhv c =
     (Inr (map2 response_to ps rests), c\<lparr>decoder := d, in_flight_queue := qs\<rparr>)"
  using assms
proof (induction frs arbitrary: c ps rests)
  case Nil
  then have none: "next_frame (decoder c) = (Inr None, d)"
    by (auto simp: drain.simps [of "decoder c"] split: prod.splits sum.splits option.splits)
  with Nil show ?case
    by (simp add: take_responses.simps [of _ _ c] next_response_def)
next
  case (Cons fr frs)
  then obtain d1 where fr1: "next_frame (decoder c) = (Inr (Some fr), d1)"
    and dr: "drain d1 = (Inr frs, d)"
    by (auto simp: drain.simps [of "decoder c"] split: prod.splits sum.splits option.splits)
  from Cons.prems(2,3) obtain p ps' rest rests' where ps: "ps = p # ps'" and rests: "rests = rest # rests'"
    and ans: "answers dec rhv p fr rest"
    and tl: "list_all2 (\<lambda>p (fr, rest). answers dec rhv p fr rest) ps' (zip frs rests')"
    by (cases rests) (auto simp: list_all2_Cons2)
  let ?c1 = "c\<lparr>decoder := d1, in_flight_queue := ps' @ qs\<rparr>"
  have "next_response dec rhv c = (Inr (Some (response_to p rest)), ?c1)"
    using next_response_answer [OF fr1 _ ans] Cons.prems(4) ps by simp
  moreover have "take_responses dec rhv ?c1 =
      (Inr (map2 response_to ps' rests'), ?c1\<lparr>decoder := d, in_flight_queue := qs\<rparr>)"
    using Cons.IH [of ?c1 ps' rests'] dr tl Cons.prems(3) rests by simp
  ultimately show ?case
    using ps rests by (simp add: take_responses.simps [of _ _ c])
qed

lemma receive_feed:
  assumes "feed (decoder c) xs = (Inr frs, d)"
    and "list_all2 (\<lambda>p (fr, rest). answers dec rhv p fr rest) ps (zip frs rests)"
    and "length rests = length frs" and "in_flight_queue c = ps @ qs"
  shows "receive dec rhv c xs =
     (Inr (map2 response_to ps rests), c\<lparr>decoder := d, in_flight_queue := qs\<rparr>)"
  using assms
proof (induction xs arbitrary: c frs ps rests)
  case Nil
  then show ?case by simp
next
  case (Cons x xs)
  then obtain frs1 d1 frs2 where dr: "drain (push (decoder c) x) = (Inr frs1, d1)"
    and fd: "feed d1 xs = (Inr frs2, d)" and frs: "frs = frs1 @ frs2"
    by (auto split: prod.splits sum.splits)
  define n where "n = length frs1"
  have len: "length ps = length frs" "length rests = length frs"
    using Cons.prems(2,3) by (auto dest: list_all2_lengthD)
  have split: "zip frs rests = zip frs1 (take n rests) @ zip frs2 (drop n rests)"
    unfolding frs n_def by (simp add: zip_append1)
  have "list_all2 (\<lambda>p (fr, rest). answers dec rhv p fr rest) (take n ps @ drop n ps)
      (zip frs1 (take n rests) @ zip frs2 (drop n rests))"
    using Cons.prems(2) split by simp
  then have parts: "list_all2 (\<lambda>p (fr, rest). answers dec rhv p fr rest) (take n ps) (zip frs1 (take n rests))"
      "list_all2 (\<lambda>p (fr, rest). answers dec rhv p fr rest) (drop n ps) (zip frs2 (drop n rests))"
    using len frs by (subst (asm) list_all2_append; force simp: n_def)+
  let ?c1 = "(push_bytes c x)\<lparr>decoder := d1, in_flight_queue := drop n ps @ qs\<rparr>"
  have one: "take_responses dec rhv (push_bytes c x) = (Inr (map2 response_to (take n ps) (take n rests)), ?c1)"
    by (rule take_responses_drain [OF _ parts(1)])
       (use dr len frs Cons.prems(4) in \<open>auto simp: push_bytes_def n_def\<close>)
  have two: "receive dec rhv ?c1 xs =
      (Inr (map2 response_to (drop n ps) (drop n rests)), ?c1\<lparr>decoder := d, in_flight_queue := qs\<rparr>)"
    by (rule Cons.IH [OF _ parts(2)]) (use fd len frs in \<open>auto simp: n_def\<close>)
  have "map2 response_to ps rests =
      map2 response_to (take n ps) (take n rests) @ map2 response_to (drop n ps) (drop n rests)"
    by (metis append_take_drop_id map_append zip_append length_take len(1) len(2))
  with one two show ?case by (simp add: push_bytes_def)
qed

text \<open>
  C9: pipelining.  A broker that answers a connection's outstanding requests in the order they
  were sent (each answer a frame whose header decodes to that request's correlation id) has every
  answer matched to its own request, in order, however the socket splits the bytes; nothing is
  left outstanding and nothing is left in the buffer.
\<close>

theorem pipelined_requests_match_in_order:
  assumes "in_flight_queue c = ps" and "buf (decoder c) = []"
    and "list_all2 (\<lambda>p (fr, rest). dec_header (rhv (p_api_key p) (p_version p)) fr
           = Inr (p_correlation_id p, rest)) ps (zip frs rests)"
    and "length rests = length frs"
    and "list_all2 (\<lambda>fr w. frame fr = Inr w) frs ws"
    and "list_all (\<lambda>fr. length fr \<le> max_frame (decoder c)) frs"
    and "concat chunks = concat ws"
  shows "receive dec_header rhv c chunks =
     (Inr (map2 (\<lambda>p rest. \<lparr>r_api_key = p_api_key p, r_version = p_version p,
                 r_correlation_id = p_correlation_id p, r_body = rest\<rparr>) ps rests),
      c\<lparr>in_flight_queue := []\<rparr>)"
proof -
  let ?limit = "max_frame (decoder c)"
  have d: "decoder c = new_decoder ?limit"
    using assms(2) by (simp add: new_decoder_def)
  have ws: "ws = map wire frs" and "list_all (\<lambda>fr. int (length fr) \<le> i32_max) frs"
    using assms(5) by (induction frs ws rule: list_all2_induct) (auto simp: frame_wire)
  with assms(6) have ok: "list_all (frameable ?limit) frs"
    by (auto simp: list_all_iff frameable_def)
  have "feed (decoder c) chunks = (Inr frs, (decoder c)\<lparr>buf := []\<rparr>)"
    by (rule feed_wires) (use assms(2,7) ws ok in \<open>auto simp: next_frame_def\<close>)
  moreover have "(decoder c)\<lparr>buf := []\<rparr> = decoder c"
    using assms(2) by simp
  ultimately have "feed (decoder c) chunks = (Inr frs, decoder c)" by simp
  from receive_feed [OF this, of dec_header rhv ps rests "[]"] assms(1,3,4)
  have "receive dec_header rhv c chunks =
      (Inr (map2 response_to ps rests), c\<lparr>decoder := decoder c, in_flight_queue := []\<rparr>)"
    by (simp add: answers_def)
  then show ?thesis by (simp add: response_to_def [abs_def])
qed

text \<open>A concrete header codec, the version-0 response header: four bytes of correlation id.\<close>

definition dec_header_v0 :: "int \<Rightarrow> bytes \<Rightarrow> string + int \<times> bytes" where
  "dec_header_v0 v fr = (if length fr < 4 then Inl ''short'' else Inr (i32_from_be (take 4 fr), drop 4 fr))"

theorem pipelined_requests_match_in_order_witness:
  "receive dec_header_v0 (\<lambda>_ _. 0)
     (new_connection ''c''\<lparr>next_correlation_id := 2,
        in_flight_queue := [\<lparr>p_api_key = 18, p_version = 3, p_correlation_id = 1\<rparr>,
                            \<lparr>p_api_key = 3, p_version = 12, p_correlation_id = 2\<rparr>]\<rparr>)
     [[0, 0, 0, 5, 0, 0, 0], [1, 77, 0, 0, 0, 4, 0], [0, 0, 2]] =
   (Inr [\<lparr>r_api_key = 18, r_version = 3, r_correlation_id = 1, r_body = [77]\<rparr>,
         \<lparr>r_api_key = 3, r_version = 12, r_correlation_id = 2, r_body = []\<rparr>],
    new_connection ''c''\<lparr>next_correlation_id := 2\<rparr>)"
proof -
  let ?c = "new_connection ''c''\<lparr>next_correlation_id := 2,
        in_flight_queue := [\<lparr>p_api_key = 18, p_version = 3, p_correlation_id = 1\<rparr>,
                            \<lparr>p_api_key = 3, p_version = 12, p_correlation_id = 2\<rparr>]\<rparr>"
  show ?thesis
    using pipelined_requests_match_in_order [of ?c "in_flight_queue ?c" dec_header_v0 "\<lambda>_ _. 0"
        "[[0, 0, 0, 1, 77], [0, 0, 0, 2]]" "[[77], []]"
        "[[0, 0, 0, 5, 0, 0, 0, 1, 77], [0, 0, 0, 4, 0, 0, 0, 2]]"
        "[[0, 0, 0, 5, 0, 0, 0], [1, 77, 0, 0, 0, 4, 0], [0, 0, 2]]"]
    by (simp add: new_connection_def default_decoder_def new_decoder_def DEFAULT_MAX_FRAME_def
        dec_header_v0_def i32_from_be_def frame_def be_bytes_4)
qed

text \<open>
  A response is never matched to the wrong request.  With no assumption on what arrives or on
  the codec: a response that is handed out carries the API key, version and correlation id of the
  oldest outstanding request, which is then the one retired; an error of any kind retires nothing,
  so the desynchronisation cannot spread to the request behind.
\<close>

theorem response_only_for_oldest:
  "(next_response dec_header rhv c = (Inr (Some r), c') \<longrightarrow>
      (\<exists>p. in_flight_queue c = p # in_flight_queue c' \<and> r_api_key r = p_api_key p \<and>
           r_version r = p_version p \<and> r_correlation_id r = p_correlation_id p)) \<and>
   (next_response dec_header rhv c = (Inr None, c') \<longrightarrow> c' = c) \<and>
   (next_response dec_header rhv c = (Inl e, c') \<longrightarrow> in_flight_queue c' = in_flight_queue c)"
proof (intro conjI impI)
  show "\<exists>p. in_flight_queue c = p # in_flight_queue c' \<and> r_api_key r = p_api_key p \<and>
           r_version r = p_version p \<and> r_correlation_id r = p_correlation_id p"
    if "next_response dec_header rhv c = (Inr (Some r), c')"
    using next_response_matches [OF that] by metis
  show "c' = c" if none: "next_response dec_header rhv c = (Inr None, c')"
  proof -
    obtain d where "next_frame (decoder c) = (Inr None, d)" and "c' = c\<lparr>decoder := d\<rparr>"
      using none by (auto simp: next_response_def Let_def
          split: prod.splits sum.splits option.splits list.splits if_splits)
    moreover then have "d = decoder c"
      using next_frame_none_keeps [of "decoder c"] by simp
    ultimately show ?thesis by simp
  qed
  show "in_flight_queue c' = in_flight_queue c" if "next_response dec_header rhv c = (Inl e, c')"
    using next_response_error_keeps [OF that] .
qed

theorem response_only_for_oldest_witness:
  "\<exists>p. in_flight_queue \<lparr>client_id = ''c'', next_correlation_id = 1,
       in_flight_queue = [\<lparr>p_api_key = 0, p_version = 9, p_correlation_id = 1\<rparr>],
       decoder = \<lparr>buf = [0, 0, 0, 4, 0, 0, 0, 1], max_frame = 64\<rparr>\<rparr> = p # [] \<and> p_api_key p = 0"
  using response_only_for_oldest [of dec_header_v0 "\<lambda>_ _. 0"
      "\<lparr>client_id = ''c'', next_correlation_id = 1,
       in_flight_queue = [\<lparr>p_api_key = 0, p_version = 9, p_correlation_id = 1\<rparr>],
       decoder = \<lparr>buf = [0, 0, 0, 4, 0, 0, 0, 1], max_frame = 64\<rparr>\<rparr>"
      "\<lparr>r_api_key = 0, r_version = 9, r_correlation_id = 1, r_body = []\<rparr>"
      "\<lparr>client_id = ''c'', next_correlation_id = 1, in_flight_queue = [],
       decoder = \<lparr>buf = [], max_frame = 64\<rparr>\<rparr>"]
  by (simp add: next_response_def next_frame_def dec_header_v0_def i32_from_be_def)

section \<open>Correlation ids\<close>

text \<open>The life of a connection: \<open>conn_run n c\<close> holds after any operations, \<open>n\<close> of them requests.\<close>

inductive conn_run :: "nat \<Rightarrow> connection \<Rightarrow> bool" where
  start: "conn_run 0 (new_connection cid)"
| sent: "conn_run n c \<Longrightarrow> conn_run (Suc n) (snd (request eh eb c key ver))"
| fed: "conn_run n c \<Longrightarrow> conn_run n (push_bytes c bs)"
| took: "conn_run n c \<Longrightarrow> conn_run n (snd (next_response dec rhv c))"

lemma wrap32_mod_eq: "wrap32 x = wrap32 y \<longleftrightarrow> x mod 4294967296 = y mod 4294967296"
  by (simp add: wrap32_def signed_take_bit_eq_iff_take_bit_eq take_bit_eq_mod)

lemma wrap32_step: "wrap32 (wrap32 x + 1) = wrap32 (x + 1)"
proof -
  have "wrap32 x mod 4294967296 = x mod 4294967296"
    using wrap32_id [OF wrap32_range, of x] wrap32_mod_eq [of "wrap32 x" x] by simp
  then show ?thesis by (metis mod_add_left_eq wrap32_mod_eq)
qed

definition ids_of :: "nat list \<Rightarrow> connection \<Rightarrow> bool" where
  "ids_of ks c \<longleftrightarrow> map p_correlation_id (in_flight_queue c) = map (\<lambda>k. wrap32 (int k)) ks"

lemma conn_run_ids:
  "conn_run n c \<Longrightarrow>
     next_correlation_id c = wrap32 (int n) \<and>
     (\<exists>ks. sorted_wrt (<) ks \<and> set ks \<subseteq> {1..n} \<and> ids_of ks c)"
proof (induction rule: conn_run.induct)
  case (start cid)
  then show ?case
    by (auto simp: new_connection_def ids_of_def wrap32_def intro!: exI [of _ "[]"])
next
  case (sent n c eh eb key ver)
  then obtain ks where ks: "sorted_wrt (<) ks" "set ks \<subseteq> {1..n}" "ids_of ks c"
    and nxt: "next_correlation_id c = wrap32 (int n)" by blast
  let ?c' = "snd (request eh eb c key ver)"
  have nxt': "wrap32 (next_correlation_id c + 1) = wrap32 (int (Suc n))"
    using nxt wrap32_step [of "int n"] by (simp add: add.commute)
  have cid: "next_correlation_id ?c' = wrap32 (int (Suc n))"
    by (simp add: request_def Let_def nxt' split: sum.splits)
  have q: "in_flight_queue ?c' = in_flight_queue c \<or>
      (\<exists>p. in_flight_queue ?c' = in_flight_queue c @ [p] \<and> p_correlation_id p = wrap32 (int (Suc n)))"
    by (auto simp: request_def Let_def nxt' split: sum.splits)
  have "\<exists>ks'. sorted_wrt (<) ks' \<and> set ks' \<subseteq> {1..Suc n} \<and> ids_of ks' ?c'"
    using q
  proof
    assume "in_flight_queue ?c' = in_flight_queue c"
    then show ?thesis using ks by (intro exI [of _ ks]) (auto simp: ids_of_def)
  next
    assume "\<exists>p. in_flight_queue ?c' = in_flight_queue c @ [p] \<and> p_correlation_id p = wrap32 (int (Suc n))"
    then show ?thesis
      using ks by (intro exI [of _ "ks @ [Suc n]"]) (auto simp: ids_of_def sorted_wrt_append)
  qed
  with cid show ?case by blast
next
  case (fed n c bs)
  then show ?case by (simp add: push_bytes_def ids_of_def)
next
  case (took n c dec rhv)
  then obtain ks where ks: "sorted_wrt (<) ks" "set ks \<subseteq> {1..n}" "ids_of ks c"
    and nxt: "next_correlation_id c = wrap32 (int n)" by blast
  let ?c' = "snd (next_response dec rhv c)"
  have "next_correlation_id ?c' = next_correlation_id c \<and>
      (in_flight_queue ?c' = in_flight_queue c \<or> in_flight_queue ?c' = tl (in_flight_queue c))"
    by (auto simp: next_response_def Let_def split: prod.splits sum.splits option.splits list.splits)
  moreover have "sorted_wrt (<) (tl ks)" "set (tl ks) \<subseteq> {1..n}"
    using ks(1,2) by (cases ks; auto)+
  moreover have "ids_of (tl ks) (c\<lparr>in_flight_queue := tl (in_flight_queue c)\<rparr>)"
    using ks(3) by (simp add: ids_of_def map_tl)
  ultimately show ?case
    using nxt ks by (auto simp: ids_of_def)
qed

text \<open>
  Correlation ids are usable as a check.  Over the life of a connection that has issued fewer
  than 2^32 requests, wrap-around of the 32-bit counter included, the ids of the outstanding
  requests are pairwise distinct.
\<close>

theorem outstanding_ids_distinct:
  assumes "conn_run n c" and "n < 4294967296"
  shows "distinct (map p_correlation_id (in_flight_queue c))"
proof -
  from conn_run_ids [OF assms(1)] obtain ks where ks: "sorted_wrt (<) ks" "set ks \<subseteq> {1..n}" "ids_of ks c"
    by blast
  have "inj_on (\<lambda>k. wrap32 (int k)) (set ks)"
  proof (rule inj_onI)
    fix i j assume "i \<in> set ks" "j \<in> set ks" "wrap32 (int i) = wrap32 (int j)"
    moreover then have "i < 4294967296" "j < 4294967296" using ks(2) assms(2) by auto
    ultimately show "i = j" by (simp add: wrap32_mod_eq)
  qed
  moreover have "distinct ks" using ks(1) by (simp add: strict_sorted_iff)
  ultimately show ?thesis using ks(3) by (simp add: ids_of_def distinct_map)
qed

theorem outstanding_ids_distinct_witness:
  "distinct (map p_correlation_id (in_flight_queue
     (snd (request (\<lambda>_. Inr []) (\<lambda>_. Inr []) (snd (request (\<lambda>_. Inr []) (\<lambda>_. Inr [])
        (new_connection ''c'') 18 3)) 3 12))))"
  using outstanding_ids_distinct [OF conn_run.sent [OF conn_run.sent [OF conn_run.start]]]
  by simp

text \<open>
  a request too large to frame is not sent but stays outstanding.  When the encoded request
  exceeds the largest frame, \<open>request\<close> reports the failure after it has recorded the request, so
  the connection waits for an answer to bytes that were never written.
\<close>

theorem oversized_request_left_outstanding:
  assumes "enc_header \<lparr>request_api_key = key, request_api_version = ver,
      correlation_id = wrap32 (next_correlation_id c + 1), header_client_id = Some (client_id c)\<rparr> = Inr h"
    and "enc_body ver = Inr b" and "i32_max < int (length (h @ b))"
  shows "fst (request enc_header enc_body c key ver) = Inl (FrameTooLarge (length (h @ b)) (nat i32_max)) \<and>
     in_flight (snd (request enc_header enc_body c key ver)) = Suc (in_flight c)"
  using assms by (auto simp: request_def Let_def frame_def in_flight_def)

theorem oversized_request_left_outstanding_witness:
  "in_flight (snd (request (\<lambda>_. Inr []) (\<lambda>_. Inr (replicate 2147483648 0)) (new_connection ''c'') 0 9)) = 1"
  using oversized_request_left_outstanding [of "\<lambda>_. Inr []" 0 9 "new_connection ''c''" "[]"
      "\<lambda>_. Inr (replicate 2147483648 0)" "replicate 2147483648 0"]
  by (simp add: in_flight_def new_connection_def)

end
