(* ===== verification/Sasl.thy ===== *)
theory Sasl
  imports Prelude
begin

text \<open>
  SASL authentication, \<^verbatim>\<open>barnabas-client/src/sasl.rs\<close>: the PLAIN message and the SCRAM exchange of
  RFC 5802.  A \<^verbatim>\<open>str\<close> is the string of its UTF-8 bytes.  The hash functions are the \<^verbatim>\<open>hmac\<close> and
  \<^verbatim>\<open>sha2\<close> crates and a parameter (\<open>crypto\<close>), and so is the text of a UTF-8 error.

  Shown: base64 decoding inverts encoding; an escaped user name cannot inject a field; a server
  that knows the password and the client accept each other; and \<open>verify\<close> accepts only the
  signature of a peer that derived it from the password and this very exchange.
\<close>

unbundle bit_operations_syntax

section \<open>Mechanisms and credentials\<close>

datatype sasl_mechanism = Plain | ScramSha256 | ScramSha512

fun mechanism_name :: "sasl_mechanism \<Rightarrow> string" where
  "mechanism_name Plain = ''PLAIN''"
| "mechanism_name ScramSha256 = ''SCRAM-SHA-256''"
| "mechanism_name ScramSha512 = ''SCRAM-SHA-512''"

definition requires_encryption :: "sasl_mechanism \<Rightarrow> bool" where
  "requires_encryption mech \<longleftrightarrow> mech = Plain"

record credentials =
  mechanism :: sasl_mechanism
  username :: string
  password :: string

definition plain_credentials :: "string \<Rightarrow> string \<Rightarrow> credentials" where
  "plain_credentials u p = \<lparr>mechanism = Plain, username = u, password = p\<rparr>"

definition scram_sha256 :: "string \<Rightarrow> string \<Rightarrow> credentials" where
  "scram_sha256 u p = \<lparr>mechanism = ScramSha256, username = u, password = p\<rparr>"

definition scram_sha512 :: "string \<Rightarrow> string \<Rightarrow> credentials" where
  "scram_sha512 u p = \<lparr>mechanism = ScramSha512, username = u, password = p\<rparr>"

datatype sasl_error = Rejected | Malformed string | ServerSignature

section \<open>Text and bytes\<close>

definition as_bytes :: "string \<Rightarrow> bytes" where
  "as_bytes s = map (\<lambda>c. word_of_nat (of_char c)) s"

definition text_of :: "bytes \<Rightarrow> string" where
  "text_of bs = map (\<lambda>b. char_of (unat b)) bs"

lemma text_of_as_bytes [simp]: "text_of (as_bytes s) = s"
  by (induction s) (simp_all add: text_of_def as_bytes_def unat_of_nat)

lemma as_bytes_append [simp]: "as_bytes (s @ t) = as_bytes s @ as_bytes t"
  by (simp add: as_bytes_def)

lemma text_of_append [simp]: "text_of (s @ t) = text_of s @ text_of t"
  by (simp add: text_of_def)

lemma length_as_bytes [simp]: "length (as_bytes s) = length s"
  by (simp add: as_bytes_def)

text \<open>\<^verbatim>\<open>std::str::from_utf8\<close>: the well-formed byte sequences of the Unicode standard.\<close>

definition cont :: "u8 \<Rightarrow> bool" where
  "cont b \<longleftrightarrow> 0x80 \<le> b \<and> b \<le> 0xBF"

fun utf8_valid :: "bytes \<Rightarrow> bool" where
  "utf8_valid [] = True"
| "utf8_valid (a # bs) =
     (if a \<le> 0x7F then utf8_valid bs
      else if 0xC2 \<le> a \<and> a \<le> 0xDF
      then (case bs of b # r \<Rightarrow> cont b \<and> utf8_valid r | _ \<Rightarrow> False)
      else if 0xE0 \<le> a \<and> a \<le> 0xEF
      then (case bs of
              b # c # r \<Rightarrow>
                (if a = 0xE0 then 0xA0 \<le> b \<and> b \<le> 0xBF else if a = 0xED then 0x80 \<le> b \<and> b \<le> 0x9F else cont b) \<and>
                cont c \<and> utf8_valid r
            | _ \<Rightarrow> False)
      else if 0xF0 \<le> a \<and> a \<le> 0xF4
      then (case bs of
              b # c # d # r \<Rightarrow>
                (if a = 0xF0 then 0x90 \<le> b \<and> b \<le> 0xBF else if a = 0xF4 then 0x80 \<le> b \<and> b \<le> 0x8F else cont b) \<and>
                cont c \<and> cont d \<and> utf8_valid r
            | _ \<Rightarrow> False)
      else False)"

text \<open>\<^verbatim>\<open>split(',')\<close> and \<^verbatim>\<open>strip_prefix\<close>.\<close>

fun split_on :: "char \<Rightarrow> string \<Rightarrow> string list" where
  "split_on c [] = [[]]"
| "split_on c (x # xs) =
     (if x = c then [] # split_on c xs
      else case split_on c xs of [] \<Rightarrow> [[x]] | p # ps \<Rightarrow> (x # p) # ps)"

definition strip_prefix :: "string \<Rightarrow> string \<Rightarrow> string option" where
  "strip_prefix p s = (if take (length p) s = p then Some (drop (length p) s) else None)"

fun find_map :: "('a \<Rightarrow> 'b option) \<Rightarrow> 'a list \<Rightarrow> 'b option" where
  "find_map f [] = None"
| "find_map f (x # xs) = (case f x of None \<Rightarrow> find_map f xs | Some y \<Rightarrow> Some y)"

definition field :: "string \<Rightarrow> char \<Rightarrow> string option" where
  "field message key = find_map (strip_prefix [key, CHR ''='']) (split_on CHR '','' message)"

text \<open>\<^verbatim>\<open>str::parse::<u32>\<close>: an optional plus sign, digits, no overflow.\<close>

definition is_digit :: "char \<Rightarrow> bool" where
  "is_digit c \<longleftrightarrow> c \<in> set ''0123456789''"

definition digits_value :: "string \<Rightarrow> nat" where
  "digits_value s = foldl (\<lambda>n c. n * 10 + (of_char c - 48)) 0 s"

definition parse_u32 :: "string \<Rightarrow> u32 option" where
  "parse_u32 s =
     (let ds = (if s \<noteq> [] \<and> hd s = CHR ''+'' then tl s else s)
      in if ds \<noteq> [] \<and> list_all is_digit ds \<and> digits_value ds < 2 ^ 32
         then Some (of_nat (digits_value ds)) else None)"

text \<open>\<^verbatim>\<open>str::replace\<close> with a one-character pattern.\<close>

definition replace_char :: "char \<Rightarrow> string \<Rightarrow> string \<Rightarrow> string" where
  "replace_char c t s = concat (map (\<lambda>x. if x = c then t else [x]) s)"

definition saslprep :: "string \<Rightarrow> string" where
  "saslprep u = replace_char CHR '','' ''=2C'' (replace_char CHR ''='' ''=3D'' u)"

section \<open>Base64\<close>

definition B64 :: string where
  "B64 = ''ABCDEFGHIJKLMNOPQRSTUVWXYZabcdefghijklmnopqrstuvwxyz0123456789+/''"

definition sextet :: "u32 \<Rightarrow> nat \<Rightarrow> char" where
  "sextet n k = B64 ! unat (drop_bit k n AND 63)"

definition encode_chunk :: "u8 \<Rightarrow> u8 option \<Rightarrow> u8 option \<Rightarrow> string" where
  "encode_chunk a b c =
     (let n = push_bit 16 (ucast a) OR push_bit 8 (ucast (case b of None \<Rightarrow> 0 | Some x \<Rightarrow> x)) OR
              ucast (case c of None \<Rightarrow> 0 | Some x \<Rightarrow> x) :: u32
      in [sextet n 18, sextet n 12,
          if b \<noteq> None then sextet n 6 else CHR ''='',
          if c \<noteq> None then sextet n 0 else CHR ''=''])"

fun base64_encode :: "bytes \<Rightarrow> string" where
  "base64_encode [] = []"
| "base64_encode [a] = encode_chunk a None None"
| "base64_encode [a, b] = encode_chunk a (Some b) None"
| "base64_encode (a # b # c # rest) = encode_chunk a (Some b) (Some c) @ base64_encode rest"

definition position :: "char \<Rightarrow> nat option" where
  "position c = (let n = length (takeWhile (\<lambda>x. x \<noteq> c) B64) in if n < length B64 then Some n else None)"

fun base64_loop :: "string \<Rightarrow> u32 \<Rightarrow> nat \<Rightarrow> bytes \<Rightarrow> bytes option" where
  "base64_loop [] bits count out = Some out"
| "base64_loop (ch # rest) bits count out =
     (if ch = CHR ''='' then Some out
      else case position ch of
             None \<Rightarrow> None
           | Some v \<Rightarrow>
               (let bits' = push_bit 6 bits OR of_nat v; count' = count + 6
                in if 8 \<le> count' then base64_loop rest bits' (count' - 8) (out @ [ucast (drop_bit (count' - 8) bits')])
                   else base64_loop rest bits' count' out))"

definition base64_decode :: "string \<Rightarrow> bytes option" where
  "base64_decode t = base64_loop t 0 0 []"

section \<open>SCRAM\<close>

record crypto =
  hmac_sha256 :: "bytes \<Rightarrow> bytes \<Rightarrow> bytes"
  hmac_sha512 :: "bytes \<Rightarrow> bytes \<Rightarrow> bytes"
  digest_sha256 :: "bytes \<Rightarrow> bytes"
  digest_sha512 :: "bytes \<Rightarrow> bytes"
  utf8_error :: "bytes \<Rightarrow> string"

definition hmac :: "crypto \<Rightarrow> sasl_mechanism \<Rightarrow> bytes \<Rightarrow> bytes \<Rightarrow> bytes" where
  "hmac cr mech key data = (case mech of ScramSha512 \<Rightarrow> hmac_sha512 cr key data | _ \<Rightarrow> hmac_sha256 cr key data)"

definition hash_of :: "crypto \<Rightarrow> sasl_mechanism \<Rightarrow> bytes \<Rightarrow> bytes" where
  "hash_of cr mech data = (case mech of ScramSha512 \<Rightarrow> digest_sha512 cr data | _ \<Rightarrow> digest_sha256 cr data)"

text \<open>\<^verbatim>\<open>iter_mut().zip(..)\<close> changes only as many bytes as both have; \<^verbatim>\<open>zip(..).collect()\<close> keeps only those.\<close>

definition xor_into :: "bytes \<Rightarrow> bytes \<Rightarrow> bytes" where
  "xor_into out bs = map2 (XOR) out bs @ drop (length bs) out"

definition xor_bytes :: "bytes \<Rightarrow> bytes \<Rightarrow> bytes" where
  "xor_bytes xs ys = map2 (XOR) xs ys"

fun hi_loop :: "(bytes \<Rightarrow> bytes) \<Rightarrow> nat \<Rightarrow> bytes \<Rightarrow> bytes \<Rightarrow> bytes" where
  "hi_loop f 0 previous salted = salted"
| "hi_loop f (Suc n) previous salted = (let p = f previous in hi_loop f n p (xor_into salted p))"

definition hi :: "crypto \<Rightarrow> sasl_mechanism \<Rightarrow> bytes \<Rightarrow> bytes \<Rightarrow> u32 \<Rightarrow> bytes" where
  "hi cr mech pw salt iterations =
     (let previous = hmac cr mech pw (salt @ be_bytes 4 1)
      in hi_loop (hmac cr mech pw) (unat iterations - 1) previous previous)"

definition plain_message :: "credentials \<Rightarrow> bytes" where
  "plain_message c = [0] @ as_bytes (username c) @ [0] @ as_bytes (password c)"

record scram_exchange =
  sx_mechanism :: sasl_mechanism
  sx_password :: string
  sx_client_nonce :: string
  sx_client_first_bare :: string
  sx_server_signature :: bytes

definition scram_start :: "credentials \<Rightarrow> string \<Rightarrow> scram_exchange \<times> bytes" where
  "scram_start c nonce =
     (let bare = ''n='' @ saslprep (username c) @ '',r='' @ nonce
      in (\<lparr>sx_mechanism = mechanism c, sx_password = password c, sx_client_nonce = nonce,
           sx_client_first_bare = bare, sx_server_signature = []\<rparr>,
          as_bytes (''n,,'' @ bare)))"

definition client_final :: "crypto \<Rightarrow> scram_exchange \<Rightarrow> bytes \<Rightarrow> (sasl_error + bytes) \<times> scram_exchange" where
  "client_final cr sx server_first =
     (if \<not> utf8_valid server_first then (Inl (Malformed (utf8_error cr server_first)), sx)
      else let t = text_of server_first; bad = (Inl (Malformed t), sx)
      in case field t CHR ''r'' of None \<Rightarrow> bad | Some nonce \<Rightarrow>
         (case field t CHR ''s'' of None \<Rightarrow> bad | Some salt_b64 \<Rightarrow>
         (case field t CHR ''i'' of None \<Rightarrow> bad | Some it \<Rightarrow>
         (case parse_u32 it of None \<Rightarrow> bad | Some iterations \<Rightarrow>
           if take (length (sx_client_nonce sx)) nonce \<noteq> sx_client_nonce sx
           then (Inl (Malformed (''server nonce '' @ nonce @ '' does not extend the client nonce'')), sx)
           else case base64_decode salt_b64 of None \<Rightarrow> bad | Some salt \<Rightarrow>
             (let mech = sx_mechanism sx;
                  salted = hi cr mech (as_bytes (sx_password sx)) salt iterations;
                  client_key = hmac cr mech salted (as_bytes ''Client Key'');
                  stored_key = hash_of cr mech client_key;
                  final_without_proof = ''c=biws,r='' @ nonce;
                  auth_message = sx_client_first_bare sx @ '','' @ t @ '','' @ final_without_proof;
                  client_signature = hmac cr mech stored_key (as_bytes auth_message);
                  proof = xor_bytes client_key client_signature;
                  server_key = hmac cr mech salted (as_bytes ''Server Key'')
              in (Inr (as_bytes (final_without_proof @ '',p='' @ base64_encode proof)),
                  sx\<lparr>sx_server_signature := hmac cr mech server_key (as_bytes auth_message)\<rparr>))))))"

definition verify :: "crypto \<Rightarrow> scram_exchange \<Rightarrow> bytes \<Rightarrow> sasl_error + unit" where
  "verify cr sx server_final =
     (if \<not> utf8_valid server_final then Inl (Malformed (utf8_error cr server_final))
      else let t = text_of server_final
      in case field t CHR ''e'' of
           Some err \<Rightarrow> Inl (Malformed err)
         | None \<Rightarrow>
             (case field t CHR ''v'' of
                None \<Rightarrow> Inl (Malformed t)
              | Some verifier \<Rightarrow>
                  if verifier = base64_encode (sx_server_signature sx) then Inr () else Inl ServerSignature))"


section \<open>Base64 round trip\<close>

lemma position_B64: "i < 64 \<Longrightarrow> position (B64 ! i) = Some i"
proof -
  have "list_all (\<lambda>i. position (B64 ! i) = Some i) [0..<64]" by code_simp
  then show "i < 64 \<Longrightarrow> position (B64 ! i) = Some i" by (simp add: list_all_iff)
qed

lemma B64_no_pad: "i < 64 \<Longrightarrow> B64 ! i \<noteq> CHR ''=''"
proof -
  have "list_all (\<lambda>i. B64 ! i \<noteq> CHR ''='') [0..<64]" by code_simp
  then show "i < 64 \<Longrightarrow> B64 ! i \<noteq> CHR ''=''" by (simp add: list_all_iff)
qed

lemma sextet_bound: "unat (x AND 63 :: u32) < 64"
proof -
  have "x AND 63 \<le> 63" by (rule word_and_le1)
  then show ?thesis by (simp add: word_le_nat_alt)
qed

definition six :: "u32 \<Rightarrow> nat \<Rightarrow> u32" where
  "six n k = drop_bit k n AND 63"

definition shift_in :: "u32 \<Rightarrow> u32 \<Rightarrow> u32" where
  "shift_in bits v = push_bit 6 bits OR v"

definition byte_at :: "nat \<Rightarrow> u32 \<Rightarrow> u8" where
  "byte_at k w = ucast (drop_bit k w)"

lemma loop_sextet:
  "base64_loop (sextet n k # rest) bits count out =
     (let bits' = shift_in bits (six n k); count' = count + 6
      in if 8 \<le> count' then base64_loop rest bits' (count' - 8) (out @ [byte_at (count' - 8) bits'])
         else base64_loop rest bits' count' out)"
  by (simp add: sextet_def position_B64 [OF sextet_bound] B64_no_pad [OF sextet_bound] Let_def six_def shift_in_def byte_at_def)

lemma loop_pad: "base64_loop (CHR ''='' # rest) bits count out = Some out"
  by simp

lemma less_8_cases:
  assumes "(i::nat) < 8"
  obtains "i = 0" | "i = 1" | "i = 2" | "i = 3" | "i = 4" | "i = 5" | "i = 6" | "i = 7"
  using assms by force

lemma mask_63: "(63 :: u32) = mask 6"
  by (simp add: mask_eq_exp_minus_1)

lemma byte_eqI: "(\<And>i. i < 8 \<Longrightarrow> bit a i = bit b i) \<Longrightarrow> a = (b :: u8)"
  by (rule bit_word_eqI) simp

lemma byte_bit_high [simp]: "8 \<le> n \<Longrightarrow> \<not> bit (x :: u8) n"
  using bit_imp_le_length [of x n] by auto

lemma chunk_bytes:
  fixes a b c :: u8
  assumes n: "n = push_bit 16 (ucast a) OR push_bit 8 (ucast b) OR ucast c"
  shows "byte_at 4 (shift_in (shift_in bits (six n 18)) (six n 12)) = a" (is "?x = _")
    and "byte_at 2 (shift_in (shift_in (shift_in bits (six n 18)) (six n 12)) (six n 6)) = b" (is "?y = _")
    and "byte_at 0 (shift_in (shift_in (shift_in (shift_in bits (six n 18)) (six n 12)) (six n 6)) (six n 0)) = c" (is "?z = _")
proof -
  show "?x = a"
  proof (rule byte_eqI)
    show "bit ?x i = bit a i" if "i < 8" for i
      using that by (cases i rule: less_8_cases) (simp_all add: n byte_at_def shift_in_def six_def mask_63 bit_simps)
  qed
  show "?y = b"
  proof (rule byte_eqI)
    show "bit ?y i = bit b i" if "i < 8" for i
      using that by (cases i rule: less_8_cases) (simp_all add: n byte_at_def shift_in_def six_def mask_63 bit_simps)
  qed
  show "?z = c"
  proof (rule byte_eqI)
    show "bit ?z i = bit c i" if "i < 8" for i
      using that by (cases i rule: less_8_cases) (simp_all add: n byte_at_def shift_in_def six_def mask_63 bit_simps)
  qed
qed

lemma loop_chunk:
  "base64_loop (encode_chunk a None None) bits 0 out = Some (out @ [a])"
  "base64_loop (encode_chunk a (Some b) None) bits 0 out = Some (out @ [a, b])"
  "\<exists>bits'. base64_loop (encode_chunk a (Some b) (Some c) @ rest) bits 0 out = base64_loop rest bits' 0 (out @ [a, b, c])"
proof -
  define n where "n b c = (push_bit 16 (ucast a) OR push_bit 8 (ucast b) OR ucast c :: u32)" for b c :: u8
  have e: "encode_chunk a (Some b) (Some c) = [sextet (n b c) 18, sextet (n b c) 12, sextet (n b c) 6, sextet (n b c) 0]"
    "encode_chunk a (Some b) None = [sextet (n b 0) 18, sextet (n b 0) 12, sextet (n b 0) 6, CHR ''='']"
    "encode_chunk a None None = [sextet (n 0 0) 18, sextet (n 0 0) 12, CHR ''='', CHR ''='']" for b c
    by (simp_all add: encode_chunk_def n_def Let_def)
  note step = e loop_sextet loop_pad Let_def chunk_bytes [OF n_def]
  show "base64_loop (encode_chunk a None None) bits 0 out = Some (out @ [a])"
    by (simp add: step del: base64_loop.simps(2))
  show "base64_loop (encode_chunk a (Some b) None) bits 0 out = Some (out @ [a, b])"
    by (simp add: step del: base64_loop.simps(2))
  show "\<exists>bits'. base64_loop (encode_chunk a (Some b) (Some c) @ rest) bits 0 out = base64_loop rest bits' 0 (out @ [a, b, c])"
    by (simp add: step del: base64_loop.simps(2)) blast
qed

lemma base64_loop_encode: "base64_loop (base64_encode d) bits 0 out = Some (out @ d)"
proof (induction d arbitrary: bits out rule: base64_encode.induct)
  case (4 a b c rest)
  obtain bits' where "base64_loop (encode_chunk a (Some b) (Some c) @ base64_encode rest) bits 0 out =
      base64_loop (base64_encode rest) bits' 0 (out @ [a, b, c])" using loop_chunk(3) by blast
  then show ?case using 4 by simp
qed (simp_all add: loop_chunk)

text \<open>
  Base64 is lossless.  Decoding what was encoded gives the bytes back, at every length, the padded ones
  included.
\<close>
theorem base64_roundtrip: "base64_decode (base64_encode data) = Some data"
  by (simp add: base64_decode_def base64_loop_encode)


section \<open>Fields\<close>

lemma split_on_none: "c \<notin> set s \<Longrightarrow> split_on c s = [s]"
  by (induction s) auto

lemma split_on_append: "c \<notin> set s \<Longrightarrow> split_on c (s @ c # t) = s # split_on c t"
  by (induction s) (auto split: list.splits)

lemma set_replace: "set (replace_char c t s) \<subseteq> set s - {c} \<union> set t"
  by (auto simp: replace_char_def split: if_splits)

lemma saslprep_no_comma: "CHR '','' \<notin> set (saslprep u)"
  using set_replace [of "CHR '',''" "''=2C''"] by (auto simp: saslprep_def)

text \<open>How the server reads a name back.\<close>

fun unescape :: "string \<Rightarrow> string" where
  "unescape [] = []"
| "unescape (c # s) =
     (if c = CHR ''='' \<and> take 2 s = ''2C'' then CHR '','' # unescape (drop 2 s)
      else if c = CHR ''='' \<and> take 2 s = ''3D'' then CHR ''='' # unescape (drop 2 s)
      else c # unescape s)"

lemma saslprep_Cons:
  "saslprep (c # u) = (if c = CHR '','' then ''=2C'' else if c = CHR ''='' then ''=3D'' else [c]) @ saslprep u"
  by (simp add: saslprep_def replace_char_def)

lemma unescape_saslprep: "unescape (saslprep u) = u"
proof (induction u)
  case Nil
  then show ?case by (simp add: saslprep_def replace_char_def)
next
  case (Cons c u)
  then show ?case by (simp add: saslprep_Cons)
qed

lemma field_simps:
  "field s k = find_map (strip_prefix [k, CHR ''='']) (split_on CHR '','' s)"
  "strip_prefix [k, CHR ''=''] (k # CHR ''='' # v) = Some v"
  "k \<noteq> k' \<Longrightarrow> strip_prefix [k, CHR ''=''] (k' # v) = None"
  "strip_prefix [k, CHR ''=''] [] = None" "strip_prefix [k, CHR ''=''] [x] = None"
  by (simp_all add: field_def strip_prefix_def)

text \<open>
  A user name cannot inject a field.  Whatever characters the user name has, the client's first
  message reads back as exactly its fields: the name, which unescapes to the user name, and the nonce, provided the nonce
  itself has no comma.
\<close>
theorem client_first_fields:
  assumes "CHR '','' \<notin> set nonce"
  shows "let msg = text_of (snd (scram_start c nonce))
         in split_on CHR '','' msg = [''n'', [], ''n='' @ saslprep (username c), ''r='' @ nonce] \<and>
            field msg CHR ''n'' = Some (saslprep (username c)) \<and> unescape (saslprep (username c)) = username c \<and>
            field msg CHR ''r'' = Some nonce"
proof -
  let ?name = "''n='' @ saslprep (username c)"
  let ?msg = "''n'' @ CHR '','' # [] @ CHR '','' # ?name @ CHR '','' # ''r='' @ nonce"
  have name: "CHR '','' \<notin> set ?name" using saslprep_no_comma by simp
  have rest: "CHR '','' \<notin> set (''r='' @ nonce)" using assms by simp
  have n: "CHR '','' \<notin> set ''n''" "CHR '','' \<notin> set []" by simp_all
  have sp: "split_on CHR '','' ?msg = [''n'', [], ?name, ''r='' @ nonce]"
    unfolding split_on_append [OF n(1)] split_on_append [OF n(2)] split_on_append [OF name] split_on_none [OF rest] ..
  moreover have "text_of (snd (scram_start c nonce)) = ?msg" by (simp add: scram_start_def Let_def)
  ultimately show ?thesis
    by (simp add: Let_def unescape_saslprep field_simps del: append_Cons append.simps) (simp add: field_simps)
qed

theorem client_first_fields_witness:
  "field (text_of (snd (scram_start (scram_sha256 ''a,r=b'' ''pw'') ''abc''))) CHR ''r'' = Some ''abc''"
  using client_first_fields [of "''abc''" "scram_sha256 ''a,r=b'' ''pw''"] by (simp add: Let_def)

section \<open>Mutual authentication\<close>

text \<open>The message both sides sign, and what a server that registered the password keeps and checks (RFC 5802).\<close>

definition auth_message :: "string \<Rightarrow> bytes \<Rightarrow> string \<Rightarrow> bytes" where
  "auth_message bare server_first nonce = as_bytes (bare @ '','' @ text_of server_first @ '','' @ ''c=biws,r='' @ nonce)"

definition server_key :: "crypto \<Rightarrow> sasl_mechanism \<Rightarrow> string \<Rightarrow> bytes \<Rightarrow> u32 \<Rightarrow> bytes" where
  "server_key cr mech pw salt it = hmac cr mech (hi cr mech (as_bytes pw) salt it) (as_bytes ''Server Key'')"

definition stored_key :: "crypto \<Rightarrow> sasl_mechanism \<Rightarrow> string \<Rightarrow> bytes \<Rightarrow> u32 \<Rightarrow> bytes" where
  "stored_key cr mech pw salt it =
     hash_of cr mech (hmac cr mech (hi cr mech (as_bytes pw) salt it) (as_bytes ''Client Key''))"

definition server_first_message :: "string \<Rightarrow> bytes \<Rightarrow> nat \<Rightarrow> bytes" where
  "server_first_message nonce salt it = as_bytes (''r='' @ nonce @ '',s='' @ base64_encode salt @ '',i='' @ show_nat it)"

definition server_accepts :: "crypto \<Rightarrow> sasl_mechanism \<Rightarrow> bytes \<Rightarrow> string \<Rightarrow> bytes \<Rightarrow> string \<Rightarrow> bytes \<Rightarrow> bool" where
  "server_accepts cr mech stored bare server_first nonce msg \<longleftrightarrow>
     field (text_of msg) CHR ''r'' = Some nonce \<and>
     (case field (text_of msg) CHR ''p'' of
        None \<Rightarrow> False
      | Some p \<Rightarrow>
          (case base64_decode p of
             None \<Rightarrow> False
           | Some proof \<Rightarrow>
               hash_of cr mech (xor_bytes proof (hmac cr mech stored (auth_message bare server_first nonce))) = stored))"

lemma client_final_Inr:
  assumes "client_final cr sx sf = (Inr msg, sx')"
  obtains suffix salt_b64 salt it iterations where
    "utf8_valid sf" "field (text_of sf) CHR ''r'' = Some (sx_client_nonce sx @ suffix)"
    "field (text_of sf) CHR ''s'' = Some salt_b64" "base64_decode salt_b64 = Some salt"
    "field (text_of sf) CHR ''i'' = Some it" "parse_u32 it = Some iterations"
    "sx_server_signature sx' = hmac cr (sx_mechanism sx)
       (server_key cr (sx_mechanism sx) (sx_password sx) salt iterations)
       (auth_message (sx_client_first_bare sx) sf (sx_client_nonce sx @ suffix))"
proof -
  obtain nonce salt_b64 it iterations salt where f: "utf8_valid sf" "field (text_of sf) CHR ''r'' = Some nonce"
      "field (text_of sf) CHR ''s'' = Some salt_b64" "field (text_of sf) CHR ''i'' = Some it" "parse_u32 it = Some iterations"
      "take (length (sx_client_nonce sx)) nonce = sx_client_nonce sx" "base64_decode salt_b64 = Some salt"
    using assms unfolding client_final_def Let_def
    by (simp split: if_splits option.splits)
  then have "sx_server_signature sx' = hmac cr (sx_mechanism sx)
       (server_key cr (sx_mechanism sx) (sx_password sx) salt iterations)
       (auth_message (sx_client_first_bare sx) sf nonce)"
    using assms by (auto simp: client_final_def Let_def server_key_def auth_message_def)
  moreover have "nonce = sx_client_nonce sx @ drop (length (sx_client_nonce sx)) nonce"
    using f(6) append_take_drop_id by metis
  ultimately show ?thesis using f that by metis
qed

lemma verify_Inr: "verify cr sx fin = Inr () \<longleftrightarrow>
    utf8_valid fin \<and> field (text_of fin) CHR ''e'' = None \<and>
    field (text_of fin) CHR ''v'' = Some (base64_encode (sx_server_signature sx))"
  by (auto simp: verify_def Let_def split: option.splits)

text \<open>
  C20: the client accepts only a peer that knows the password.  When the exchange completes, the server's nonce extended
  the client's own, and its final message carries exactly the signature of this exchange's messages
  under the server key derived from the password with the salt and the iteration count it named.
\<close>
theorem scram_accepts_only_the_password:
  assumes "client_final cr sx server_first = (Inr msg, sx')" and "verify cr sx' server_final = Inr ()"
  shows "\<exists>suffix salt_b64 salt it iterations v.
    field (text_of server_first) CHR ''r'' = Some (sx_client_nonce sx @ suffix) \<and>
    field (text_of server_first) CHR ''s'' = Some salt_b64 \<and> base64_decode salt_b64 = Some salt \<and>
    field (text_of server_first) CHR ''i'' = Some it \<and> parse_u32 it = Some iterations \<and>
    field (text_of server_final) CHR ''v'' = Some v \<and>
    base64_decode v = Some (hmac cr (sx_mechanism sx)
       (server_key cr (sx_mechanism sx) (sx_password sx) salt iterations)
       (auth_message (sx_client_first_bare sx) server_first (sx_client_nonce sx @ suffix)))"
  using client_final_Inr [OF assms(1)] assms(2) unfolding verify_Inr by (metis base64_decode_def base64_loop_encode self_append_conv2)

lemma utf8_ascii: "list_all (\<lambda>b. b \<le> 0x7F) bs \<Longrightarrow> utf8_valid bs"
  by (induction bs) auto

definition ascii :: "string \<Rightarrow> bool" where
  "ascii s \<longleftrightarrow> (\<forall>c\<in>set s. of_char c < (128 :: nat))"

lemma utf8_ascii_text: "ascii s \<Longrightarrow> utf8_valid (as_bytes s)"
  by (rule utf8_ascii) (auto simp: ascii_def as_bytes_def list_all_iff word_le_nat_alt unat_of_nat)

lemma sextet_in: "sextet n k \<in> set B64"
  unfolding sextet_def by (rule nth_mem) (use sextet_bound [of "drop_bit k n"] in \<open>simp add: B64_def\<close>)

lemma set_chunk: "set (encode_chunk a b c) \<subseteq> insert CHR ''='' (set B64)"
  by (simp add: encode_chunk_def Let_def sextet_in)

lemma set_base64: "set (base64_encode d) \<subseteq> insert CHR ''='' (set B64)"
proof (induction d rule: base64_encode.induct)
  case (4 a b c rest)
  then show ?case unfolding base64_encode.simps set_append by (intro Un_least set_chunk)
qed (simp, unfold base64_encode.simps, (rule set_chunk)+)

lemma base64_clean: "CHR '','' \<notin> set (base64_encode d)" "ascii (base64_encode d)"
proof -
  have "list_all (\<lambda>c. c \<noteq> CHR '','' \<and> of_char c < (128 :: nat)) (CHR ''='' # B64)" by code_simp
  then have "\<forall>c\<in>insert CHR ''='' (set B64). c \<noteq> CHR '','' \<and> of_char c < (128 :: nat)"
    unfolding list_all_iff list.set .
  then show "CHR '','' \<notin> set (base64_encode d)" "ascii (base64_encode d)"
    using set_base64 [of d] unfolding ascii_def by blast+
qed

lemma digit_char_digit: "d < 10 \<Longrightarrow> is_digit (digit_char d) \<and> of_char (digit_char d) = (48 + d :: nat)"
proof -
  have "list_all (\<lambda>d. is_digit (digit_char d) \<and> of_char (digit_char d) = (48 + d :: nat)) [0..<10]" by code_simp
  then show "d < 10 \<Longrightarrow> is_digit (digit_char d) \<and> of_char (digit_char d) = (48 + d :: nat)" by (simp add: list_all_iff)
qed

lemma show_nat_digits: "show_nat n \<noteq> [] \<and> list_all is_digit (show_nat n) \<and> digits_value (show_nat n) = n"
  unfolding show_nat_def
proof (induction "10::nat" n rule: show_base.induct)
  case (1 n)
  show ?case
  proof (cases "n < 10")
    case True
    then show ?thesis by (simp add: show_base.simps [of 10 n] digit_char_digit digits_value_def)
  next
    case False
    then have "show_base 10 n = show_base 10 (n div 10) @ [digit_char (n mod 10)]" by (simp add: show_base.simps [of 10 n])
    then show ?thesis using 1 False digit_char_digit [of "n mod 10"] by (simp add: digits_value_def)
  qed
qed

lemma digits_clean: "list_all is_digit s \<Longrightarrow> CHR '','' \<notin> set s \<and> ascii s \<and> (\<forall>r. s \<noteq> CHR ''+'' # r)"
proof -
  have "list_all (\<lambda>c. c \<noteq> CHR '','' \<and> c \<noteq> CHR ''+'' \<and> of_char c < (128 :: nat)) ''0123456789''" by code_simp
  then show "list_all is_digit s \<Longrightarrow> CHR '','' \<notin> set s \<and> ascii s \<and> (\<forall>r. s \<noteq> CHR ''+'' # r)"
    unfolding list_all_iff is_digit_def ascii_def by (metis list.set_intros(1))
qed

lemma parse_show_nat: "n < 2 ^ 32 \<Longrightarrow> parse_u32 (show_nat n) = Some (of_nat n)"
proof -
  assume n: "n < 2 ^ 32"
  have "\<not> (show_nat n \<noteq> [] \<and> hd (show_nat n) = CHR ''+'')"
    using digits_clean [of "show_nat n"] show_nat_digits [of n] by (cases "show_nat n") auto
  then show ?thesis using n show_nat_digits [of n] unfolding parse_u32_def Let_def by simp
qed

lemma xor_bytes_cancel: "length xs = length ys \<Longrightarrow> xor_bytes (xor_bytes xs ys) ys = xs"
  by (induction xs ys rule: list_induct2) (simp_all add: xor_bytes_def xor.assoc)


lemma field_server_first:
  assumes "CHR '','' \<notin> set nonce" and "CHR '','' \<notin> set sa" and "CHR '','' \<notin> set it"
  shows "field (''r='' @ nonce @ '',s='' @ sa @ '',i='' @ it) CHR ''r'' = Some nonce"
    and "field (''r='' @ nonce @ '',s='' @ sa @ '',i='' @ it) CHR ''s'' = Some sa"
    and "field (''r='' @ nonce @ '',s='' @ sa @ '',i='' @ it) CHR ''i'' = Some it"
proof -
  have "''r='' @ nonce @ '',s='' @ sa @ '',i='' @ it =
      (''r='' @ nonce) @ CHR '','' # (''s='' @ sa) @ CHR '','' # ''i='' @ it" by simp
  moreover have c: "CHR '','' \<notin> set (''r='' @ nonce)" "CHR '','' \<notin> set (''s='' @ sa)" "CHR '','' \<notin> set (''i='' @ it)"
    using assms by simp_all
  ultimately have "split_on CHR '','' (''r='' @ nonce @ '',s='' @ sa @ '',i='' @ it) = [''r='' @ nonce, ''s='' @ sa, ''i='' @ it]"
    by (simp only: split_on_append [OF c(1)] split_on_append [OF c(2)] split_on_none [OF c(3)])
  then show "field (''r='' @ nonce @ '',s='' @ sa @ '',i='' @ it) CHR ''r'' = Some nonce"
    and "field (''r='' @ nonce @ '',s='' @ sa @ '',i='' @ it) CHR ''s'' = Some sa"
    and "field (''r='' @ nonce @ '',s='' @ sa @ '',i='' @ it) CHR ''i'' = Some it"
    unfolding field_def by (simp_all add: strip_prefix_def)
qed

lemma field_client_final:
  assumes "CHR '','' \<notin> set nonce" and "CHR '','' \<notin> set pf"
  shows "field (''c=biws,r='' @ nonce @ '',p='' @ pf) CHR ''r'' = Some nonce"
    and "field (''c=biws,r='' @ nonce @ '',p='' @ pf) CHR ''p'' = Some pf"
proof -
  have "''c=biws,r='' @ nonce @ '',p='' @ pf = ''c=biws'' @ CHR '','' # (''r='' @ nonce) @ CHR '','' # ''p='' @ pf" by simp
  moreover have c: "CHR '','' \<notin> set ''c=biws''" "CHR '','' \<notin> set (''r='' @ nonce)" "CHR '','' \<notin> set (''p='' @ pf)"
    using assms by simp_all
  ultimately have "split_on CHR '','' (''c=biws,r='' @ nonce @ '',p='' @ pf) = [''c=biws'', ''r='' @ nonce, ''p='' @ pf]"
    by (simp only: split_on_append [OF c(1)] split_on_append [OF c(2)] split_on_none [OF c(3)])
  then show "field (''c=biws,r='' @ nonce @ '',p='' @ pf) CHR ''r'' = Some nonce"
    and "field (''c=biws,r='' @ nonce @ '',p='' @ pf) CHR ''p'' = Some pf"
    unfolding field_def by (simp_all add: strip_prefix_def)
qed

lemma field_server_final:
  assumes "CHR '','' \<notin> set v"
  shows "field (''v='' @ v) CHR ''e'' = None" and "field (''v='' @ v) CHR ''v'' = Some v"
proof -
  have "split_on CHR '','' (''v='' @ v) = [''v='' @ v]" using assms by (intro split_on_none) simp
  then show "field (''v='' @ v) CHR ''e'' = None" and "field (''v='' @ v) CHR ''v'' = Some v"
    unfolding field_def by (simp_all add: strip_prefix_def)
qed

lemma ascii_simps [simp]: "ascii (s @ t) \<longleftrightarrow> ascii s \<and> ascii t" "ascii []"
  "ascii (c # s) \<longleftrightarrow> of_char c < (128 :: nat) \<and> ascii s"
  by (auto simp: ascii_def)

lemma scram_run:
  fixes salt :: bytes
  assumes "\<And>k d. length (hmac cr (mechanism c) k d) = len"
    and "CHR '','' \<notin> set nonce" and "ascii nonce" and "CHR '','' \<notin> set suffix" and "ascii suffix" and "it < 2 ^ 32"
  defines "sx \<equiv> fst (scram_start c nonce)" and "sf \<equiv> server_first_message (nonce @ suffix) salt it"
    and "pw \<equiv> password c" and "mech \<equiv> mechanism c"
  shows "\<exists>msg sx'. client_final cr sx sf = (Inr msg, sx') \<and>
    server_accepts cr mech (stored_key cr mech pw salt (of_nat it)) (sx_client_first_bare sx) sf (nonce @ suffix) msg \<and>
    verify cr sx' (as_bytes (''v='' @ base64_encode (hmac cr mech (server_key cr mech pw salt (of_nat it))
      (auth_message (sx_client_first_bare sx) sf (nonce @ suffix))))) = Inr ()"
proof -
  have sxs: "sx_mechanism sx = mech" "sx_password sx = pw" "sx_client_nonce sx = nonce"
    by (simp_all add: sx_def pw_def mech_def scram_start_def Let_def)
  have digits: "CHR '','' \<notin> set (show_nat it)" "ascii (show_nat it)"
    using digits_clean show_nat_digits by blast+
  have clean: "CHR '','' \<notin> set (nonce @ suffix)" using assms by simp
  have t: "text_of sf = ''r='' @ (nonce @ suffix) @ '',s='' @ base64_encode salt @ '',i='' @ show_nat it"
    unfolding sf_def server_first_message_def by simp
  note fields = field_server_first [OF clean base64_clean(1) [of salt] digits(1), folded t]
  have valid: "utf8_valid sf" unfolding sf_def server_first_message_def
    by (rule utf8_ascii_text) (simp add: assms base64_clean digits)
  have dec: "base64_decode (base64_encode x) = Some x" for x by (simp add: base64_decode_def base64_loop_encode)
  define ck where "ck = hmac cr mech (hi cr mech (as_bytes pw) salt (of_nat it)) (as_bytes ''Client Key'')"
  define sig where "sig = hmac cr mech (stored_key cr mech pw salt (of_nat it)) (auth_message (sx_client_first_bare sx) sf (nonce @ suffix))"
  define msg where "msg = ''c=biws,r='' @ (nonce @ suffix) @ '',p='' @ base64_encode (xor_bytes ck sig)"
  have cf: "client_final cr sx sf = (Inr (as_bytes msg), sx\<lparr>sx_server_signature := hmac cr mech
      (server_key cr mech pw salt (of_nat it)) (auth_message (sx_client_first_bare sx) sf (nonce @ suffix))\<rparr>)"
    using valid fields parse_show_nat [OF assms(6)] dec
    by (simp add: client_final_def Let_def sxs server_key_def stored_key_def auth_message_def ck_def sig_def msg_def
        del: as_bytes_append)
  have "xor_bytes (xor_bytes ck sig) sig = ck"
    by (rule xor_bytes_cancel) (simp add: ck_def sig_def mech_def assms(1))
  then have "server_accepts cr mech (stored_key cr mech pw salt (of_nat it)) (sx_client_first_bare sx) sf (nonce @ suffix) (as_bytes msg)"
    using field_client_final [OF clean base64_clean(1), of "xor_bytes ck sig"] dec
    unfolding server_accepts_def text_of_as_bytes msg_def sig_def [symmetric] by (simp add: stored_key_def ck_def)
  moreover have "utf8_valid (as_bytes (''v='' @ base64_encode s))" for s
    by (rule utf8_ascii_text) (simp add: base64_clean)
  ultimately show ?thesis using cf field_server_final [OF base64_clean(1)] unfolding verify_Inr
    by (intro exI conjI) (assumption | simp)+
qed


text \<open>
  C21: a server that knows the password and the client accept each other.  The client takes any
  first message of such a server, the server recovers the stored key from the client's proof, and the client accepts the
  server's signature; for every hash of a fixed length.
\<close>
theorem scram_completes_with_the_password:
  fixes salt :: bytes
  assumes "\<And>k d. length (hmac cr (mechanism c) k d) = len"
    and "CHR '','' \<notin> set nonce" and "ascii nonce" and "CHR '','' \<notin> set suffix" and "ascii suffix" and "it < 2 ^ 32"
  defines "sx \<equiv> fst (scram_start c nonce)" and "sf \<equiv> server_first_message (nonce @ suffix) salt it"
    and "pw \<equiv> password c" and "mech \<equiv> mechanism c"
  shows "\<exists>msg sx'. client_final cr sx sf = (Inr msg, sx') \<and>
    server_accepts cr mech (stored_key cr mech pw salt (of_nat it)) (sx_client_first_bare sx) sf (nonce @ suffix) msg \<and>
    verify cr sx' (as_bytes (''v='' @ base64_encode (hmac cr mech (server_key cr mech pw salt (of_nat it))
      (auth_message (sx_client_first_bare sx) sf (nonce @ suffix))))) = Inr ()"
  unfolding sx_def sf_def pw_def mech_def by (rule scram_run [OF assms(1-6)])

text \<open>A hash of one byte: enough to run the exchange.\<close>

definition toy_crypto :: crypto where
  "toy_crypto = \<lparr>hmac_sha256 = (\<lambda>k d. [sum_list k + 3 * sum_list d]), hmac_sha512 = (\<lambda>k d. [sum_list k]),
     digest_sha256 = (\<lambda>d. [sum_list d + 1]), digest_sha512 = id, utf8_error = (\<lambda>_. [])\<rparr>"

definition toy_credentials :: credentials where
  "toy_credentials = scram_sha256 ''user'' ''pencil''"

lemma toy_hmac: "length (hmac toy_crypto (mechanism toy_credentials) k d) = 1"
  by (simp add: hmac_def toy_crypto_def toy_credentials_def scram_sha256_def)

lemma toy_text: "CHR '','' \<notin> set ''abc''" "ascii ''abc''" "CHR '','' \<notin> set ''xyz''" "ascii ''xyz''"
  by (simp_all add: ascii_def)

theorem scram_completes_with_the_password_witness:
  "\<exists>msg sx'. client_final toy_crypto (fst (scram_start toy_credentials ''abc'')) (server_first_message (''abc'' @ ''xyz'') [1, 2] 2) =
     (Inr msg, sx')"
  using scram_completes_with_the_password [OF toy_hmac toy_text, of 2 "[1, 2]"] by auto

theorem scram_accepts_only_the_password_witness:
  "\<exists>msg sx' fin. client_final toy_crypto (fst (scram_start toy_credentials ''abc'')) (server_first_message (''abc'' @ ''xyz'') [1, 2] 2) =
     (Inr msg, sx') \<and> verify toy_crypto sx' fin = Inr () \<and>
     (\<exists>v. field (text_of fin) CHR ''v'' = Some v \<and> base64_decode v \<noteq> None)"
proof -
  obtain msg sx' fin where e: "client_final toy_crypto (fst (scram_start toy_credentials ''abc''))
      (server_first_message (''abc'' @ ''xyz'') [1, 2] 2) = (Inr msg, sx')" "verify toy_crypto sx' fin = Inr ()"
    using scram_run [OF toy_hmac toy_text, of 2 "[1, 2]"] by auto
  from scram_accepts_only_the_password [OF e] obtain v where
    "field (text_of fin) CHR ''v'' = Some v" "base64_decode v \<noteq> None" by auto
  then show ?thesis using e by blast
qed

end
