(* ===== verification/Broker.thy ===== *)
theory Broker
  imports Conn Sasl Client
begin

text \<open>
  One broker connection, \<^verbatim>\<open>Broker\<close> in \<^verbatim>\<open>barnabas-client/src/cluster.rs\<close>: opening and
  authenticating it, version negotiation, sending, and receiving by reads sized to the frame.

  The outside is the record \<open>'n env\<close>, its state \<open>'n\<close> threaded through every call: the \<^verbatim>\<open>Transport\<close> of
  \<^verbatim>\<open>src/lib.rs\<close>, the \<^verbatim>\<open>kafka-protocol\<close> codec, the hash functions, the clocks, the iteration order of a
  \<^verbatim>\<open>HashMap\<close> and the ingredients of a nonce.  A request that runs under \<^verbatim>\<open>with_timeout\<close> carries its deadline and
  the error that an expiry becomes (\<open>limit\<close>); its reads and writes may then expire, where those
  of a request without a deadline may not.  \<^verbatim>\<open>read_buf\<close> is only storage and has no counterpart.

  Shown in \<open>Cluster_Laws\<close>: a receive ends, after at most one read per byte of the largest frame.
\<close>

section \<open>Requests\<close>

datatype api_request =
    ApiVersionsRequest string string
  | SaslHandshakeRequest string
  | SaslAuthenticateRequest bytes
  | MetadataRequest "string list" bool
  | FindCoordinatorRequest string int
  | ProduceRequest produce_request
  | CoordinatorRequest coordinator_request

fun coordinator_api_key :: "coordinator_request \<Rightarrow> int" where
  "coordinator_api_key (InitProducerId _ _) = 22"
| "coordinator_api_key (AddPartitionsToTxn _ _ _ _) = 24"
| "coordinator_api_key (AddOffsetsToTxn _ _ _) = 25"
| "coordinator_api_key (EndTxn _ _ _) = 26"
| "coordinator_api_key (TxnOffsetCommit _ _ _ _) = 28"

fun api_key_of :: "api_request \<Rightarrow> int" where
  "api_key_of (ProduceRequest _) = 0"
| "api_key_of (MetadataRequest _ _) = 3"
| "api_key_of (FindCoordinatorRequest _ _) = 10"
| "api_key_of (SaslHandshakeRequest _) = 17"
| "api_key_of (ApiVersionsRequest _ _) = 18"
| "api_key_of (SaslAuthenticateRequest _) = 36"
| "api_key_of (CoordinatorRequest rq) = coordinator_api_key rq"

text \<open>The codec: a decoder per response type, given the version and the bytes after the header.\<close>

record codec =
  cd_header :: "request_header \<Rightarrow> string + bytes"
  cd_body :: "api_request \<Rightarrow> int \<Rightarrow> string + bytes"
  cd_response_header :: "int \<Rightarrow> bytes \<Rightarrow> string + int \<times> bytes"
  cd_response_header_version :: "int \<Rightarrow> int \<Rightarrow> int"
  cd_api_versions :: "int \<Rightarrow> bytes \<Rightarrow> string + int \<times> (int \<times> int \<times> int) list"
  cd_sasl_handshake :: "int \<Rightarrow> bytes \<Rightarrow> string + int \<times> string list"
  cd_sasl_authenticate :: "int \<Rightarrow> bytes \<Rightarrow> string + int \<times> string option \<times> bytes"
  cd_metadata :: "int \<Rightarrow> bytes \<Rightarrow> string + metadata_response"
  cd_find_coordinator :: "int \<Rightarrow> bytes \<Rightarrow> string + coordinator_info"
  cd_produce :: "int \<Rightarrow> bytes \<Rightarrow> string + produce_response"
  cd_coordinator :: "int \<Rightarrow> bytes \<Rightarrow> string + coordinator_response"

section \<open>The outside\<close>

record 'n env =
  tr_connect :: "'n \<Rightarrow> string \<Rightarrow> (string + nat) \<times> 'n"
  tr_read :: "'n \<Rightarrow> nat \<Rightarrow> nat \<Rightarrow> (string + bytes) \<times> 'n"
  tr_read_by :: "'n \<Rightarrow> nat \<Rightarrow> nat \<Rightarrow> nat \<Rightarrow> (string + bytes) option \<times> 'n"
  tr_write :: "'n \<Rightarrow> nat \<Rightarrow> bytes \<Rightarrow> (string + unit) \<times> 'n"
  tr_write_by :: "'n \<Rightarrow> nat \<Rightarrow> bytes \<Rightarrow> nat \<Rightarrow> (string + unit) option \<times> 'n"
  tr_sleep :: "'n \<Rightarrow> nat \<Rightarrow> 'n"
  tr_now :: "'n \<Rightarrow> nat"
  tr_unix_millis :: "'n \<Rightarrow> int"
  nonce_parts :: "'n \<Rightarrow> (nat \<times> nat \<times> nat) \<times> 'n"
  first_key :: "string list \<Rightarrow> string"
  env_codec :: codec
  env_crypto :: crypto
  env_records :: "compression \<Rightarrow> batch_record list \<Rightarrow> string + bytes"

text \<open>The deadline, and the API key and address a \<^verbatim>\<open>Timeout\<close> reports.\<close>

type_synonym limit = "(nat \<times> int \<times> string) option"

definition read_some :: "'n env \<Rightarrow> 'n \<Rightarrow> nat \<Rightarrow> nat \<Rightarrow> limit \<Rightarrow> (client_error + bytes) \<times> 'n" where
  "read_some env n s want lim =
     (case lim of
        None \<Rightarrow> (case tr_read env n s want of (Inl e, n') \<Rightarrow> (Inl (Io e), n') | (Inr bs, n') \<Rightarrow> (Inr bs, n'))
      | Some (d, op, a) \<Rightarrow>
          (case tr_read_by env n s want d of
             (None, n') \<Rightarrow> (Inl (Timeout op a), n')
           | (Some (Inl e), n') \<Rightarrow> (Inl (Io e), n')
           | (Some (Inr bs), n') \<Rightarrow> (Inr bs, n')))"

definition write_all :: "'n env \<Rightarrow> 'n \<Rightarrow> nat \<Rightarrow> bytes \<Rightarrow> limit \<Rightarrow> (client_error + unit) \<times> 'n" where
  "write_all env n s bs lim =
     (case lim of
        None \<Rightarrow> (case tr_write env n s bs of (Inl e, n') \<Rightarrow> (Inl (Io e), n') | (Inr u, n') \<Rightarrow> (Inr u, n'))
      | Some (d, op, a) \<Rightarrow>
          (case tr_write_by env n s bs d of
             (None, n') \<Rightarrow> (Inl (Timeout op a), n')
           | (Some (Inl e), n') \<Rightarrow> (Inl (Io e), n')
           | (Some (Inr u), n') \<Rightarrow> (Inr u, n')))"

section \<open>Sending and receiving\<close>

definition MAX_READ :: nat where "MAX_READ = 1024 * 1024"

record broker_conn =
  bk_stream :: nat
  bk_conn :: connection
  bk_versions :: "(int, int \<times> int) btree"

definition bk_in_flight :: "broker_conn \<Rightarrow> nat" where
  "bk_in_flight b = in_flight (bk_conn b)"

text \<open>\<^verbatim>\<open>clamp\<close>; its assertion that the range is not empty is left out.\<close>

definition negotiated :: "broker_conn \<Rightarrow> int \<Rightarrow> int \<Rightarrow> int" where
  "negotiated b api_key preferred =
     (case bt_get (bk_versions b) api_key of
        None \<Rightarrow> preferred
      | Some (least, greatest) \<Rightarrow> max least (min preferred greatest))"

definition broker_send ::
  "'n env \<Rightarrow> api_request \<Rightarrow> int \<Rightarrow> limit \<Rightarrow> 'n \<Rightarrow> broker_conn \<Rightarrow> (client_error + unit) \<times> broker_conn \<times> 'n" where
  "broker_send env rq version lim n b =
     (let v = negotiated b (api_key_of rq) version
      in case request (cd_header (env_codec env)) (cd_body (env_codec env) rq) (bk_conn b) (api_key_of rq) v of
           (Inl e, c) \<Rightarrow> (Inl (Core e), b\<lparr>bk_conn := c\<rparr>, n)
         | (Inr bytes, c) \<Rightarrow>
             (case write_all env n (bk_stream b) bytes lim of (r, n') \<Rightarrow> (r, b\<lparr>bk_conn := c\<rparr>, n')))"

lemma next_response_none:
  assumes "next_response dec rhv c = (Inr None, c')"
  shows "c' = c" and "length (buf (decoder c)) < 4 + max_frame (decoder c)"
proof -
  have nf: "next_frame (decoder c) = (Inr None, decoder c)" and "c' = c\<lparr>decoder := decoder c\<rparr>"
    using assms by (auto simp: next_response_def next_frame_def Let_def
        split: prod.splits sum.splits option.splits list.splits if_splits)
  then show "c' = c" by simp
  show "length (buf (decoder c)) < 4 + max_frame (decoder c)"
    using nf by (auto simp: next_frame_def Let_def split: if_splits)
qed

function broker_recv ::
  "'n env \<Rightarrow> (int \<Rightarrow> bytes \<Rightarrow> string + 'r) \<Rightarrow> limit \<Rightarrow> 'n \<Rightarrow> broker_conn \<Rightarrow> (client_error + 'r) \<times> broker_conn \<times> 'n" where
  "broker_recv env dec lim n b =
     (case next_response (cd_response_header (env_codec env)) (cd_response_header_version (env_codec env)) (bk_conn b) of
        (Inl e, c) \<Rightarrow> (Inl (Core e), b\<lparr>bk_conn := c\<rparr>, n)
      | (Inr (Some resp), c) \<Rightarrow>
          (case decode_response dec resp of Inl e \<Rightarrow> Inl (Core e) | Inr r \<Rightarrow> Inr r, b\<lparr>bk_conn := c\<rparr>, n)
      | (Inr None, c) \<Rightarrow>
          (let b1 = b\<lparr>bk_conn := c\<rparr>; want = min (max (conn_needed c) (16 * 1024)) MAX_READ
           in case read_some env n (bk_stream b) want lim of
                (Inl e, n') \<Rightarrow> (Inl e, b1, n')
              | (Inr bs, n') \<Rightarrow>
                  if bs = [] then (Inl (Io ''broker closed the connection''), b1, n')
                  else broker_recv env dec lim n' (b1\<lparr>bk_conn := push_bytes c bs\<rparr>)))"
  by pat_completeness auto
termination
proof (relation "measure (\<lambda>(env, dec, lim, n, b). 4 + max_frame (decoder (bk_conn b)) - length (buf (decoder (bk_conn b))))",
    goal_cases)
  case (2 env dec lim n b x y ba xa xb xc ya bb)
  then have nr: "next_response (cd_response_header (env_codec env)) (cd_response_header_version (env_codec env)) (bk_conn b) =
      (Inr None, y)" by simp
  from next_response_none [OF nr] 2 show ?case by (cases bb) (simp_all add: push_bytes_def push_def)
qed simp

declare broker_recv.simps [simp del]

definition broker_call ::
  "'n env \<Rightarrow> (int \<Rightarrow> bytes \<Rightarrow> string + 'r) \<Rightarrow> api_request \<Rightarrow> int \<Rightarrow> limit \<Rightarrow> 'n \<Rightarrow> broker_conn \<Rightarrow>
   (client_error + 'r) \<times> broker_conn \<times> 'n" where
  "broker_call env dec rq version lim n b =
     (if bk_in_flight b \<noteq> 0 then (Inl (ConnectionBusy (api_key_of rq) [] (bk_in_flight b)), b, n)
      else case broker_send env rq version lim n b of
             (Inl e, b1, n1) \<Rightarrow> (Inl e, b1, n1)
           | (Inr _, b1, n1) \<Rightarrow> broker_recv env dec lim n1 b1)"

section \<open>Opening a connection\<close>

definition scram_nonce :: "nat \<times> nat \<times> nat \<Rightarrow> string" where
  "scram_nonce parts = (case parts of (counter, entropy, nanos) \<Rightarrow> show_base 16 counter @ show_base 16 entropy @ show_base 16 nanos)"

definition sasl_exchange ::
  "'n env \<Rightarrow> bytes \<Rightarrow> 'n \<Rightarrow> broker_conn \<Rightarrow> (client_error + bytes) \<times> broker_conn \<times> 'n" where
  "sasl_exchange env bs n b =
     (case broker_call env (cd_sasl_authenticate (env_codec env)) (SaslAuthenticateRequest bs) 1 None n b of
        (Inl e, b1, n1) \<Rightarrow> (Inl e, b1, n1)
      | (Inr (code, message, auth_bytes), b1, n1) \<Rightarrow>
          if code \<noteq> 0
          then (Inl (Sasl (case message of None \<Rightarrow> ''authentication failed'' | Some m \<Rightarrow> m)), b1, n1)
          else (Inr auth_bytes, b1, n1))"

fun sasl_error_text :: "sasl_error \<Rightarrow> string" where
  "sasl_error_text Rejected = ''the broker rejected the credentials''"
| "sasl_error_text (Malformed m) = ''the broker's SASL message was malformed: '' @ m"
| "sasl_error_text ServerSignature = ''the server's signature did not verify '' @ [CHR 0xE2, CHR 0x80, CHR 0x94] @
     '' the peer does not know the password''"

fun join_strings :: "string \<Rightarrow> string list \<Rightarrow> string" where
  "join_strings sep [] = []"
| "join_strings sep [x] = x"
| "join_strings sep (x # xs) = x @ sep @ join_strings sep xs"

definition scram_authenticate ::
  "'n env \<Rightarrow> credentials \<Rightarrow> 'n \<Rightarrow> broker_conn \<Rightarrow> (client_error + unit) \<times> broker_conn \<times> 'n" where
  "scram_authenticate env cred n b =
     (case nonce_parts env n of (parts, n0) \<Rightarrow>
      case scram_start cred (scram_nonce parts) of (sx, client_first) \<Rightarrow>
      case sasl_exchange env client_first n0 b of
        (Inl e, b1, n1) \<Rightarrow> (Inl e, b1, n1)
      | (Inr server_first, b1, n1) \<Rightarrow>
          (case client_final (env_crypto env) sx server_first of
             (Inl e, sx1) \<Rightarrow> (Inl (Sasl (sasl_error_text e)), b1, n1)
           | (Inr msg, sx1) \<Rightarrow>
               (case sasl_exchange env msg n1 b1 of
                  (Inl e, b2, n2) \<Rightarrow> (Inl e, b2, n2)
                | (Inr server_final, b2, n2) \<Rightarrow>
                    (case verify (env_crypto env) sx1 server_final of
                       Inl e \<Rightarrow> (Inl (Sasl (sasl_error_text e)), b2, n2)
                     | Inr _ \<Rightarrow> (Inr (), b2, n2)))))"

definition authenticate ::
  "'n env \<Rightarrow> credentials \<Rightarrow> 'n \<Rightarrow> broker_conn \<Rightarrow> (client_error + unit) \<times> broker_conn \<times> 'n" where
  "authenticate env cred n b =
     (case broker_call env (cd_sasl_handshake (env_codec env)) (SaslHandshakeRequest (mechanism_name (mechanism cred))) 1 None n b of
        (Inl e, b1, n1) \<Rightarrow> (Inl e, b1, n1)
      | (Inr (code, offered), b1, n1) \<Rightarrow>
          if code \<noteq> 0
          then (Inl (Sasl (''broker rejected mechanism '' @ mechanism_name (mechanism cred) @ ''; it offers '' @
                  (if offered = [] then ''nothing'' else join_strings '', '' offered))), b1, n1)
          else (case mechanism cred of
                  Plain \<Rightarrow>
                    (case sasl_exchange env (plain_message cred) n1 b1 of
                       (Inl e, b2, n2) \<Rightarrow> (Inl e, b2, n2)
                     | (Inr _, b2, n2) \<Rightarrow> (Inr (), b2, n2))
                | _ \<Rightarrow> scram_authenticate env cred n1 b1))"

definition learn_versions :: "broker_conn \<Rightarrow> (int \<times> int \<times> int) list \<Rightarrow> broker_conn" where
  "learn_versions b apis =
     b\<lparr>bk_versions := fold (\<lambda>(key, least, greatest). bt_insert key (least, greatest)) apis (bk_versions b)\<rparr>"

definition broker_connect ::
  "'n env \<Rightarrow> string \<Rightarrow> string \<Rightarrow> credentials option \<Rightarrow> 'n \<Rightarrow> (client_error + broker_conn) \<times> 'n" where
  "broker_connect env a cid cred n =
     (case tr_connect env n a of
        (Inl e, n1) \<Rightarrow> (Inl (Connect a e), n1)
      | (Inr s, n1) \<Rightarrow>
          (case broker_call env (cd_api_versions (env_codec env)) (ApiVersionsRequest cid ''0.0.1'') 3 None n1
                  \<lparr>bk_stream = s, bk_conn = new_connection cid, bk_versions = []\<rparr> of
             (Inl e, b1, n2) \<Rightarrow> (Inl e, n2)
           | (Inr (code, apis), b1, n2) \<Rightarrow>
               (case check ''ApiVersions'' code of
                  Inl e \<Rightarrow> (Inl e, n2)
                | Inr _ \<Rightarrow>
                    (let b2 = learn_versions b1 apis
                     in case cred of
                          None \<Rightarrow> (Inr b2, n2)
                        | Some c \<Rightarrow>
                            (case authenticate env c n2 b2 of
                               (Inl e, b3, n3) \<Rightarrow> (Inl e, n3)
                             | (Inr _, b3, n3) \<Rightarrow> (Inr b3, n3))))))"

end
