(* ===== verification/Cluster.thy ===== *)
theory Cluster
  imports Broker
begin

text \<open>
  The connection pool and the routing of \<^verbatim>\<open>barnabas-client/src/cluster.rs\<close>.  A \<^verbatim>\<open>HashMap\<close> is an
  ordered map; where the code takes the first key of one, \<open>first_key\<close> chooses.  A method that fails
  after it changed the pool returns the pool it leaves behind.  \<open>recv_many\<close> runs its reads to the end one
  after the other, all with the deadline the call computes at its start.
\<close>

section \<open>State\<close>

record 'n cluster =
  cl_net :: 'n
  cl_client_id :: string
  cl_bootstrap :: "string list"
  cl_allow_auto_topic_creation :: bool
  cl_conns :: "(string, broker_conn) btree"
  cl_coordinator_conns :: "(string, broker_conn) btree"
  cl_metadata :: metadata
  cl_refreshed_at :: "(string, nat) btree"
  cl_metadata_max_age :: nat
  cl_request_timeout :: nat
  cl_credentials :: "credentials option"

definition DEFAULT_REQUEST_TIMEOUT :: nat where "DEFAULT_REQUEST_TIMEOUT = 30000"

definition set_credentials :: "'n cluster \<Rightarrow> credentials \<Rightarrow> 'n cluster" where
  "set_credentials c cred = c\<lparr>cl_credentials := Some cred\<rparr>"

definition set_request_timeout :: "'n cluster \<Rightarrow> nat \<Rightarrow> 'n cluster" where
  "set_request_timeout c t = c\<lparr>cl_request_timeout := t\<rparr>"

definition set_allow_auto_topic_creation :: "'n cluster \<Rightarrow> bool \<Rightarrow> 'n cluster" where
  "set_allow_auto_topic_creation c x = c\<lparr>cl_allow_auto_topic_creation := x\<rparr>"

definition set_metadata_max_age :: "'n cluster \<Rightarrow> nat \<Rightarrow> 'n cluster" where
  "set_metadata_max_age c t = c\<lparr>cl_metadata_max_age := t\<rparr>"

definition connection_count :: "'n cluster \<Rightarrow> nat" where
  "connection_count c = length (cl_conns c)"

section \<open>Connections\<close>

text \<open>A new connection for this cluster, and what the pool is after it.\<close>

definition open_conn :: "'n env \<Rightarrow> string \<Rightarrow> 'n cluster \<Rightarrow> (client_error + broker_conn) \<times> 'n cluster" where
  "open_conn env a c =
     (case broker_connect env a (cl_client_id c) (cl_credentials c) (cl_net c) of (r, n) \<Rightarrow> (r, c\<lparr>cl_net := n\<rparr>))"

definition put_conn :: "string \<Rightarrow> broker_conn \<Rightarrow> 'n cluster \<Rightarrow> 'n cluster" where
  "put_conn a b c = c\<lparr>cl_conns := bt_insert a b (cl_conns c)\<rparr>"

definition drop_conn :: "string \<Rightarrow> 'n cluster \<Rightarrow> 'n cluster" where
  "drop_conn a c = c\<lparr>cl_conns := bt_remove a (cl_conns c)\<rparr>"

definition broker_at :: "'n env \<Rightarrow> string \<Rightarrow> 'n cluster \<Rightarrow> (client_error + broker_conn) \<times> 'n cluster" where
  "broker_at env a c =
     (case bt_get (cl_conns c) a of
        Some b \<Rightarrow> (Inr b, c)
      | None \<Rightarrow>
          (case open_conn env a c of
             (Inl e, c1) \<Rightarrow> (Inl e, c1)
           | (Inr b, c1) \<Rightarrow> (Inr b, put_conn a b c1)))"

fun try_bootstrap ::
  "'n env \<Rightarrow> string list \<Rightarrow> client_error option \<Rightarrow> 'n cluster \<Rightarrow> (client_error + string) \<times> 'n cluster" where
  "try_bootstrap env [] last_err c =
     (Inl (case last_err of None \<Rightarrow> Missing ''bootstrap address'' | Some e \<Rightarrow> e), c)"
| "try_bootstrap env (a # as) last_err c =
     (case open_conn env a c of
        (Inr b, c1) \<Rightarrow> (Inr a, put_conn a b c1)
      | (Inl e, c1) \<Rightarrow> try_bootstrap env as (Some e) c1)"

definition any_broker_addr :: "'n env \<Rightarrow> 'n cluster \<Rightarrow> (client_error + string) \<times> 'n cluster" where
  "any_broker_addr env c =
     (if cl_conns c \<noteq> [] then (Inr (first_key env (bt_keys (cl_conns c))), c)
      else try_bootstrap env (cl_bootstrap c) None c)"

text \<open>\<^verbatim>\<open>any_broker\<close> differs from \<open>any_broker_addr\<close> only in handing out the connection itself.\<close>

definition cluster_connect :: "'n env \<Rightarrow> 'n \<Rightarrow> string list \<Rightarrow> string \<Rightarrow> (client_error + 'n cluster) \<times> 'n" where
  "cluster_connect env n bootstrap cid =
     (case any_broker_addr env
        \<lparr>cl_net = n, cl_client_id = cid, cl_bootstrap = bootstrap, cl_allow_auto_topic_creation = True, cl_conns = [],
         cl_coordinator_conns = [], cl_metadata = new_metadata, cl_refreshed_at = [], cl_metadata_max_age = 300000,
         cl_request_timeout = DEFAULT_REQUEST_TIMEOUT, cl_credentials = None\<rparr> of
        (Inl e, c) \<Rightarrow> (Inl e, cl_net c)
      | (Inr _, c) \<Rightarrow> (Inr c, cl_net c))"

section \<open>Calls\<close>

text \<open>The attempts of \<^verbatim>\<open>for attempt in 0..2\<close>: \<open>left\<close> is how many remain after this one.\<close>

fun call_attempt ::
  "'n env \<Rightarrow> (int \<Rightarrow> bytes \<Rightarrow> string + 'r) \<Rightarrow> string \<Rightarrow> api_request \<Rightarrow> int \<Rightarrow> nat \<Rightarrow> nat \<Rightarrow> 'n cluster \<Rightarrow>
   (client_error + 'r) \<times> 'n cluster" where
  "call_attempt env dec a rq version timeout left c =
     (case broker_at env a c of
        (Inl e, c1) \<Rightarrow> (Inl e, c1)
      | (Inr b, c1) \<Rightarrow>
          if bk_in_flight b \<noteq> 0 then (Inl (ConnectionBusy (api_key_of rq) a (bk_in_flight b)), c1)
          else
            (case broker_call env dec rq version (Some (tr_now env (cl_net c1) + timeout, api_key_of rq, a)) (cl_net c1) b of
               (r, b', n') \<Rightarrow>
                 (let c2 = (put_conn a b' c1)\<lparr>cl_net := n'\<rparr>
                  in case r of
                       Inr resp \<Rightarrow> (Inr resp, c2)
                     | Inl (Io e) \<Rightarrow>
                         (case left of
                            0 \<Rightarrow> (Inl (Io e), drop_conn a c2)
                          | Suc left' \<Rightarrow> call_attempt env dec a rq version timeout left' (drop_conn a c2))
                     | Inl (Timeout op ad) \<Rightarrow> (Inl (Timeout op ad), drop_conn a c2)
                     | Inl e \<Rightarrow> (Inl e, c2))))"

declare call_attempt.simps [simp del]

definition call_at_with_timeout ::
  "'n env \<Rightarrow> (int \<Rightarrow> bytes \<Rightarrow> string + 'r) \<Rightarrow> string \<Rightarrow> api_request \<Rightarrow> int \<Rightarrow> nat \<Rightarrow> 'n cluster \<Rightarrow>
   (client_error + 'r) \<times> 'n cluster" where
  "call_at_with_timeout env dec a rq version timeout c = call_attempt env dec a rq version timeout 1 c"

definition cluster_call_at ::
  "'n env \<Rightarrow> (int \<Rightarrow> bytes \<Rightarrow> string + 'r) \<Rightarrow> string \<Rightarrow> api_request \<Rightarrow> int \<Rightarrow> 'n cluster \<Rightarrow> (client_error + 'r) \<times> 'n cluster" where
  "cluster_call_at env dec a rq version c = call_at_with_timeout env dec a rq version (cl_request_timeout c) c"

definition cluster_call_any ::
  "'n env \<Rightarrow> (int \<Rightarrow> bytes \<Rightarrow> string + 'r) \<Rightarrow> api_request \<Rightarrow> int \<Rightarrow> 'n cluster \<Rightarrow> (client_error + 'r) \<times> 'n cluster" where
  "cluster_call_any env dec rq version c =
     (case any_broker_addr env c of
        (Inl e, c1) \<Rightarrow> (Inl e, c1)
      | (Inr a, c1) \<Rightarrow> cluster_call_at env dec a rq version c1)"

text \<open>The connections reserved for coordinator traffic.\<close>

fun coordinator_attempt ::
  "'n env \<Rightarrow> (int \<Rightarrow> bytes \<Rightarrow> string + 'r) \<Rightarrow> string \<Rightarrow> api_request \<Rightarrow> int \<Rightarrow> nat \<Rightarrow> nat \<Rightarrow> 'n cluster \<Rightarrow>
   (client_error + 'r) \<times> 'n cluster" where
  "coordinator_attempt env dec a rq version timeout left c =
     (case (case bt_get (cl_coordinator_conns c) a of Some b \<Rightarrow> (Inr b, c) | None \<Rightarrow> open_conn env a c) of
        (Inl e, c1) \<Rightarrow> (Inl e, c1)
      | (Inr b, c1) \<Rightarrow>
          (case broker_call env dec rq version (Some (tr_now env (cl_net c1) + timeout, api_key_of rq, a)) (cl_net c1) b of
             (r, b', n') \<Rightarrow>
               (let kept = c1\<lparr>cl_net := n', cl_coordinator_conns := bt_insert a b' (cl_coordinator_conns c1)\<rparr>;
                    dropped = c1\<lparr>cl_net := n', cl_coordinator_conns := bt_remove a (cl_coordinator_conns c1)\<rparr>
                in case r of
                     Inr resp \<Rightarrow> (Inr resp, kept)
                   | Inl (Io e) \<Rightarrow>
                       (case left of
                          0 \<Rightarrow> (Inl (Io e), dropped)
                        | Suc left' \<Rightarrow> coordinator_attempt env dec a rq version timeout left' dropped)
                   | Inl (Timeout op ad) \<Rightarrow> (Inl (Timeout op ad), dropped)
                   | Inl e \<Rightarrow> (Inl e, kept))))"

declare coordinator_attempt.simps [simp del]

definition call_coordinator ::
  "'n env \<Rightarrow> (int \<Rightarrow> bytes \<Rightarrow> string + 'r) \<Rightarrow> string \<Rightarrow> api_request \<Rightarrow> int \<Rightarrow> nat \<Rightarrow> 'n cluster \<Rightarrow>
   (client_error + 'r) \<times> 'n cluster" where
  "call_coordinator env dec a rq version timeout c = coordinator_attempt env dec a rq version timeout 1 c"

section \<open>Pipelining\<close>

fun send_attempt ::
  "'n env \<Rightarrow> api_request \<Rightarrow> int \<Rightarrow> string \<Rightarrow> nat \<Rightarrow> 'n cluster \<Rightarrow> (client_error + unit) \<times> 'n cluster" where
  "send_attempt env rq version a left c =
     (case broker_at env a c of
        (Inl e, c1) \<Rightarrow> (Inl e, c1)
      | (Inr b, c1) \<Rightarrow>
          (case broker_send env rq version None (cl_net c1) b of
             (r, b', n') \<Rightarrow>
               (let c2 = (put_conn a b' c1)\<lparr>cl_net := n'\<rparr>
                in case r of
                     Inr _ \<Rightarrow> (Inr (), c2)
                   | Inl (Io e) \<Rightarrow>
                       (case left of
                          0 \<Rightarrow> (Inl (Io e), drop_conn a c2)
                        | Suc left' \<Rightarrow> send_attempt env rq version a left' (drop_conn a c2))
                   | Inl e \<Rightarrow> (Inl e, c2))))"

declare send_attempt.simps [simp del]

definition cluster_send_at :: "'n env \<Rightarrow> api_request \<Rightarrow> int \<Rightarrow> string \<Rightarrow> 'n cluster \<Rightarrow> (client_error + unit) \<times> 'n cluster" where
  "cluster_send_at env rq version a c = send_attempt env rq version a 1 c"

text \<open>Taking the connections out of the pool, reading, putting back the ones still usable.\<close>

fun take_conns :: "string list \<Rightarrow> (string, broker_conn) btree \<Rightarrow> (string \<times> broker_conn option) list \<times> (string, broker_conn) btree" where
  "take_conns [] m = ([], m)"
| "take_conns (a # as) m =
     (case take_conns as (bt_remove a m) of (xs, m') \<Rightarrow> ((a, bt_get m a) # xs, m'))"

fun recv_each ::
  "'n env \<Rightarrow> (int \<Rightarrow> bytes \<Rightarrow> string + 'r) \<Rightarrow> int \<Rightarrow> nat \<Rightarrow> (string \<times> broker_conn option) list \<Rightarrow> 'n \<Rightarrow>
   (string \<times> broker_conn option \<times> (client_error + 'r)) list \<times> 'n" where
  "recv_each env dec op deadline [] n = ([], n)"
| "recv_each env dec op deadline ((a, None) # xs) n =
     (case recv_each env dec op deadline xs n of (ys, n') \<Rightarrow>
        ((a, None, Inl (Io ''connection dropped before its response was read'')) # ys, n'))"
| "recv_each env dec op deadline ((a, Some b) # xs) n =
     (case broker_recv env dec (Some (deadline, op, a)) n b of (r, b', n1) \<Rightarrow>
      case recv_each env dec op deadline xs n1 of (ys, n') \<Rightarrow> ((a, Some b', r) # ys, n'))"

definition put_back ::
  "string \<times> broker_conn option \<times> (client_error + 'r) \<Rightarrow> (string, broker_conn) btree \<Rightarrow> (string, broker_conn) btree" where
  "put_back x m =
     (case x of
        (a, None, _) \<Rightarrow> m
      | (a, Some b, Inr _) \<Rightarrow> bt_insert a b m
      | (a, Some b, Inl (Io _)) \<Rightarrow> m
      | (a, Some b, Inl (Timeout _ _)) \<Rightarrow> m
      | (a, Some b, Inl _) \<Rightarrow> bt_insert a b m)"

definition cluster_recv_many ::
  "'n env \<Rightarrow> (int \<Rightarrow> bytes \<Rightarrow> string + 'r) \<Rightarrow> int \<Rightarrow> string list \<Rightarrow> 'n cluster \<Rightarrow> (client_error + 'r) list \<times> 'n cluster" where
  "cluster_recv_many env dec op addrs c =
     (case take_conns addrs (cl_conns c) of (taken, m) \<Rightarrow>
      case recv_each env dec op (tr_now env (cl_net c) + cl_request_timeout c) taken (cl_net c) of (outs, n) \<Rightarrow>
        (map (\<lambda>(_, _, r). r) outs, c\<lparr>cl_net := n, cl_conns := fold put_back outs m\<rparr>))"

definition discard_many ::
  "'n env \<Rightarrow> (int \<Rightarrow> bytes \<Rightarrow> string + 'r) \<Rightarrow> int \<Rightarrow> string list \<Rightarrow> 'n cluster \<Rightarrow> 'n cluster" where
  "discard_many env dec op addrs c = snd (cluster_recv_many env dec op addrs c)"

section \<open>Metadata\<close>

fun check_topics :: "response_topic list \<Rightarrow> client_error + unit" where
  "check_topics [] = Inr ()"
| "check_topics (t # ts) =
     (let code = ErrorCode (rt_error_code t)
      in if \<not> is_ok code \<and> disposition_of code \<noteq> RefreshMetadata
         then (case check ''Metadata'' (rt_error_code t) of Inl e \<Rightarrow> Inl e | Inr _ \<Rightarrow> check_topics ts)
         else check_topics ts)"

definition cluster_refresh_metadata :: "'n env \<Rightarrow> string \<Rightarrow> 'n cluster \<Rightarrow> (client_error + unit) \<times> 'n cluster" where
  "cluster_refresh_metadata env topic c =
     (case cluster_call_any env (cd_metadata (env_codec env)) (MetadataRequest [topic] (cl_allow_auto_topic_creation c)) 12 c of
        (Inl e, c1) \<Rightarrow> (Inl e, c1)
      | (Inr resp, c1) \<Rightarrow>
          (case check_topics (mr_topics resp) of
             Inl e \<Rightarrow> (Inl e, c1)
           | Inr _ \<Rightarrow>
               (Inr (), c1\<lparr>cl_metadata := update_metadata (cl_metadata c1) resp,
                           cl_refreshed_at := bt_insert topic (tr_now env (cl_net c1)) (cl_refreshed_at c1)\<rparr>)))"

definition is_metadata_stale :: "'n env \<Rightarrow> string \<Rightarrow> 'n cluster \<Rightarrow> bool" where
  "is_metadata_stale env topic c \<longleftrightarrow>
     (case bt_get (cl_refreshed_at c) topic of
        None \<Rightarrow> True
      | Some at \<Rightarrow> cl_metadata_max_age c \<le> tr_now env (cl_net c) - at)"

definition refresh_if_stale :: "'n env \<Rightarrow> string \<Rightarrow> 'n cluster \<Rightarrow> (client_error + (int \<times> int) option) \<times> 'n cluster" where
  "refresh_if_stale env topic c =
     (if \<not> is_metadata_stale env topic c then (Inr None, c)
      else let before = partition_count (cl_metadata c) topic
           in case cluster_refresh_metadata env topic c of
                (Inl e, c1) \<Rightarrow> (Inl e, c1)
              | (Inr _, c1) \<Rightarrow>
                  (let after = partition_count (cl_metadata c1) topic
                   in (Inr (if 0 < before \<and> before < after then Some (before, after) else None), c1)))"

definition cluster_forget_topic :: "string \<Rightarrow> 'n cluster \<Rightarrow> 'n cluster" where
  "cluster_forget_topic topic c =
     c\<lparr>cl_metadata := forget_topic (cl_metadata c) topic, cl_refreshed_at := bt_remove topic (cl_refreshed_at c)\<rparr>"

definition refresh_cluster :: "'n env \<Rightarrow> 'n cluster \<Rightarrow> (client_error + unit) \<times> 'n cluster" where
  "refresh_cluster env c =
     (case cluster_call_any env (cd_metadata (env_codec env)) (MetadataRequest [] False) 12 c of
        (Inl e, c1) \<Rightarrow> (Inl e, c1)
      | (Inr resp, c1) \<Rightarrow> (Inr (), c1\<lparr>cl_metadata := update_metadata (cl_metadata c1) resp\<rparr>))"

definition controller_addr :: "'n env \<Rightarrow> 'n cluster \<Rightarrow> (client_error + string) \<times> 'n cluster" where
  "controller_addr env c =
     (case controller (cl_metadata c) of
        Some b \<Rightarrow> (Inr (addr b), c)
      | None \<Rightarrow>
          (case refresh_cluster env c of
             (Inl e, c1) \<Rightarrow> (Inl e, c1)
           | (Inr _, c1) \<Rightarrow>
               (case controller (cl_metadata c1) of
                  None \<Rightarrow> (Inl (Missing ''a controller''), c1)
                | Some b \<Rightarrow> (Inr (addr b), c1))))"

definition cluster_invalidate_controller :: "'n cluster \<Rightarrow> 'n cluster" where
  "cluster_invalidate_controller c = c\<lparr>cl_metadata := invalidate_controller (cl_metadata c)\<rparr>"

definition cluster_leader_addr :: "'n env \<Rightarrow> string \<Rightarrow> int \<Rightarrow> 'n cluster \<Rightarrow> (client_error + string) \<times> 'n cluster" where
  "cluster_leader_addr env topic part c =
     (case leader_for (cl_metadata c) topic part of
        Some b \<Rightarrow> (Inr (addr b), c)
      | None \<Rightarrow>
          (case cluster_refresh_metadata env topic c of
             (Inl e, c1) \<Rightarrow> (Inl e, c1)
           | (Inr _, c1) \<Rightarrow>
               (case leader_for (cl_metadata c1) topic part of
                  None \<Rightarrow> (Inl (NoLeader topic part), c1)
                | Some b \<Rightarrow> (Inr (addr b), c1))))"

definition cluster_partition_count :: "'n env \<Rightarrow> string \<Rightarrow> 'n cluster \<Rightarrow> (client_error + int) \<times> 'n cluster" where
  "cluster_partition_count env topic c =
     (case (if partition_count (cl_metadata c) topic = 0 \<or> is_metadata_stale env topic c
            then cluster_refresh_metadata env topic c else (Inr (), c)) of
        (Inl e, c1) \<Rightarrow> (Inl e, c1)
      | (Inr _, c1) \<Rightarrow>
          (let count = partition_count (cl_metadata c1) topic
           in if count = 0 then (Inl (NoLeader topic (- 1)), c1) else (Inr count, c1)))"

definition cluster_invalidate :: "string \<Rightarrow> int \<Rightarrow> 'n cluster \<Rightarrow> 'n cluster" where
  "cluster_invalidate topic part c = c\<lparr>cl_metadata := invalidate_partition (cl_metadata c) topic part\<rparr>"

section \<open>What the producer calls\<close>

definition coordinator_version :: "coordinator_request \<Rightarrow> int" where
  "coordinator_version rq = (case rq of InitProducerId _ _ \<Rightarrow> 4 | _ \<Rightarrow> 3)"

definition cluster_ops_of :: "'n env \<Rightarrow> 'n cluster cluster_ops" where
  "cluster_ops_of env =
     \<lparr>leader_addr = (\<lambda>c t i. cluster_leader_addr env t i c),
      send_at = (\<lambda>c a rq. cluster_send_at env (ProduceRequest rq) 9 a c),
      recv_many = (\<lambda>c as. cluster_recv_many env (cd_produce (env_codec env)) 0 as c),
      invalidate = (\<lambda>c t i. cluster_invalidate t i c),
      refresh_metadata = (\<lambda>c t. cluster_refresh_metadata env t c),
      topic_partition_count = (\<lambda>c t. cluster_partition_count env t c),
      call_find_coordinator = (\<lambda>c key kind.
        cluster_call_any env (cd_find_coordinator (env_codec env)) (FindCoordinatorRequest key kind) 3 c),
      call_any = (\<lambda>c rq. cluster_call_any env (cd_coordinator (env_codec env)) (CoordinatorRequest rq) (coordinator_version rq) c),
      call_at = (\<lambda>c a rq. cluster_call_at env (cd_coordinator (env_codec env)) a (CoordinatorRequest rq) (coordinator_version rq) c),
      sleep = (\<lambda>c d. c\<lparr>cl_net := tr_sleep env (cl_net c) d\<rparr>),
      now = (\<lambda>c. tr_now env (cl_net c)),
      unix_millis = (\<lambda>c. tr_unix_millis env (cl_net c)),
      encode_records = env_records env\<rparr>"

end
