(* ===== verification/Wire.thy ===== *)
theory Wire
  imports Cluster Window_Safety "HOL-Library.Sublist"
begin

text \<open>
  What the client relies on outside: a network whose brokers answer each connection's requests in
  order, and the proof that over such a network the pool of \<open>Cluster\<close> keeps the contract
  (\<open>pipelined\<close>) the producer's window was proved against.
\<close>

section \<open>Brokers that answer in order\<close>

text \<open>
  A view of the network's state: the requests written on a stream, the bodies of the answers sent back on it,
  the bytes of them the client has read, the streams in use, and the batches each partition holds.
\<close>

record 'n view =
  vw_written :: "'n \<Rightarrow> nat \<Rightarrow> (pending \<times> api_request) list"
  vw_replies :: "'n \<Rightarrow> nat \<Rightarrow> bytes list"
  vw_delivered :: "'n \<Rightarrow> nat \<Rightarrow> bytes"
  vw_open :: "'n \<Rightarrow> nat set"
  vw_log :: "'n \<Rightarrow> partition_key \<Rightarrow> bytes set"

definition sent_as :: "codec \<Rightarrow> pending \<Rightarrow> api_request \<Rightarrow> bytes \<Rightarrow> bool" where
  "sent_as cd p rq bs \<longleftrightarrow>
     (\<exists>cid h b. cd_header cd \<lparr>request_api_key = p_api_key p, request_api_version = p_version p,
                 correlation_id = p_correlation_id p, header_client_id = Some cid\<rparr> = Inr h \<and>
        cd_body cd rq (p_version p) = Inr b \<and> frame (h @ b) = Inr bs \<and> p_api_key p = api_key_of rq)"

text \<open>A decoder that reads the answers to a request.\<close>

fun decodable :: "codec \<Rightarrow> api_request \<Rightarrow> int \<Rightarrow> bytes \<Rightarrow> bool" where
  "decodable cd (ApiVersionsRequest _ _) v bs = (\<exists>r. cd_api_versions cd v bs = Inr r)"
| "decodable cd (SaslHandshakeRequest _) v bs = (\<exists>r. cd_sasl_handshake cd v bs = Inr r)"
| "decodable cd (SaslAuthenticateRequest _) v bs = (\<exists>r. cd_sasl_authenticate cd v bs = Inr r)"
| "decodable cd (MetadataRequest _ _) v bs = (\<exists>r. cd_metadata cd v bs = Inr r)"
| "decodable cd (FindCoordinatorRequest _ _) v bs = (\<exists>r. cd_find_coordinator cd v bs = Inr r)"
| "decodable cd (ProduceRequest _) v bs = (\<exists>r. cd_produce cd v bs = Inr r)"
| "decodable cd (CoordinatorRequest _) v bs = (\<exists>r. cd_coordinator cd v bs = Inr r)"

definition reads :: "codec \<Rightarrow> (int \<Rightarrow> bytes \<Rightarrow> string + 'r) \<Rightarrow> api_request \<Rightarrow> bool" where
  "reads cd dec rq \<longleftrightarrow> (\<forall>v bs. decodable cd rq v bs \<longrightarrow> (\<exists>r. dec v bs = Inr r))"

definition reply_ok ::
  "codec \<Rightarrow> ('n \<Rightarrow> produce_request \<Rightarrow> produce_response \<Rightarrow> bool) \<Rightarrow> 'n \<Rightarrow> pending \<times> api_request \<Rightarrow> bytes \<Rightarrow> bool" where
  "reply_ok cd Q n w body \<longleftrightarrow>
     length body \<le> DEFAULT_MAX_FRAME \<and>
     (\<exists>rest. cd_response_header cd (cd_response_header_version cd (p_api_key (fst w)) (p_version (fst w))) body =
          Inr (p_correlation_id (fst w), rest) \<and>
        decodable cd (snd w) (p_version (fst w)) rest \<and>
        (\<forall>q resp. snd w = ProduceRequest q \<longrightarrow> cd_produce cd (p_version (fst w)) rest = Inr resp \<longrightarrow> Q n q resp))"

text \<open>A stream carries answers to the requests written on it, in order, and the client has read a prefix of them.\<close>

definition stream_ok ::
  "codec \<Rightarrow> 'n view \<Rightarrow> ('n \<Rightarrow> produce_request \<Rightarrow> produce_response \<Rightarrow> bool) \<Rightarrow> 'n \<Rightarrow> nat \<Rightarrow> bool" where
  "stream_ok cd W Q n s \<longleftrightarrow>
     length (vw_replies W n s) \<le> length (vw_written W n s) \<and>
     prefix (vw_delivered W n s) (concat (map wire (vw_replies W n s))) \<and>
     (\<forall>i < length (vw_replies W n s). reply_ok cd Q n (vw_written W n s ! i) (vw_replies W n s ! i))"

definition same_stream :: "'n view \<Rightarrow> 'n \<Rightarrow> 'n \<Rightarrow> nat \<Rightarrow> bool" where
  "same_stream W n n' s \<longleftrightarrow> vw_written W n' s = vw_written W n s \<and> vw_delivered W n' s = vw_delivered W n s \<and>
     prefix (vw_replies W n s) (vw_replies W n' s)"

text \<open>What a step leaves alone: every stream in use but \<open>S\<close>, and no log shrinks.\<close>

definition others :: "'n view \<Rightarrow> nat set \<Rightarrow> 'n \<Rightarrow> 'n \<Rightarrow> bool" where
  "others W S n n' \<longleftrightarrow> vw_open W n \<subseteq> vw_open W n' \<and> (\<forall>s\<in>vw_open W n - S. same_stream W n n' s) \<and>
     (\<forall>k. vw_log W n k \<subseteq> vw_log W n' k)"

text \<open>
  The network: its streams are in order; a new connection is a stream not in use, with nothing on it; a write that succeeds
  puts its request on the stream; a read takes the next bytes off it; time passing changes no stream; and no request is too
  large to be framed.
\<close>

definition net_connects :: "'n env \<Rightarrow> 'n view \<Rightarrow> bool" where
  "net_connects env W \<longleftrightarrow>
     (\<forall>n a. case tr_connect env n a of (r, n') \<Rightarrow> others W {} n n' \<and>
        (\<forall>s. r = Inr s \<longrightarrow> s \<notin> vw_open W n \<and> s \<in> vw_open W n' \<and> vw_written W n' s = [] \<and> vw_delivered W n' s = []))"

definition net_writes :: "'n env \<Rightarrow> 'n view \<Rightarrow> bool" where
  "net_writes env W \<longleftrightarrow>
     (\<forall>n s bs lim. s \<in> vw_open W n \<longrightarrow> (case write_all env n s bs lim of (r, n') \<Rightarrow> others W {s} n n' \<and>
        (r = Inr () \<longrightarrow> vw_delivered W n' s = vw_delivered W n s \<and> prefix (vw_replies W n s) (vw_replies W n' s) \<and>
           (\<forall>p rq. sent_as (env_codec env) p rq bs \<longrightarrow> vw_written W n' s = vw_written W n s @ [(p, rq)]))))"

definition net_reads :: "'n env \<Rightarrow> 'n view \<Rightarrow> bool" where
  "net_reads env W \<longleftrightarrow>
     (\<forall>n s want lim. s \<in> vw_open W n \<longrightarrow> (case read_some env n s want lim of (r, n') \<Rightarrow> others W {s} n n' \<and>
        (\<forall>bs. r = Inr bs \<longrightarrow> vw_written W n' s = vw_written W n s \<and> prefix (vw_replies W n s) (vw_replies W n' s) \<and>
           vw_delivered W n' s = vw_delivered W n s @ bs)))"

definition net_waits :: "'n env \<Rightarrow> 'n view \<Rightarrow> bool" where
  "net_waits env W \<longleftrightarrow> (\<forall>n d. others W {} n (tr_sleep env n d)) \<and> (\<forall>n. others W {} n (snd (nonce_parts env n)))"

definition net_fits :: "codec \<Rightarrow> bool" where
  "net_fits cd \<longleftrightarrow> (\<forall>hd rq v h b. cd_header cd hd = Inr h \<longrightarrow> cd_body cd rq v = Inr b \<longrightarrow> int (length (h @ b)) \<le> i32_max)"

definition kafka_network ::
  "'n env \<Rightarrow> 'n view \<Rightarrow> ('n \<Rightarrow> produce_request \<Rightarrow> produce_response \<Rightarrow> bool) \<Rightarrow> bool" where
  "kafka_network env W Q \<longleftrightarrow>
     (\<forall>n s. s \<in> vw_open W n \<longrightarrow> stream_ok (env_codec env) W Q n s) \<and>
     net_connects env W \<and> net_writes env W \<and> net_reads env W \<and> net_waits env W \<and> net_fits (env_codec env)"

lemma others_refl [simp]: "others W S n n"
  by (simp add: others_def same_stream_def)

lemma same_stream_trans: "same_stream W n n1 s \<Longrightarrow> same_stream W n1 n2 s \<Longrightarrow> same_stream W n n2 s"
  unfolding same_stream_def by (auto intro: prefix_order.order_trans)

lemma others_trans: "others W S n n1 \<Longrightarrow> others W S n1 n2 \<Longrightarrow> others W S n n2"
  unfolding others_def by (meson DiffD1 DiffD2 DiffI same_stream_trans subsetD subset_trans)

lemma others_fresh: "others W {} n n1 \<Longrightarrow> others W {s} n1 n2 \<Longrightarrow> s \<notin> vw_open W n \<Longrightarrow> others W {} n n2"
  unfolding others_def by (metis DiffD1 DiffI Diff_empty empty_iff insert_iff same_stream_trans subsetD subset_trans)

lemma others_wider: "others W {} n n1 \<Longrightarrow> others W S n n1"
  unfolding others_def by blast

section \<open>A connection in step with its stream\<close>

definition conn_ok :: "'n view \<Rightarrow> 'n \<Rightarrow> broker_conn \<Rightarrow> (pending \<times> api_request) list \<Rightarrow> bool" where
  "conn_ok W n b pend \<longleftrightarrow>
     bk_stream b \<in> vw_open W n \<and> in_flight_queue (bk_conn b) = map fst pend \<and>
     max_frame (decoder (bk_conn b)) = DEFAULT_MAX_FRAME \<and>
     (\<exists>sofar. vw_written W n (bk_stream b) = sofar @ pend \<and> length sofar \<le> length (vw_replies W n (bk_stream b)) \<and>
        vw_delivered W n (bk_stream b) =
          concat (map wire (take (length sofar) (vw_replies W n (bk_stream b)))) @ buf (decoder (bk_conn b)))"

lemma conn_ok_pending:
  assumes "conn_ok W n b pend" and "conn_ok W n b pend'"
  shows "pend = pend'"
proof -
  have "length pend = length pend'" using assms unfolding conn_ok_def by (metis length_map)
  with assms show ?thesis unfolding conn_ok_def by auto
qed

lemma conn_ok_others:
  assumes "conn_ok W n b pend" and "others W S n n'" and "bk_stream b \<notin> S"
  shows "conn_ok W n' b pend"
proof -
  have "bk_stream b \<in> vw_open W n'" and same: "same_stream W n n' (bk_stream b)"
    using assms unfolding conn_ok_def others_def by blast+
  obtain sofar where "vw_written W n (bk_stream b) = sofar @ pend" "length sofar \<le> length (vw_replies W n (bk_stream b))"
      "vw_delivered W n (bk_stream b) = concat (map wire (take (length sofar) (vw_replies W n (bk_stream b)))) @ buf (decoder (bk_conn b))"
    using assms(1) unfolding conn_ok_def by blast
  moreover from this same have "take (length sofar) (vw_replies W n' (bk_stream b)) = take (length sofar) (vw_replies W n (bk_stream b))"
    unfolding same_stream_def prefix_def by auto
  moreover have "length (vw_replies W n (bk_stream b)) \<le> length (vw_replies W n' (bk_stream b))"
    using same unfolding same_stream_def by (auto dest: prefix_length_le)
  ultimately show ?thesis using assms(1) same \<open>bk_stream b \<in> vw_open W n'\<close>
    unfolding conn_ok_def same_stream_def by auto
qed

text \<open>A prefix of a sequence of frames: the decoder finds the first one when it is there, and otherwise nothing.\<close>

lemma next_frame_prefix:
  assumes "prefix (buf d) (concat (map wire bodies))" and "list_all (frameable (max_frame d)) bodies"
  shows "next_frame d = (Inr None, d) \<or>
    (\<exists>body rest xs. bodies = body # rest \<and> buf d = wire body @ xs \<and> next_frame d = (Inr (Some body), d\<lparr>buf := xs\<rparr>))"
proof (cases bodies)
  case Nil
  then show ?thesis using assms by (simp add: next_frame_def)
next
  case (Cons body rest)
  then have fr: "frameable (max_frame d) body" using assms by simp
  obtain ys where ys: "buf d @ ys = wire body @ concat (map wire rest)" using assms(1) Cons by (auto simp: prefix_def)
  then consider xs where "buf d = wire body @ xs" | extra where "buf d @ extra = wire body" "extra \<noteq> []"
    by (metis append_Nil2 append_eq_append_conv2)
  then show ?thesis
  proof cases
    case 1
    then show ?thesis using next_frame_wire [OF 1 fr] Cons by blast
  next
    case 2
    then show ?thesis using next_frame_fragment [OF 2 fr] by blast
  qed
qed

lemma max_frame_small: "int DEFAULT_MAX_FRAME \<le> i32_max"
  by (simp add: DEFAULT_MAX_FRAME_def)

text \<open>What a connection in step finds in its buffer.\<close>

lemma next_response_step:
  assumes "conn_ok W n b pend" and "stream_ok cd W Q n (bk_stream b)"
  shows "next_response (cd_response_header cd) (cd_response_header_version cd) (bk_conn b) = (Inr None, bk_conn b) \<or>
    (\<exists>p rq ps rest c. pend = (p, rq) # ps \<and>
       next_response (cd_response_header cd) (cd_response_header_version cd) (bk_conn b) =
         (Inr (Some \<lparr>r_api_key = p_api_key p, r_version = p_version p, r_correlation_id = p_correlation_id p, r_body = rest\<rparr>), c) \<and>
       conn_ok W n (b\<lparr>bk_conn := c\<rparr>) ps \<and> decodable cd rq (p_version p) rest \<and>
       (\<forall>q resp. rq = ProduceRequest q \<longrightarrow> cd_produce cd (p_version p) rest = Inr resp \<longrightarrow> Q n q resp))"
proof -
  let ?s = "bk_stream b" and ?d = "decoder (bk_conn b)"
  let ?written = "vw_written W n ?s" and ?replies = "vw_replies W n ?s"
  obtain sofar where w: "?written = sofar @ pend" "length sofar \<le> length ?replies"
    and d: "vw_delivered W n ?s = concat (map wire (take (length sofar) ?replies)) @ buf ?d"
    using assms(1) unfolding conn_ok_def by blast
  have mx: "max_frame ?d = DEFAULT_MAX_FRAME" and q: "in_flight_queue (bk_conn b) = map fst pend"
    using assms(1) unfolding conn_ok_def by blast+
  have ok: "reply_ok cd Q n (?written ! i) (?replies ! i)" if "i < length ?replies" for i
    using assms(2) that unfolding stream_ok_def by blast
  have "concat (map wire ?replies) =
      concat (map wire (take (length sofar) ?replies)) @ concat (map wire (drop (length sofar) ?replies))"
    by (metis append_take_drop_id concat_append map_append)
  then have pre: "prefix (buf ?d) (concat (map wire (drop (length sofar) ?replies)))"
    using assms(2) unfolding stream_ok_def d by simp
  have fr: "list_all (frameable (max_frame ?d)) (drop (length sofar) ?replies)"
    unfolding list_all_length
  proof (intro allI impI)
    fix i assume i: "i < length (drop (length sofar) ?replies)"
    then have "length (?replies ! (length sofar + i)) \<le> DEFAULT_MAX_FRAME" using ok [of "length sofar + i"] by (simp add: reply_ok_def)
    then show "frameable (max_frame ?d) (drop (length sofar) ?replies ! i)"
      using i w(2) max_frame_small by (simp add: frameable_def mx)
  qed
  from next_frame_prefix [OF pre fr] consider "next_frame ?d = (Inr None, ?d)"
    | body rest xs where "drop (length sofar) ?replies = body # rest" "buf ?d = wire body @ xs"
        "next_frame ?d = (Inr (Some body), ?d\<lparr>buf := xs\<rparr>)" by blast
  then show ?thesis
  proof cases
    case 1
    then show ?thesis by (simp add: next_response_def)
  next
    case (2 body more xs)
    then have lt: "length sofar < length ?replies" and body: "?replies ! length sofar = body"
      by (metis drop_all leI list.distinct(1), metis drop_eq_Nil hd_drop_conv_nth leI list.distinct(1) list.sel(1))
    have "length ?replies \<le> length ?written" using assms(2) unfolding stream_ok_def by blast
    with lt w obtain p rq ps where pend: "pend = (p, rq) # ps" by (cases pend) auto
    then have "?written ! length sofar = (p, rq)" using w by simp
    then obtain rest where r: "cd_response_header cd (cd_response_header_version cd (p_api_key p) (p_version p)) body =
        Inr (p_correlation_id p, rest)" "decodable cd rq (p_version p) rest"
        "\<forall>q resp. rq = ProduceRequest q \<longrightarrow> cd_produce cd (p_version p) rest = Inr resp \<longrightarrow> Q n q resp"
      using ok [OF lt] body unfolding reply_ok_def by auto
    define c where "c = (bk_conn b)\<lparr>decoder := ?d\<lparr>buf := xs\<rparr>, in_flight_queue := map fst ps\<rparr>"
    have nr: "next_response (cd_response_header cd) (cd_response_header_version cd) (bk_conn b) =
        (Inr (Some \<lparr>r_api_key = p_api_key p, r_version = p_version p, r_correlation_id = p_correlation_id p, r_body = rest\<rparr>), c)"
      using 2(3) q r(1) by (simp add: next_response_def pend c_def)
    have "take (Suc (length sofar)) ?replies = take (length sofar) ?replies @ [body]"
      using lt body by (simp add: take_Suc_conv_app_nth)
    then have "conn_ok W n (b\<lparr>bk_conn := c\<rparr>) ps"
      using assms(1) lt w pend d 2(2) mx unfolding conn_ok_def
      by (auto simp: c_def intro!: exI [of _ "sofar @ [(p, rq)]"])
    then show ?thesis using nr pend r by blast
  qed
qed

lemma read_some_error: "fst (read_some env n s want lim) = Inl e \<Longrightarrow> (\<exists>m. e = Io m) \<or> (\<exists>op a. e = Timeout op a)"
  by (auto simp: read_some_def split: option.splits prod.splits sum.splits)

lemma write_all_error: "fst (write_all env n s bs lim) = Inl e \<Longrightarrow> (\<exists>m. e = Io m) \<or> (\<exists>op a. e = Timeout op a)"
  by (auto simp: write_all_def split: option.splits prod.splits sum.splits)

definition lost :: "client_error \<Rightarrow> bool" where
  "lost e \<longleftrightarrow> (\<exists>m. e = Io m) \<or> (\<exists>op a. e = Timeout op a)"

lemma network_stream: "kafka_network env W Q \<Longrightarrow> s \<in> vw_open W n \<Longrightarrow> stream_ok (env_codec env) W Q n s"
  by (simp add: kafka_network_def)

lemma network_read:
  assumes "kafka_network env W Q" and "s \<in> vw_open W n" and "read_some env n s want lim = (r, n')"
  shows "others W {s} n n'" and "r = Inr bs \<Longrightarrow> vw_written W n' s = vw_written W n s \<and>
    prefix (vw_replies W n s) (vw_replies W n' s) \<and> vw_delivered W n' s = vw_delivered W n s @ bs"
proof -
  have "case read_some env n s want lim of (r, n') \<Rightarrow> others W {s} n n' \<and>
      (\<forall>bs. r = Inr bs \<longrightarrow> vw_written W n' s = vw_written W n s \<and> prefix (vw_replies W n s) (vw_replies W n' s) \<and>
         vw_delivered W n' s = vw_delivered W n s @ bs)"
    using assms(1,2) by (simp add: kafka_network_def net_reads_def)
  then show "others W {s} n n'" and "r = Inr bs \<Longrightarrow> vw_written W n' s = vw_written W n s \<and>
    prefix (vw_replies W n s) (vw_replies W n' s) \<and> vw_delivered W n' s = vw_delivered W n s @ bs"
    using assms(3) by simp_all
qed

lemma network_write:
  assumes "kafka_network env W Q" and "s \<in> vw_open W n" and "write_all env n s bs lim = (r, n')"
  shows "others W {s} n n'" and "r = Inr () \<Longrightarrow> sent_as (env_codec env) p rq bs \<Longrightarrow>
    vw_written W n' s = vw_written W n s @ [(p, rq)] \<and>
    prefix (vw_replies W n s) (vw_replies W n' s) \<and> vw_delivered W n' s = vw_delivered W n s"
proof -
  have "case write_all env n s bs lim of (r, n') \<Rightarrow> others W {s} n n' \<and>
      (r = Inr () \<longrightarrow> vw_delivered W n' s = vw_delivered W n s \<and> prefix (vw_replies W n s) (vw_replies W n' s) \<and>
         (\<forall>p rq. sent_as (env_codec env) p rq bs \<longrightarrow> vw_written W n' s = vw_written W n s @ [(p, rq)]))"
    using assms(1,2) by (simp add: kafka_network_def net_writes_def)
  then show "others W {s} n n'" and "r = Inr () \<Longrightarrow> sent_as (env_codec env) p rq bs \<Longrightarrow>
    vw_written W n' s = vw_written W n s @ [(p, rq)] \<and>
    prefix (vw_replies W n s) (vw_replies W n' s) \<and> vw_delivered W n' s = vw_delivered W n s"
    using assms(3) by simp_all
qed

lemma conn_ok_push:
  assumes "conn_ok W n b pend" and "others W {bk_stream b} n n'"
    and "vw_written W n' (bk_stream b) = vw_written W n (bk_stream b)"
    and "prefix (vw_replies W n (bk_stream b)) (vw_replies W n' (bk_stream b))"
    and "vw_delivered W n' (bk_stream b) = vw_delivered W n (bk_stream b) @ bs"
  shows "conn_ok W n' (b\<lparr>bk_conn := push_bytes (bk_conn b) bs\<rparr>) pend"
proof -
  obtain sofar where so: "vw_written W n (bk_stream b) = sofar @ pend" "length sofar \<le> length (vw_replies W n (bk_stream b))"
      "vw_delivered W n (bk_stream b) = concat (map wire (take (length sofar) (vw_replies W n (bk_stream b)))) @ buf (decoder (bk_conn b))"
    using assms(1) unfolding conn_ok_def by blast
  moreover have "take (length sofar) (vw_replies W n' (bk_stream b)) = take (length sofar) (vw_replies W n (bk_stream b))"
    using assms(4) so(2) unfolding prefix_def by auto
  moreover have "length sofar \<le> length (vw_replies W n' (bk_stream b))" using so(2) assms(4) by (auto dest: prefix_length_le)
  moreover have "bk_stream b \<in> vw_open W n'" using assms(1,2) unfolding conn_ok_def others_def by blast
  ultimately show ?thesis using assms unfolding conn_ok_def
    by (auto simp: push_bytes_def push_def intro!: exI [of _ sofar])
qed

text \<open>
  A receive on a connection in step hands out the answer to the oldest outstanding request, or loses the
  connection; with nothing outstanding it can only lose it.
\<close>

lemma recv_ok:
  assumes "kafka_network env W Q" and "conn_ok W n b pend"
    and "\<forall>p rq ps. pend = (p, rq) # ps \<longrightarrow> reads (env_codec env) dec rq"
    and "broker_recv env dec lim n b = (r, b', n')"
  shows "others W {bk_stream b} n n' \<and> bk_stream b' = bk_stream b \<and>
    (case r of
       Inl e \<Rightarrow> lost e
     | Inr resp \<Rightarrow> \<exists>p rq ps rest. pend = (p, rq) # ps \<and> conn_ok W n' b' ps \<and> dec (p_version p) rest = Inr resp \<and>
         (\<forall>q resp. rq = ProduceRequest q \<longrightarrow> cd_produce (env_codec env) (p_version p) rest = Inr resp \<longrightarrow> Q n' q resp))"
  using assms
proof (induction env dec lim n b rule: broker_recv.induct)
  case (1 env dec lim n b)
  note net = "1.prems"(1) and ok = "1.prems"(2) and rd = "1.prems"(3) and run = "1.prems"(4)
  let ?cd = "env_codec env"
  have op: "bk_stream b \<in> vw_open W n" using ok unfolding conn_ok_def by blast
  from next_response_step [OF ok network_stream [OF net op]]
  consider "next_response (cd_response_header ?cd) (cd_response_header_version ?cd) (bk_conn b) = (Inr None, bk_conn b)"
    | p rq ps rest c where "pend = (p, rq) # ps"
       "next_response (cd_response_header ?cd) (cd_response_header_version ?cd) (bk_conn b) =
         (Inr (Some \<lparr>r_api_key = p_api_key p, r_version = p_version p, r_correlation_id = p_correlation_id p, r_body = rest\<rparr>), c)"
       "conn_ok W n (b\<lparr>bk_conn := c\<rparr>) ps" "decodable ?cd rq (p_version p) rest"
       "\<forall>q resp. rq = ProduceRequest q \<longrightarrow> cd_produce ?cd (p_version p) rest = Inr resp \<longrightarrow> Q n q resp" by blast
  then show ?case
  proof cases
    case none: 1
    obtain x n1 where x: "read_some env n (bk_stream b) (min (max (conn_needed (bk_conn b)) (16 * 1024)) MAX_READ) lim = (x, n1)"
      by fastforce
    note ot = network_read(1) [OF net op x]
    show ?thesis
    proof (cases x)
      case (Inl e)
      then have "lost e" using read_some_error [of env n] x unfolding lost_def by (metis fst_conv)
      then show ?thesis using run none x Inl ot by (auto simp: broker_recv.simps [of env])
    next
      case (Inr bs)
      show ?thesis
      proof (cases "bs = []")
        case True
        then show ?thesis using run none x Inr ot by (auto simp: broker_recv.simps [of env] lost_def)
      next
        case False
        let ?b = "b\<lparr>bk_conn := push_bytes (bk_conn b) bs\<rparr>"
        have step: "broker_recv env dec lim n1 ?b = (r, b', n')"
          using run none x Inr False by (simp add: broker_recv.simps [of env dec lim n b])
        have "conn_ok W n1 ?b pend" using conn_ok_push [OF ok ot] network_read(2) [OF net op x Inr] by blast
        from "1.IH" [OF none [symmetric] refl refl refl refl x [symmetric] Inr False net _ rd] this step
        have "others W {bk_stream ?b} n1 n' \<and> bk_stream b' = bk_stream ?b \<and>
          (case r of
             Inl e \<Rightarrow> lost e
           | Inr resp \<Rightarrow> \<exists>p rq ps rest. pend = (p, rq) # ps \<and> conn_ok W n' b' ps \<and> dec (p_version p) rest = Inr resp \<and>
               (\<forall>q resp. rq = ProduceRequest q \<longrightarrow> cd_produce ?cd (p_version p) rest = Inr resp \<longrightarrow> Q n' q resp))"
          by simp
        then show ?thesis using others_trans [OF ot] by simp
      qed
    qed
  next
    case (2 p rq ps rest c)
    obtain resp where resp: "dec (p_version p) rest = Inr resp"
      using rd 2 unfolding reads_def by blast
    then have "r = Inr resp" "b' = b\<lparr>bk_conn := c\<rparr>" "n' = n"
      using run 2(2) by (simp_all add: broker_recv.simps [of env] decode_response_def)
    then show ?thesis using 2 resp by auto
  qed
qed

lemma request_sends:
  assumes "net_fits cd" and "request (cd_header cd) (cd_body cd rq) c (api_key_of rq) v = (r, c')"
  shows "case r of
     Inl e \<Rightarrow> c' = c\<lparr>next_correlation_id := next_correlation_id c'\<rparr>
   | Inr bs \<Rightarrow> \<exists>p. sent_as cd p rq bs \<and> c' = c\<lparr>next_correlation_id := next_correlation_id c', in_flight_queue := in_flight_queue c @ [p]\<rparr>"
proof -
  let ?id = "wrap32 (next_correlation_id c + 1)"
  let ?h = "\<lparr>request_api_key = api_key_of rq, request_api_version = v, correlation_id = ?id, header_client_id = Some (client_id c)\<rparr>"
  let ?p = "\<lparr>p_api_key = api_key_of rq, p_version = v, p_correlation_id = ?id\<rparr>"
  show ?thesis
  proof (cases "cd_header cd ?h")
    case (Inl e)
    then show ?thesis using assms(2) by (auto simp: request_def Let_def)
  next
    case h: (Inr h)
    show ?thesis
    proof (cases "cd_body cd rq v")
      case (Inl e)
      then show ?thesis using assms(2) h by (auto simp: request_def Let_def)
    next
      case (Inr b)
      have "int (length (h @ b)) \<le> i32_max" using assms(1) h Inr unfolding net_fits_def by blast
      then have f: "frame (h @ b) = Inr (wire (h @ b))" by (simp add: frame_wire)
      then have "r = Inr (wire (h @ b))" "c' = c\<lparr>next_correlation_id := ?id, in_flight_queue := in_flight_queue c @ [?p]\<rparr>"
        using assms(2) h Inr by (auto simp: request_def Let_def)
      moreover have "sent_as cd ?p rq (wire (h @ b))"
        using h Inr f unfolding sent_as_def by (intro exI [of _ "client_id c"]) simp
      ultimately show ?thesis by (auto intro!: exI [of _ ?p])
    qed
  qed
qed

lemma send_ok:
  assumes "kafka_network env W Q" and "conn_ok W n b pend" and "broker_send env rq v lim n b = (r, b', n')"
  shows "others W {bk_stream b} n n' \<and> bk_stream b' = bk_stream b \<and> bk_versions b' = bk_versions b \<and>
    (case r of
       Inl e \<Rightarrow> lost e \<or> conn_ok W n' b' pend \<and> n' = n
     | Inr _ \<Rightarrow> \<exists>p. conn_ok W n' b' (pend @ [(p, rq)]))"
proof -
  let ?v = "negotiated b (api_key_of rq) v"
  have op: "bk_stream b \<in> vw_open W n" using assms(2) unfolding conn_ok_def by blast
  obtain x c where x: "request (cd_header (env_codec env)) (cd_body (env_codec env) rq) (bk_conn b) (api_key_of rq) ?v = (x, c)"
    by fastforce
  have "net_fits (env_codec env)" using assms(1) by (simp add: kafka_network_def)
  note rs = request_sends [OF this x]
  show ?thesis
  proof (cases x)
    case (Inl e)
    then obtain i where c: "c = (bk_conn b)\<lparr>next_correlation_id := i\<rparr>" using rs by auto
    have "r = Inl (Core e)" "b' = b\<lparr>bk_conn := c\<rparr>" "n' = n" using assms(3) x Inl by (simp_all add: broker_send_def)
    moreover have "conn_ok W n (b\<lparr>bk_conn := c\<rparr>) pend" using assms(2) by (simp add: conn_ok_def c)
    ultimately show ?thesis by simp
  next
    case (Inr bs)
    then obtain p i where p: "sent_as (env_codec env) p rq bs"
        "c = (bk_conn b)\<lparr>next_correlation_id := i, in_flight_queue := in_flight_queue (bk_conn b) @ [p]\<rparr>" using rs by auto
    obtain y n1 where w: "write_all env n (bk_stream b) bs lim = (y, n1)" by fastforce
    note nw = network_write [OF assms(1) op w]
    have res: "r = y" "b' = b\<lparr>bk_conn := c\<rparr>" "n' = n1" using assms(3) x Inr w by (simp_all add: broker_send_def)
    show ?thesis
    proof (cases y)
      case (Inl e)
      then have "lost e" using write_all_error [of env n] w unfolding lost_def by (metis fst_conv)
      then show ?thesis using res nw(1) Inl by simp
    next
      case (Inr u)
      have st: "vw_written W n1 (bk_stream b) = vw_written W n (bk_stream b) @ [(p, rq)] \<and>
          prefix (vw_replies W n (bk_stream b)) (vw_replies W n1 (bk_stream b)) \<and>
          vw_delivered W n1 (bk_stream b) = vw_delivered W n (bk_stream b)"
        using nw(2) p(1) Inr by simp
      obtain sofar where so: "vw_written W n (bk_stream b) = sofar @ pend" "length sofar \<le> length (vw_replies W n (bk_stream b))"
          "vw_delivered W n (bk_stream b) = concat (map wire (take (length sofar) (vw_replies W n (bk_stream b)))) @ buf (decoder (bk_conn b))"
        using assms(2) unfolding conn_ok_def by blast
      have "take (length sofar) (vw_replies W n1 (bk_stream b)) = take (length sofar) (vw_replies W n (bk_stream b))"
        using st so(2) unfolding prefix_def by auto
      moreover have "length sofar \<le> length (vw_replies W n1 (bk_stream b))" using so(2) st by (auto dest: prefix_length_le)
      moreover have "bk_stream b \<in> vw_open W n1" using op nw(1) unfolding others_def by blast
      ultimately have "conn_ok W n1 (b\<lparr>bk_conn := c\<rparr>) (pend @ [(p, rq)])"
        using assms(2) st so unfolding conn_ok_def by (auto simp: p(2) intro!: exI [of _ sofar])
      then show ?thesis using res nw(1) Inr by auto
    qed
  qed
qed

lemma in_flight_pending: "conn_ok W n b pend \<Longrightarrow> bk_in_flight b = length pend"
  by (simp add: conn_ok_def bk_in_flight_def in_flight_def)

lemma call_ok:
  assumes "kafka_network env W Q" and "conn_ok W n b pend" and "reads (env_codec env) dec rq"
    and "broker_call env dec rq v lim n b = (r, b', n')"
  shows "others W {bk_stream b} n n' \<and> bk_stream b' = bk_stream b \<and>
    (case r of
       Inl e \<Rightarrow> lost e \<or> conn_ok W n' b' pend \<and> n' = n
     | Inr _ \<Rightarrow> pend = [] \<and> conn_ok W n' b' [])"
proof (cases "bk_in_flight b = 0")
  case True
  then have pend: "pend = []" using in_flight_pending [OF assms(2)] by simp
  obtain x b1 n1 where s: "broker_send env rq v lim n b = (x, b1, n1)" by (metis surj_pair)
  note so = send_ok [OF assms(1,2) s]
  show ?thesis
  proof (cases x)
    case (Inl e)
    then show ?thesis using so assms(4) True s by (auto simp: broker_call_def)
  next
    case (Inr u)
    then obtain p where p: "conn_ok W n1 b1 [(p, rq)]" using so pend by auto
    have run: "broker_recv env dec lim n1 b1 = (r, b', n')" using assms(4) True s Inr by (simp add: broker_call_def)
    have "others W {bk_stream b1} n1 n' \<and> bk_stream b' = bk_stream b1 \<and>
      (case r of
         Inl e \<Rightarrow> lost e
       | Inr resp \<Rightarrow> \<exists>p' rq' ps rest. [(p, rq)] = (p', rq') # ps \<and> conn_ok W n' b' ps \<and> dec (p_version p') rest = Inr resp \<and>
           (\<forall>q resp. rq' = ProduceRequest q \<longrightarrow> cd_produce (env_codec env) (p_version p') rest = Inr resp \<longrightarrow> Q n' q resp))"
      by (rule recv_ok [OF assms(1) p _ run]) (use assms(3) in simp)
    then show ?thesis using so pend others_trans by (auto split: sum.splits)
  qed
next
  case False
  then show ?thesis using assms(2,4) by (auto simp: broker_call_def)
qed

section \<open>Opening connections\<close>

lemma reads_own [simp]:
  "reads cd (cd_api_versions cd) (ApiVersionsRequest x y)" "reads cd (cd_sasl_handshake cd) (SaslHandshakeRequest m)"
  "reads cd (cd_sasl_authenticate cd) (SaslAuthenticateRequest bs)" "reads cd (cd_metadata cd) (MetadataRequest ts au)"
  "reads cd (cd_find_coordinator cd) (FindCoordinatorRequest k kind)" "reads cd (cd_produce cd) (ProduceRequest q)"
  "reads cd (cd_coordinator cd) (CoordinatorRequest crq)"
  by (simp_all add: reads_def)

text \<open>What opening does to its own stream: it stays in step, or is given up.\<close>

definition stays :: "'n view \<Rightarrow> 'n \<Rightarrow> broker_conn \<Rightarrow> (client_error + 'a) \<times> broker_conn \<times> 'n \<Rightarrow> bool" where
  "stays W n b res \<longleftrightarrow> (case res of (r, b', n') \<Rightarrow>
     others W {bk_stream b} n n' \<and> bk_stream b' = bk_stream b \<and> (\<forall>x. r = Inr x \<longrightarrow> conn_ok W n' b' []))"

lemma stays_call:
  assumes "kafka_network env W Q" and "conn_ok W n b []" and "reads (env_codec env) dec rq"
  shows "stays W n b (broker_call env dec rq v lim n b)"
proof -
  obtain r b' n' where c: "broker_call env dec rq v lim n b = (r, b', n')" by (metis surj_pair)
  from call_ok [OF assms c] show ?thesis by (cases r) (auto simp: stays_def c)
qed

lemma stays_bind:
  assumes "stays W n b (r, b1, n1)" and "\<And>x. r = Inr x \<Longrightarrow> conn_ok W n1 b1 [] \<Longrightarrow> stays W n1 b1 (f x b1 n1)"
    and "\<And>e. r = Inl e \<Longrightarrow> res = (Inl (g e), b1, n1)" and "\<And>x. r = Inr x \<Longrightarrow> res = f x b1 n1"
  shows "stays W n b res"
proof (cases r)
  case (Inl e)
  then show ?thesis using assms(1,3) by (simp add: stays_def)
next
  case (Inr x)
  obtain r2 b2 n2 where f: "f x b1 n1 = (r2, b2, n2)" by (metis surj_pair)
  have "stays W n1 b1 (r2, b2, n2)" using assms(1,2) Inr f unfolding stays_def by auto
  then show ?thesis using assms(1) assms(4) [OF Inr] f others_trans unfolding stays_def by auto
qed

lemma stays_done: "conn_ok W n b [] \<Longrightarrow> stays W n b (r, b, n)"
  by (simp add: stays_def)

lemma stays_exchange:
  assumes "kafka_network env W Q" and "conn_ok W n b []"
  shows "stays W n b (sasl_exchange env bs n b)"
proof -
  obtain r b1 n1 where c: "broker_call env (cd_sasl_authenticate (env_codec env)) (SaslAuthenticateRequest bs) 1 None n b = (r, b1, n1)"
    by (metis surj_pair)
  have s: "stays W n b (r, b1, n1)" using stays_call [OF assms, of "cd_sasl_authenticate (env_codec env)"] c by (metis reads_own(3))
  show ?thesis
    by (rule stays_bind [OF s, where f = "\<lambda>(code, message, auth_bytes) b1 n1.
          (if code \<noteq> 0 then Inl (Sasl (case message of None \<Rightarrow> ''authentication failed'' | Some m \<Rightarrow> m)) else Inr auth_bytes, b1, n1)"
        and g = "\<lambda>e. e"])
       (auto simp: sasl_exchange_def c stays_done split: prod.splits)
qed

lemma stays_wait:
  assumes "conn_ok W n b []" and "others W {} n n0" and "\<And>b. conn_ok W n0 b [] \<Longrightarrow> stays W n0 b (f n0 b)"
  shows "stays W n b (f n0 b)"
proof -
  have "stays W n0 b (f n0 b)" using assms(3) conn_ok_others [OF assms(1,2)] by simp
  then show ?thesis using others_trans [OF others_wider [OF assms(2)]] by (auto simp: stays_def split: prod.splits)
qed

lemma stays_scram:
  assumes net: "kafka_network env W Q" and "conn_ok W n b []"
  shows "stays W n b (scram_authenticate env cred n b)"
proof -
  obtain parts n0 where np: "nonce_parts env n = (parts, n0)" by fastforce
  have ot: "others W {} n n0" using net np unfolding kafka_network_def net_waits_def by (metis snd_conv)
  obtain sx first where st: "scram_start cred (scram_nonce parts) = (sx, first)" by fastforce
  have "stays W n0 b (scram_authenticate env cred n b)" if ok: "conn_ok W n0 b []" for b
  proof -
    obtain r b1 n1 where e: "sasl_exchange env first n0 b = (r, b1, n1)" by (metis surj_pair)
    have s: "stays W n0 b (r, b1, n1)" using stays_exchange [OF net ok] e by metis
    show ?thesis
    proof (rule stays_bind [OF s, where f = "\<lambda>sf b1 n1.
        (case client_final (env_crypto env) sx sf of
             (Inl e, sx1) \<Rightarrow> (Inl (Sasl (sasl_error_text e)), b1, n1)
           | (Inr msg, sx1) \<Rightarrow>
               (case sasl_exchange env msg n1 b1 of
                  (Inl e, b2, n2) \<Rightarrow> (Inl e, b2, n2)
                | (Inr server_final, b2, n2) \<Rightarrow>
                    (case verify (env_crypto env) sx1 server_final of
                       Inl e \<Rightarrow> (Inl (Sasl (sasl_error_text e)), b2, n2)
                     | Inr _ \<Rightarrow> (Inr (), b2, n2))))" and g = "\<lambda>e. e"], goal_cases)
      case (1 sf)
      obtain y sx1 where y: "client_final (env_crypto env) sx sf = (y, sx1)" by fastforce
      show ?case
      proof (cases y)
        case (Inl e)
        then show ?thesis using y 1 by (simp add: stays_done)
      next
        case (Inr msg)
        obtain r2 b2 n2 where e2: "sasl_exchange env msg n1 b1 = (r2, b2, n2)" by (metis surj_pair)
        have s2: "stays W n1 b1 (r2, b2, n2)" using stays_exchange [OF net 1(2)] e2 by metis
        show ?thesis
          by (rule stays_bind [OF s2, where f = "\<lambda>fin b2 n2. (case verify (env_crypto env) sx1 fin of
                 Inl e \<Rightarrow> (Inl (Sasl (sasl_error_text e)), b2, n2) | Inr _ \<Rightarrow> (Inr (), b2, n2))" and g = "\<lambda>e. e"])
             (auto simp: y Inr e2 stays_done split: sum.splits)
      qed
    qed (simp_all add: scram_authenticate_def np st e)
  qed
  from stays_wait [OF assms(2) ot this] show ?thesis by simp
qed

lemma stays_authenticate:
  assumes net: "kafka_network env W Q" and ok: "conn_ok W n b []"
  shows "stays W n b (authenticate env cred n b)"
proof -
  obtain r b1 n1 where c: "broker_call env (cd_sasl_handshake (env_codec env))
      (SaslHandshakeRequest (mechanism_name (mechanism cred))) 1 None n b = (r, b1, n1)" by (metis surj_pair)
  have s: "stays W n b (r, b1, n1)" using stays_call [OF assms, of "cd_sasl_handshake (env_codec env)"] c by (metis reads_own(2))
  show ?thesis
  proof (cases r)
    case (Inl e)
    then show ?thesis using s by (simp add: authenticate_def c stays_def)
  next
    case (Inr x)
    obtain code offered where x: "x = (code, offered)" by (cases x)
    have ok1: "conn_ok W n1 b1 []" using s Inr by (simp add: stays_def)
    have s1: "stays W n1 b1 (authenticate env cred n b)"
    proof (cases "code = 0")
      case False
      then show ?thesis using ok1 by (simp add: authenticate_def c Inr x stays_done)
    next
      case True
      obtain r2 b2 n2 where e: "sasl_exchange env (plain_message cred) n1 b1 = (r2, b2, n2)" by (metis surj_pair)
      have pl: "stays W n1 b1 (r2, b2, n2)" using stays_exchange [OF net ok1] e by metis
      have eq: "authenticate env cred n b = (case mechanism cred of
          Plain \<Rightarrow> (case r2 of Inl e \<Rightarrow> (Inl e, b2, n2) | Inr _ \<Rightarrow> (Inr (), b2, n2))
        | _ \<Rightarrow> scram_authenticate env cred n1 b1)"
        unfolding authenticate_def c Inr x using True e by (simp split: sum.splits sasl_mechanism.splits)
      show ?thesis
      proof (cases "mechanism cred")
        case Plain
        then show ?thesis using pl by (cases r2) (simp_all add: eq stays_def)
      qed (use stays_scram [OF net ok1] in \<open>simp_all add: eq\<close>)
    qed
    then show ?thesis using s others_trans by (auto simp: stays_def split: prod.splits)
  qed
qed

lemma conn_ok_versions [simp]: "conn_ok W n (b\<lparr>bk_versions := vs\<rparr>) pend = conn_ok W n b pend"
  by (simp add: conn_ok_def)

lemma connect_ok:
  assumes net: "kafka_network env W Q" and run: "broker_connect env a cid cred n = (r, n')"
  shows "others W {} n n' \<and> (\<forall>b. r = Inr b \<longrightarrow> bk_stream b \<notin> vw_open W n \<and> conn_ok W n' b [])"
proof -
  obtain x n1 where c: "tr_connect env n a = (x, n1)" by fastforce
  have "case tr_connect env n a of (r, n') \<Rightarrow> others W {} n n' \<and>
        (\<forall>s. r = Inr s \<longrightarrow> s \<notin> vw_open W n \<and> s \<in> vw_open W n' \<and> vw_written W n' s = [] \<and> vw_delivered W n' s = [])"
    using net by (simp add: kafka_network_def net_connects_def)
  then have nc: "others W {} n n1 \<and> (\<forall>s. x = Inr s \<longrightarrow> s \<notin> vw_open W n \<and> s \<in> vw_open W n1 \<and>
      vw_written W n1 s = [] \<and> vw_delivered W n1 s = [])"
    using c by simp
  show ?thesis
  proof (cases x)
    case (Inl e)
    then show ?thesis using run c nc by (auto simp: broker_connect_def)
  next
    case (Inr s)
    let ?b = "\<lparr>bk_stream = s, bk_conn = new_connection cid, bk_versions = []\<rparr>"
    have ok0: "conn_ok W n1 ?b []" using nc Inr
      by (simp add: conn_ok_def new_connection_def default_decoder_def new_decoder_def)
    obtain y b1 n2 where y: "broker_call env (cd_api_versions (env_codec env)) (ApiVersionsRequest cid ''0.0.1'') 3 None n1 ?b = (y, b1, n2)"
      by (metis surj_pair)
    have s1: "stays W n1 ?b (y, b1, n2)" using stays_call [OF net ok0, of "cd_api_versions (env_codec env)"] y by (metis reads_own(1))
    have o2: "others W {} n n2" using others_fresh [of W n n1 s n2] nc Inr s1 by (simp add: stays_def)
    show ?thesis
    proof (cases y)
      case (Inl e)
      then show ?thesis using run c Inr y o2 by (auto simp: broker_connect_def \<open>x = Inr s\<close>)
    next
      case (Inr z)
      obtain code apis where z: "z = (code, apis)" by (cases z)
      let ?b2 = "learn_versions b1 apis"
      have ok2: "conn_ok W n2 ?b2 []" and st: "bk_stream ?b2 = s"
        using s1 Inr by (simp_all add: stays_def learn_versions_def)
      show ?thesis
      proof (cases "check ''ApiVersions'' code")
        case (Inl e)
        then show ?thesis using run c \<open>x = Inr s\<close> y Inr z o2 by (auto simp: broker_connect_def)
      next
        case ch: (Inr u)
        show ?thesis
        proof (cases cred)
          case None
          then have "r = Inr ?b2" "n' = n2" using run c \<open>x = Inr s\<close> y Inr z ch by (simp_all add: broker_connect_def Let_def)
          then show ?thesis using ok2 st o2 nc \<open>x = Inr s\<close> by simp
        next
          case (Some k)
          obtain t b3 n3 where t: "authenticate env k n2 ?b2 = (t, b3, n3)" by (metis surj_pair)
          have "stays W n2 ?b2 (t, b3, n3)" using stays_authenticate [OF net ok2] t by metis
          moreover from this have "others W {} n n3" using others_fresh [OF o2, of s n3] nc \<open>x = Inr s\<close> st by (simp add: stays_def)
          moreover have "(r, n') = (case t of Inl e \<Rightarrow> (Inl e, n3) | Inr _ \<Rightarrow> (Inr b3, n3))"
            using run c \<open>x = Inr s\<close> y Inr z ch Some t by (auto simp: broker_connect_def Let_def split: sum.splits)
          ultimately show ?thesis using st nc \<open>x = Inr s\<close> by (auto simp: stays_def split: sum.splits)
        qed
      qed
    qed
  qed
qed

end
