(* ===== verification/Wire_Pool.thy ===== *)
theory Wire_Pool
  imports Wire
begin

text \<open>
  The connection pool of \<open>Cluster\<close> over a network whose brokers answer in order: what every operation the
  producer calls does to the answers outstanding on each connection.
\<close>

section \<open>The pool\<close>

text \<open>The produce requests among those outstanding.\<close>

fun produces :: "(pending \<times> api_request) list \<Rightarrow> produce_request list" where
  "produces [] = []"
| "produces ((p, ProduceRequest q) # ps) = q # produces ps"
| "produces (_ # ps) = produces ps"

definition only_produces :: "(pending \<times> api_request) list \<Rightarrow> bool" where
  "only_produces pend \<longleftrightarrow> snd ` set pend \<subseteq> range ProduceRequest"

text \<open>
  A pool in step: every connection is, carries nothing but produce requests, and has a stream of its own.
\<close>

definition conns_ok :: "'n view \<Rightarrow> 'n \<Rightarrow> (string, broker_conn) btree \<Rightarrow> bool" where
  "conns_ok W n m \<longleftrightarrow>
     (\<forall>a b. bt_get m a = Some b \<longrightarrow> (\<exists>pend. conn_ok W n b pend \<and> only_produces pend)) \<and>
     (\<forall>a b a' b'. bt_get m a = Some b \<longrightarrow> bt_get m a' = Some b' \<longrightarrow> bk_stream b = bk_stream b' \<longrightarrow> a = a')"

definition pool_ok :: "'n view \<Rightarrow> 'n cluster \<Rightarrow> bool" where
  "pool_ok W c \<longleftrightarrow> conns_ok W (cl_net c) (cl_conns c)"

definition unread :: "'n view \<Rightarrow> 'n \<Rightarrow> broker_conn \<Rightarrow> produce_request list" where
  "unread W n b =
     (let w = vw_written W n (bk_stream b) in produces (drop (length w - bk_in_flight b) w))"

definition pool_unread :: "'n view \<Rightarrow> 'n cluster \<Rightarrow> string \<Rightarrow> produce_request list" where
  "pool_unread W c a = (case bt_get (cl_conns c) a of None \<Rightarrow> [] | Some b \<Rightarrow> unread W (cl_net c) b)"

definition pool_log :: "'n view \<Rightarrow> 'n cluster \<Rightarrow> partition_key \<Rightarrow> bytes set" where
  "pool_log W c = vw_log W (cl_net c)"

lemma produces_append [simp]: "produces (xs @ ys) = produces xs @ produces ys"
  by (induction xs rule: produces.induct) simp_all

lemma only_produces_simps [simp]:
  "only_produces []" "only_produces (xs @ ys) \<longleftrightarrow> only_produces xs \<and> only_produces ys"
  "only_produces ((p, rq) # ps) \<longleftrightarrow> rq \<in> range ProduceRequest \<and> only_produces ps"
  by (auto simp: only_produces_def)

lemma unread_pending:
  assumes "conn_ok W n b pend"
  shows "unread W n b = produces pend"
proof -
  obtain sofar where "vw_written W n (bk_stream b) = sofar @ pend" using assms unfolding conn_ok_def by blast
  then show ?thesis using in_flight_pending [OF assms] by (simp add: unread_def)
qed

lemma conns_okD:
  assumes "conns_ok W n m" and "bt_get m a = Some b"
  obtains pend where "conn_ok W n b pend" and "only_produces pend" and "unread W n b = produces pend"
proof -
  obtain pend where p: "conn_ok W n b pend" "only_produces pend" using assms unfolding conns_ok_def by meson
  then show thesis using that unread_pending [OF p(1)] by simp
qed

lemma unread_others:
  assumes "conn_ok W n b pend" and "others W S n n'" and "bk_stream b \<notin> S"
  shows "unread W n' b = unread W n b"
  using unread_pending [OF assms(1)] unread_pending [OF conn_ok_others [OF assms]] by simp

text \<open>Steps of the network that keep off the streams of a pool, and changes of one connection of it.\<close>

lemma conns_ok_others:
  assumes "conns_ok W n m" and "others W S n n'" and "\<And>a b. bt_get m a = Some b \<Longrightarrow> bk_stream b \<notin> S"
  shows "conns_ok W n' m" and "bt_get m a = Some b \<Longrightarrow> unread W n' b = unread W n b"
proof -
  have *: "conn_ok W n' b pend" if "bt_get m a = Some b" "conn_ok W n b pend" for a b pend
    using conn_ok_others [OF that(2) assms(2)] assms(3) [OF that(1)] by blast
  show "conns_ok W n' m" using assms(1) * unfolding conns_ok_def by meson
  show "unread W n' b = unread W n b" if "bt_get m a = Some b"
    using conns_okD [OF assms(1) that] unread_others [OF _ assms(2) assms(3) [OF that]] by metis
qed

lemma conns_ok_remove: "conns_ok W n m \<Longrightarrow> conns_ok W n (bt_remove a m)"
  unfolding conns_ok_def by (auto simp: bt_get_remove split: if_splits)

lemma conns_ok_insert:
  assumes "conns_ok W n (bt_remove a m)" and "conn_ok W n b pend" and "only_produces pend"
    and "\<And>a' b'. a' \<noteq> a \<Longrightarrow> bt_get m a' = Some b' \<Longrightarrow> bk_stream b' \<noteq> bk_stream b"
  shows "conns_ok W n (bt_insert a b m)"
proof -
  have get: "bt_get (bt_insert a b m) x = (if x = a then Some b else bt_get (bt_remove a m) x)" for x
    by (simp add: btree_simps)
  show ?thesis unfolding conns_ok_def
  proof (intro conjI allI impI)
    fix x b1 assume "bt_get (bt_insert a b m) x = Some b1"
    then show "\<exists>pend. conn_ok W n b1 pend \<and> only_produces pend"
      using assms(1-3) unfolding get conns_ok_def by (cases "x = a") (simp, metis, simp)
  next
    fix x b1 y b2
    assume xy: "bt_get (bt_insert a b m) x = Some b1" "bt_get (bt_insert a b m) y = Some b2" "bk_stream b1 = bk_stream b2"
    show "x = y"
    proof (cases "x = a \<or> y = a")
      case True
      then show ?thesis using xy assms(4) by (metis bt_get_insert option.inject)
    next
      case False
      then show ?thesis using xy assms(1) unfolding conns_ok_def get by simp
    qed
  qed
qed

lemma pool_others:
  assumes "pool_ok W c" and "others W {} (cl_net c) n'" and "cl_net c' = n'" and "cl_conns c' = cl_conns c"
  shows "pool_ok W c'" and "pool_unread W c' = pool_unread W c" and "log_le (pool_log W) c c'"
proof -
  note co = conns_ok_others [OF assms(1) [unfolded pool_ok_def] assms(2)]
  show "pool_ok W c'" using co(1) assms(3,4) by (simp add: pool_ok_def)
  show "pool_unread W c' = pool_unread W c"
    using co(2) assms(3,4) by (auto simp: pool_unread_def fun_eq_iff split: option.splits)
  show "log_le (pool_log W) c c'" using assms(2,3) by (simp add: log_le_def pool_log_def others_def)
qed

text \<open>The connection to \<open>a\<close> changes, or goes; no other connection uses its stream.\<close>

lemma pool_drop:
  assumes "pool_ok W c" and "others W S (cl_net c) n'" and "cl_net c' = n'" and "cl_conns c' = bt_remove a (cl_conns c)"
    and "\<And>a' b'. a' \<noteq> a \<Longrightarrow> bt_get (cl_conns c) a' = Some b' \<Longrightarrow> bk_stream b' \<notin> S"
  shows "pool_ok W c'" and "pool_unread W c' = (pool_unread W c)(a := [])" and "log_le (pool_log W) c c'"
proof -
  have rm: "conns_ok W (cl_net c) (bt_remove a (cl_conns c))" by (rule conns_ok_remove [OF assms(1) [unfolded pool_ok_def]])
  have off: "\<And>x b. bt_get (bt_remove a (cl_conns c)) x = Some b \<Longrightarrow> bk_stream b \<notin> S"
  proof -
    fix x b assume "bt_get (bt_remove a (cl_conns c)) x = Some b"
    then have "x \<noteq> a" "bt_get (cl_conns c) x = Some b" by (simp_all add: bt_get_remove split: if_splits)
    from assms(5) [OF this] show "bk_stream b \<notin> S" by simp
  qed
  note co = conns_ok_others [OF rm assms(2) off]
  have un: "unread W n' b = unread W (cl_net c) b" if "bt_get (bt_remove a (cl_conns c)) x = Some b" for x b
    by (rule co(2) [OF _ that])
  show "pool_ok W c'" using co(1) assms(3,4) by (simp add: pool_ok_def)
  show "pool_unread W c' = (pool_unread W c)(a := [])"
  proof
    fix x
    show "pool_unread W c' x = ((pool_unread W c)(a := [])) x"
      using un [of x] assms(3,4) by (auto simp: pool_unread_def bt_get_remove split: option.splits)
  qed
  show "log_le (pool_log W) c c'" using assms(2,3) by (simp add: log_le_def pool_log_def others_def)
qed

lemma pool_put:
  assumes "pool_ok W c" and "others W S (cl_net c) n'" and "cl_net c' = n'" and "cl_conns c' = bt_insert a b (cl_conns c)"
    and "\<And>a' b'. a' \<noteq> a \<Longrightarrow> bt_get (cl_conns c) a' = Some b' \<Longrightarrow> bk_stream b' \<notin> insert (bk_stream b) S"
    and "conn_ok W n' b pend" and "only_produces pend"
  shows "pool_ok W c'" and "pool_unread W c' = (pool_unread W c)(a := produces pend)" and "log_le (pool_log W) c c'"
proof -
  have rm: "conns_ok W (cl_net c) (bt_remove a (cl_conns c))" by (rule conns_ok_remove [OF assms(1) [unfolded pool_ok_def]])
  have off: "\<And>x b. bt_get (bt_remove a (cl_conns c)) x = Some b \<Longrightarrow> bk_stream b \<notin> S"
  proof -
    fix x b assume "bt_get (bt_remove a (cl_conns c)) x = Some b"
    then have "x \<noteq> a" "bt_get (cl_conns c) x = Some b" by (simp_all add: bt_get_remove split: if_splits)
    from assms(5) [OF this] show "bk_stream b \<notin> S" by simp
  qed
  note co = conns_ok_others [OF rm assms(2) off]
  have un: "unread W n' b = unread W (cl_net c) b" if "bt_get (bt_remove a (cl_conns c)) x = Some b" for x b
    by (rule co(2) [OF _ that])
  have "conns_ok W n' (bt_insert a b (cl_conns c))"
  proof (rule conns_ok_insert [OF co(1) assms(6,7)])
    fix a' b' assume "a' \<noteq> a" "bt_get (cl_conns c) a' = Some b'"
    from assms(5) [OF this] show "bk_stream b' \<noteq> bk_stream b" by simp
  qed
  then show "pool_ok W c'" using assms(3,4) by (simp add: pool_ok_def)
  show "pool_unread W c' = (pool_unread W c)(a := produces pend)"
  proof
    fix x
    show "pool_unread W c' x = ((pool_unread W c)(a := produces pend)) x"
      using un [of x] assms(3,4) unread_pending [OF assms(6)]
      by (auto simp: pool_unread_def bt_get_remove bt_get_insert split: option.splits)
  qed
  show "log_le (pool_log W) c c'" using assms(2,3) by (simp add: log_le_def pool_log_def others_def)
qed

section \<open>Calls leave the pool in step\<close>

definition keeps :: "'n view \<Rightarrow> 'n cluster \<Rightarrow> 'n cluster \<Rightarrow> bool" where
  "keeps W c c' \<longleftrightarrow> pool_ok W c' \<and> pool_unread W c' = pool_unread W c \<and> log_le (pool_log W) c c'"

lemma keeps_refl: "pool_ok W c \<Longrightarrow> keeps W c c"
  by (simp add: keeps_def)

lemma keeps_trans: "keeps W c c1 \<Longrightarrow> keeps W c1 c2 \<Longrightarrow> keeps W c c2"
  unfolding keeps_def by (auto intro: log_le_trans)

lemma keeps_ok: "keeps W c c' \<Longrightarrow> pool_ok W c'"
  by (simp add: keeps_def)

lemma pool_stream_open: "pool_ok W c \<Longrightarrow> bt_get (cl_conns c) a = Some b \<Longrightarrow> bk_stream b \<in> vw_open W (cl_net c)"
  by (metis conn_ok_def conns_ok_def pool_ok_def)

lemma pool_stream_own:
  "pool_ok W c \<Longrightarrow> bt_get (cl_conns c) a = Some b \<Longrightarrow> a' \<noteq> a \<Longrightarrow> bt_get (cl_conns c) a' = Some b' \<Longrightarrow> bk_stream b' \<noteq> bk_stream b"
  by (metis conns_ok_def pool_ok_def)

lemma open_conn_ok:
  assumes net: "kafka_network env W Q" and ok: "pool_ok W c" and run: "open_conn env a c = (r, c1)"
  shows "keeps W c c1" and "cl_conns c1 = cl_conns c"
    and "r = Inr b \<Longrightarrow> bt_get (cl_conns c) a = None \<or> pool_unread W c a = [] \<Longrightarrow> keeps W c (put_conn a b c1)"
proof -
  obtain n where bc: "broker_connect env a (cl_client_id c) (cl_credentials c) (cl_net c) = (r, n)" and c1: "c1 = c\<lparr>cl_net := n\<rparr>"
    using run by (cases "broker_connect env a (cl_client_id c) (cl_credentials c) (cl_net c)") (simp add: open_conn_def)
  note co = connect_ok [OF net bc]
  have k: "others W {} (cl_net c) n" using co by simp
  from pool_others [OF ok k] show "keeps W c c1" by (simp add: keeps_def c1)
  show "cl_conns c1 = cl_conns c" by (simp add: c1)
  assume r: "r = Inr b" and none: "bt_get (cl_conns c) a = None \<or> pool_unread W c a = []"
  have fresh: "bk_stream b \<notin> vw_open W (cl_net c)" and cn: "conn_ok W n b []" using co r by simp_all
  have un: "pool_unread W c a = []" using none by (auto simp: pool_unread_def)
  have own: "bk_stream b' \<notin> insert (bk_stream b) {}" if "bt_get (cl_conns c) a' = Some b'" for a' b'
    using fresh pool_stream_open [OF ok that] by auto
  from pool_put [OF ok k, of "put_conn a b c1" a b, OF _ _ own cn]
  show "keeps W c (put_conn a b c1)" using un by (simp add: keeps_def fun_upd_idem put_conn_def c1)
qed

lemma broker_at_ok:
  assumes net: "kafka_network env W Q" and ok: "pool_ok W c" and run: "broker_at env a c = (r, c1)"
  shows "keeps W c c1" and "r = Inr b \<Longrightarrow> bt_get (cl_conns c1) a = Some b"
proof -
  show "keeps W c c1"
  proof (cases "bt_get (cl_conns c) a")
    case None
    obtain x c0 where x: "open_conn env a c = (x, c0)" by fastforce
    note oc = open_conn_ok [OF net ok x]
    show ?thesis using run None x oc(1,3) by (cases x) (auto simp: broker_at_def)
  qed (use run keeps_refl [OF ok] in \<open>simp add: broker_at_def\<close>)
  assume "r = Inr b"
  then show "bt_get (cl_conns c1) a = Some b" using run
    by (auto simp: broker_at_def put_conn_def bt_get_insert split: option.splits prod.splits sum.splits)
qed

lemma try_bootstrap_ok:
  assumes net: "kafka_network env W Q" and "pool_ok W c" and "cl_conns c = []" and "try_bootstrap env as le c = (r, c1)"
  shows "keeps W c c1"
  using assms(2-)
proof (induction as arbitrary: le c)
  case Nil
  then show ?case by (simp add: keeps_refl)
next
  case (Cons a as)
  obtain x c0 where x: "open_conn env a c = (x, c0)" by fastforce
  note oc = open_conn_ok [OF net Cons.prems(1) x]
  show ?case
  proof (cases x)
    case (Inl e)
    have "keeps W c0 c1" using Cons.IH [of c0 "Some e"] keeps_ok [OF oc(1)] oc(2) Cons.prems(2,3) x Inl by simp
    then show ?thesis using keeps_trans [OF oc(1)] by blast
  next
    case (Inr b)
    then show ?thesis using oc(3) [OF Inr] Cons.prems(2,3) x by simp
  qed
qed

lemma any_broker_addr_ok:
  assumes net: "kafka_network env W Q" and "pool_ok W c" and "any_broker_addr env c = (r, c1)"
  shows "keeps W c c1"
proof (cases "cl_conns c = []")
  case True
  then show ?thesis using assms try_bootstrap_ok [OF net assms(2)] by (simp add: any_broker_addr_def)
qed (use assms keeps_refl in \<open>simp add: any_broker_addr_def\<close>)

text \<open>A connection whose request failed with an error that is not a loss is still in step.\<close>

lemma call_once:
  assumes net: "kafka_network env W Q" and rd: "reads (env_codec env) dec rq" and ok: "pool_ok W c"
    and b: "bt_get (cl_conns c) a = Some b" and "bk_in_flight b = 0"
    and run: "broker_call env dec rq v lim (cl_net c) b = (r, b', n')"
  shows "(\<exists>e. r = Inl e \<and> lost e) \<or> keeps W c ((put_conn a b' c)\<lparr>cl_net := n'\<rparr>)"
    and "keeps W c (drop_conn a ((put_conn a b' c)\<lparr>cl_net := n'\<rparr>))"
proof -
  let ?c2 = "(put_conn a b' c)\<lparr>cl_net := n'\<rparr>"
  obtain pend where p: "conn_ok W (cl_net c) b pend" using conns_okD [OF ok [unfolded pool_ok_def] b] by metis
  then have pend: "pend = []" using in_flight_pending [OF p] assms(5) by simp
  have un: "pool_unread W c a = []" using unread_pending [OF p] by (simp add: pool_unread_def b pend)
  note co = call_ok [OF net p rd run]
  have ot: "others W {bk_stream b} (cl_net c) n'" and st: "bk_stream b' = bk_stream b" using co by simp_all
  have own: "bk_stream x \<notin> insert (bk_stream b') {bk_stream b}" "bk_stream x \<notin> {bk_stream b}"
    if "a' \<noteq> a" "bt_get (cl_conns c) a' = Some x" for a' x
    using pool_stream_own [OF ok b that] st by simp_all
  show "(\<exists>e. r = Inl e \<and> lost e) \<or> keeps W c ?c2"
  proof (cases "\<exists>e. r = Inl e \<and> lost e")
    case False
    then have cn: "conn_ok W n' b' []" using co pend by (cases r) auto
    from pool_put [OF ok ot, of ?c2 a b', OF _ _ own(1) cn]
    show ?thesis using un by (simp add: keeps_def fun_upd_idem put_conn_def)
  qed simp
  have rm: "bt_remove a (bt_insert a b' m) = bt_remove a m" for m
    by (induction m) (auto simp: bt_remove_def)
  from pool_drop [OF ok ot, of "drop_conn a ?c2" a, OF _ _ own(2)]
  show "keeps W c (drop_conn a ?c2)" using un by (simp add: keeps_def fun_upd_idem put_conn_def drop_conn_def rm)
qed

lemma call_attempt_ok:
  assumes net: "kafka_network env W Q" and rd: "reads (env_codec env) dec rq"
    and "pool_ok W c" and "call_attempt env dec a rq v timeout left c = (r, c')"
  shows "keeps W c c'"
  using assms(3-)
proof (induction left arbitrary: c rule: less_induct)
  case (less left)
  obtain x c1 where x: "broker_at env a c = (x, c1)" by fastforce
  note ba = broker_at_ok [OF net less.prems(1) x]
  note run = less.prems(2) [unfolded call_attempt.simps [of env dec a rq v timeout left], unfolded x]
  show ?case
  proof (cases x)
    case (Inl e)
    then show ?thesis using run ba(1) by simp
  next
    case (Inr b)
    note ok1 = keeps_ok [OF ba(1)] and b = ba(2) [OF Inr]
    show ?thesis
    proof (cases "bk_in_flight b = 0")
      case False
      then show ?thesis using run Inr ba(1) by simp
    next
      case True
      let ?lim = "Some (tr_now env (cl_net c1) + timeout, api_key_of rq, a)"
      obtain y b' n' where y: "broker_call env dec rq v ?lim (cl_net c1) b = (y, b', n')" by (metis surj_pair)
      let ?c2 = "(put_conn a b' c1)\<lparr>cl_net := n'\<rparr>"
      note once = call_once [OF net rd ok1 b True y]
      show ?thesis
      proof (cases "\<exists>m. y = Inl (Io m)")
        case True
        then obtain m where m: "y = Inl (Io m)" by blast
        have "keeps W c1 c'"
        proof (cases left)
          case 0
          then show ?thesis using run Inr \<open>bk_in_flight b = 0\<close> y m once(2) by (simp add: Let_def)
        next
          case (Suc l)
          have "keeps W (drop_conn a ?c2) c'"
            using less.IH [OF _ keeps_ok [OF once(2)], of l] run Inr \<open>bk_in_flight b = 0\<close> y m Suc by (simp add: Let_def)
          then show ?thesis using keeps_trans [OF once(2)] by blast
        qed
        then show ?thesis using keeps_trans [OF ba(1)] by blast
      next
        case False
        then have "c' = (if \<exists>e. y = Inl e \<and> lost e then drop_conn a ?c2 else ?c2)"
          using run Inr \<open>bk_in_flight b = 0\<close> y by (auto simp: Let_def lost_def split: sum.splits client_error.splits)
        then have "keeps W c1 c'" using once by (simp split: if_splits)
        then show ?thesis using keeps_trans [OF ba(1)] by blast
      qed
    qed
  qed
qed

lemma call_any_ok:
  assumes net: "kafka_network env W Q" and rd: "reads (env_codec env) dec rq"
    and "pool_ok W c" and "cluster_call_any env dec rq v c = (r, c')"
  shows "keeps W c c'"
proof -
  obtain x c1 where x: "any_broker_addr env c = (x, c1)" by fastforce
  note aa = any_broker_addr_ok [OF net assms(3) x]
  show ?thesis
  proof (cases x)
    case (Inr a)
    then have "keeps W c1 c'" using call_attempt_ok [OF net rd keeps_ok [OF aa]] assms(4) x
      by (simp add: cluster_call_any_def cluster_call_at_def call_at_with_timeout_def)
    then show ?thesis using keeps_trans [OF aa] by blast
  qed (use aa assms(4) x in \<open>simp add: cluster_call_any_def\<close>)
qed

lemma keeps_same: "keeps W c c1 \<Longrightarrow> cl_net c' = cl_net c1 \<Longrightarrow> cl_conns c' = cl_conns c1 \<Longrightarrow> keeps W c c'"
  by (simp add: keeps_def pool_ok_def pool_unread_def pool_log_def log_le_def fun_eq_iff cong: option.case_cong)

lemma refresh_ok:
  assumes "kafka_network env W Q" and "pool_ok W c" and "cluster_refresh_metadata env t c = (r, c')"
  shows "keeps W c c'"
proof -
  obtain x c1 where x: "cluster_call_any env (cd_metadata (env_codec env))
      (MetadataRequest [t] (cl_allow_auto_topic_creation c)) 12 c = (x, c1)" by fastforce
  have k: "keeps W c c1" by (rule call_any_ok [OF assms(1) _ assms(2) x]) simp
  show ?thesis
  proof (rule keeps_same [OF k])
    show "cl_net c' = cl_net c1" "cl_conns c' = cl_conns c1"
      using assms(3) by (auto simp: cluster_refresh_metadata_def x split: sum.splits)
  qed
qed

lemma leader_addr_ok:
  assumes "kafka_network env W Q" and "pool_ok W c" and "cluster_leader_addr env t i c = (r, c')"
  shows "keeps W c c'"
proof (cases "leader_for (cl_metadata c) t i")
  case None
  obtain x c1 where x: "cluster_refresh_metadata env t c = (x, c1)" by fastforce
  have "c' = c1" using assms(3) None x by (auto simp: cluster_leader_addr_def split: sum.splits option.splits)
  then show ?thesis using refresh_ok [OF assms(1,2) x] by simp
qed (use assms(2,3) keeps_refl in \<open>simp add: cluster_leader_addr_def\<close>)

section \<open>Sends and reads of the window\<close>

lemma write_all_io: "fst (write_all env n s bs None) = Inl e \<Longrightarrow> \<exists>m. e = Io m"
  by (auto simp: write_all_def split: prod.splits sum.splits)

lemma bt_remove_insert: "bt_remove a (bt_insert a b m) = bt_remove a m"
  by (induction m) (auto simp: bt_remove_def)

lemma send_loses_io:
  assumes "broker_send env rq v None n b = (Inl e, b', n')" and "lost e"
  shows "\<exists>m. e = Io m"
proof -
  obtain x c where x: "request (cd_header (env_codec env)) (cd_body (env_codec env) rq) (bk_conn b) (api_key_of rq)
      (negotiated b (api_key_of rq) v) = (x, c)" by fastforce
  show ?thesis
  proof (cases x)
    case (Inr bs)
    then have "fst (write_all env n (bk_stream b) bs None) = Inl e"
      using assms(1) x by (simp add: broker_send_def Let_def split: prod.splits)
    then show ?thesis by (rule write_all_io)
  qed (use assms x in \<open>auto simp: broker_send_def lost_def Let_def\<close>)
qed

lemma send_once:
  assumes net: "kafka_network env W Q" and ok: "pool_ok W c" and b: "bt_get (cl_conns c) a = Some b"
    and run: "broker_send env (ProduceRequest q) v None (cl_net c) b = (r, b', n')"
  shows "case r of
      Inr _ \<Rightarrow> pool_ok W ((put_conn a b' c)\<lparr>cl_net := n'\<rparr>) \<and> log_le (pool_log W) c ((put_conn a b' c)\<lparr>cl_net := n'\<rparr>) \<and>
        pool_unread W ((put_conn a b' c)\<lparr>cl_net := n'\<rparr>) = (pool_unread W c)(a := pool_unread W c a @ [q])
    | Inl e \<Rightarrow> lost e \<or> keeps W c ((put_conn a b' c)\<lparr>cl_net := n'\<rparr>)"
    and "pool_ok W (drop_conn a ((put_conn a b' c)\<lparr>cl_net := n'\<rparr>)) \<and>
      log_le (pool_log W) c (drop_conn a ((put_conn a b' c)\<lparr>cl_net := n'\<rparr>)) \<and>
      pool_unread W (drop_conn a ((put_conn a b' c)\<lparr>cl_net := n'\<rparr>)) = (pool_unread W c)(a := [])"
proof -
  let ?c2 = "(put_conn a b' c)\<lparr>cl_net := n'\<rparr>"
  obtain pend where p: "conn_ok W (cl_net c) b pend" "only_produces pend" "unread W (cl_net c) b = produces pend"
    using conns_okD [OF ok [unfolded pool_ok_def] b] by metis
  have un: "pool_unread W c a = produces pend" by (simp add: pool_unread_def b p(3))
  note so = send_ok [OF net p(1) run]
  have ot: "others W {bk_stream b} (cl_net c) n'" and st: "bk_stream b' = bk_stream b" using so by simp_all
  have own: "bk_stream x \<notin> insert (bk_stream b') {bk_stream b}" "bk_stream x \<notin> {bk_stream b}"
    if "a' \<noteq> a" "bt_get (cl_conns c) a' = Some x" for a' x
    using pool_stream_own [OF ok b that] st by simp_all
  show "case r of Inr _ \<Rightarrow> pool_ok W ?c2 \<and> log_le (pool_log W) c ?c2 \<and>
        pool_unread W ?c2 = (pool_unread W c)(a := pool_unread W c a @ [q]) | Inl e \<Rightarrow> lost e \<or> keeps W c ?c2"
  proof (cases r)
    case (Inr u)
    then obtain x where x: "conn_ok W n' b' (pend @ [(x, ProduceRequest q)])" using so by auto
    from pool_put [OF ok ot, of ?c2 a b', OF _ _ own(1) x] p(2) show ?thesis by (simp add: Inr un put_conn_def)
  next
    case (Inl e)
    show ?thesis
    proof (cases "lost e")
      case False
      then have x: "conn_ok W n' b' pend" using so Inl by auto
      from pool_put [OF ok ot, of ?c2 a b', OF _ _ own(1) x p(2)] show ?thesis by (simp add: Inl un put_conn_def keeps_def fun_upd_idem)
    qed (simp add: Inl)
  qed
  from pool_drop [OF ok ot, of "drop_conn a ?c2" a, OF _ _ own(2)]
  show "pool_ok W (drop_conn a ?c2) \<and> log_le (pool_log W) c (drop_conn a ?c2) \<and>
      pool_unread W (drop_conn a ?c2) = (pool_unread W c)(a := [])"
    by (simp add: put_conn_def drop_conn_def bt_remove_insert)
qed

lemma send_attempt_ok:
  assumes net: "kafka_network env W Q" and "pool_ok W c" and "send_attempt env (ProduceRequest q) v a left c = (r, c')"
  shows "pool_ok W c' \<and> log_le (pool_log W) c c' \<and> (\<forall>x. x \<noteq> a \<longrightarrow> pool_unread W c' x = pool_unread W c x) \<and>
    (r = Inr () \<longrightarrow> pool_unread W c' a = pool_unread W c a @ [q] \<or> pool_unread W c' a = [q])"
  using assms(2-)
proof (induction left arbitrary: c rule: less_induct)
  case (less left)
  obtain x c1 where x: "broker_at env a c = (x, c1)" by fastforce
  note ba = broker_at_ok [OF net less.prems(1) x]
  note run = less.prems(2) [unfolded send_attempt.simps [of env "ProduceRequest q" v a left], unfolded x]
  have k: "pool_unread W c1 = pool_unread W c" "log_le (pool_log W) c c1" using ba(1) by (simp_all add: keeps_def)
  show ?case
  proof (cases x)
    case (Inl e)
    then show ?thesis using run ba(1) by (auto simp: keeps_def)
  next
    case (Inr b)
    note ok1 = keeps_ok [OF ba(1)] and b = ba(2) [OF Inr]
    obtain y b' n' where y: "broker_send env (ProduceRequest q) v None (cl_net c1) b = (y, b', n')" by (metis surj_pair)
    let ?c2 = "(put_conn a b' c1)\<lparr>cl_net := n'\<rparr>"
    note once = send_once [OF net ok1 b y]
    show ?thesis
    proof (cases y)
      case (Inr u)
      then have "c' = ?c2" using run \<open>x = Inr b\<close> y by (simp add: Let_def)
      then show ?thesis using once(1) Inr k log_le_trans [OF k(2)] by simp
    next
      case e: (Inl e)
      show ?thesis
      proof (cases "\<exists>m. e = Io m")
        case True
        then obtain m where m: "e = Io m" by blast
        show ?thesis
        proof (cases left)
          case 0
          then have "c' = drop_conn a ?c2" "r = Inl e" using run \<open>x = Inr b\<close> y e m by (simp_all add: Let_def)
          then show ?thesis using once(2) k log_le_trans [OF k(2)] by simp
        next
          case (Suc l)
          then have "send_attempt env (ProduceRequest q) v a l (drop_conn a ?c2) = (r, c')"
            using run \<open>x = Inr b\<close> y e m by (simp add: Let_def)
          note ih = less.IH [OF _ _ this]
          have "log_le (pool_log W) c (drop_conn a ?c2)" by (rule log_le_trans [OF k(2)]) (use once(2) in simp)
          then have "log_le (pool_log W) c c'" by (rule log_le_trans) (use ih Suc once(2) in simp)
          then show ?thesis using ih Suc once(2) k by simp
        qed
      next
        case False
        then have "c' = ?c2" "r = Inl e" using run \<open>x = Inr b\<close> y e by (auto simp: Let_def split: client_error.splits)
        moreover have "keeps W c1 ?c2" using once(1) e False send_loses_io [OF y [unfolded e]] by auto
        ultimately show ?thesis using keeps_trans [OF ba(1)] by (simp add: keeps_def)
      qed
    qed
  qed
qed

fun taken :: "('a \<times> 'b option) list \<Rightarrow> ('a \<times> 'b) list" where
  "taken [] = []"
| "taken ((a, None) # xs) = taken xs"
| "taken ((a, Some b) # xs) = (a, b) # taken xs"

lemma set_taken: "set (taken xs) = {(a, b). (a, Some b) \<in> set xs}"
  by (induction xs rule: taken.induct) auto

lemma take_conns_ok:
  assumes "take_conns as m = (xs, m')"
  shows "map fst xs = as" and "bt_get m' a = (if a \<in> set as then None else bt_get m a)"
    and "(a, Some b) \<in> set xs \<Longrightarrow> bt_get m a = Some b" and "distinct (map fst (taken xs))"
    and "distinct as \<Longrightarrow> xs = map (\<lambda>a. (a, bt_get m a)) as"
proof -
  have "map fst xs = as \<and> (\<forall>a. bt_get m' a = (if a \<in> set as then None else bt_get m a)) \<and>
      (\<forall>a b. (a, Some b) \<in> set xs \<longrightarrow> bt_get m a = Some b) \<and> distinct (map fst (taken xs)) \<and>
      (distinct as \<longrightarrow> xs = map (\<lambda>a. (a, bt_get m a)) as)"
    using assms
  proof (induction as arbitrary: m xs m')
    case (Cons x as)
    obtain ys m1 where ys: "take_conns as (bt_remove x m) = (ys, m1)" by fastforce
    have xs: "xs = (x, bt_get m x) # ys" "m' = m1" using Cons.prems ys by simp_all
    note ih = Cons.IH [OF ys]
    have notin: "(x, b) \<notin> set (taken ys)" for b using ih by (force simp: set_taken bt_get_remove)
    have "distinct (map fst (taken xs))" using ih notin by (cases "bt_get m x") (auto simp: xs)
    moreover have "distinct (x # as) \<longrightarrow> xs = map (\<lambda>a. (a, bt_get m a)) (x # as)"
    proof
      assume "distinct (x # as)"
      then have "map (\<lambda>a. (a, bt_get (bt_remove x m) a)) as = map (\<lambda>a. (a, bt_get m a)) as" by (auto simp: bt_get_remove)
      moreover have "distinct as \<longrightarrow> ys = map (\<lambda>a. (a, bt_get (bt_remove x m) a)) as" using ih by blast
      then have "ys = map (\<lambda>a. (a, bt_get (bt_remove x m) a)) as" using \<open>distinct (x # as)\<close> by simp
      ultimately show "xs = map (\<lambda>a. (a, bt_get m a)) (x # as)" by (simp only: xs list.map)
    qed
    moreover have "bt_get m a = Some b" if "(a, Some b) \<in> set xs" for a b
    proof (cases "(a, Some b) \<in> set ys")
      case True
      then have "bt_get (bt_remove x m) a = Some b" using ih by blast
      then show ?thesis by (simp add: bt_get_remove split: if_splits)
    qed (use that in \<open>simp add: xs\<close>)
    moreover have "bt_get m' a = (if a \<in> set (x # as) then None else bt_get m a)" for a
      using ih by (simp add: xs bt_get_remove)
    moreover have "map fst ys = as" using ih by blast
    then have "map fst xs = x # as" by (simp add: xs)
    ultimately show ?case by blast
  qed simp
  then show "map fst xs = as" and "bt_get m' a = (if a \<in> set as then None else bt_get m a)"
    and "(a, Some b) \<in> set xs \<Longrightarrow> bt_get m a = Some b" and "distinct (map fst (taken xs))"
    and "distinct as \<Longrightarrow> xs = map (\<lambda>a. (a, bt_get m a)) as" by blast+
qed

lemma others_mono: "others W S n n' \<Longrightarrow> S \<subseteq> T \<Longrightarrow> others W T n n'"
  unfolding others_def by blast

text \<open>What one read of \<open>recv_many\<close> may return for a connection taken from the pool.\<close>

definition read_back ::
  "'n view \<Rightarrow> ('n \<Rightarrow> produce_request \<Rightarrow> produce_response \<Rightarrow> bool) \<Rightarrow> 'n \<Rightarrow> 'n \<Rightarrow> string \<times> broker_conn option \<Rightarrow>
   string \<times> broker_conn option \<times> (client_error + produce_response) \<Rightarrow> bool" where
  "read_back W Q n n' x y \<longleftrightarrow> fst y = fst x \<and>
     (case snd x of
        None \<Rightarrow> fst (snd y) = None \<and> (\<exists>e. snd (snd y) = Inl e)
      | Some b \<Rightarrow> (\<exists>b'. fst (snd y) = Some b' \<and> bk_stream b' = bk_stream b \<and>
          (case snd (snd y) of
             Inl e \<Rightarrow> lost e
           | Inr resp \<Rightarrow> \<exists>q ps. conn_ok W n' b' ps \<and> only_produces ps \<and> unread W n b = q # produces ps \<and> Q n' q resp)))"

definition stable :: "'n view \<Rightarrow> ('n \<Rightarrow> produce_request \<Rightarrow> produce_response \<Rightarrow> bool) \<Rightarrow> bool" where
  "stable W Q \<longleftrightarrow> (\<forall>n n' q resp. (\<forall>k. vw_log W n k \<subseteq> vw_log W n' k) \<longrightarrow> Q n q resp \<longrightarrow> Q n' q resp)"

lemma stableD: "stable W Q \<Longrightarrow> others W S n n' \<Longrightarrow> Q n q resp \<Longrightarrow> Q n' q resp"
  unfolding stable_def others_def by blast

lemma read_back_head:
  assumes net: "kafka_network env W Q" and "conn_ok W n b pend" and "only_produces pend"
    and "broker_recv env (cd_produce (env_codec env)) lim n b = (r, b', n1)"
  shows "others W {bk_stream b} n n1" and "read_back W Q n n1 (a, Some b) (a, Some b', r)"
proof -
  have rd: "\<forall>p rq ps. pend = (p, rq) # ps \<longrightarrow> reads (env_codec env) (cd_produce (env_codec env)) rq"
    using assms(3) by auto
  note ro = recv_ok [OF net assms(2) rd assms(4)]
  show "others W {bk_stream b} n n1" using ro by simp
  show "read_back W Q n n1 (a, Some b) (a, Some b', r)"
  proof (cases r)
    case (Inl e)
    then show ?thesis using ro by (simp add: read_back_def)
  next
    case (Inr resp)
    then obtain p rq ps rest where x: "pend = (p, rq) # ps" "conn_ok W n1 b' ps"
        "cd_produce (env_codec env) (p_version p) rest = Inr resp"
        "\<forall>q resp. rq = ProduceRequest q \<longrightarrow> cd_produce (env_codec env) (p_version p) rest = Inr resp \<longrightarrow> Q n1 q resp"
      using ro by auto
    obtain q where "rq = ProduceRequest q" using x(1) assms(3) by auto
    then show ?thesis using ro x assms(3) unread_pending [OF assms(2)] Inr
      by (auto simp: read_back_def intro!: exI [of _ q] exI [of _ ps])
  qed
qed

text \<open>A read stays what it is while the others' streams move on, before it and after it.\<close>

lemma read_back_later:
  assumes "read_back W Q n n1 x y" and "stable W Q" and "others W S n1 n2" and "\<And>b. snd x = Some b \<Longrightarrow> bk_stream b \<notin> S"
  shows "read_back W Q n n2 x y"
proof (cases "snd x")
  case (Some b)
  then obtain b' where b': "fst (snd y) = Some b'" "bk_stream b' = bk_stream b" using assms(1) by (auto simp: read_back_def)
  show ?thesis
  proof (cases "snd (snd y)")
    case (Inr resp)
    then obtain q ps where q: "conn_ok W n1 b' ps" "only_produces ps" "unread W n b = q # produces ps" "Q n1 q resp"
      using assms(1) b' Some by (auto simp: read_back_def)
    have "conn_ok W n2 b' ps" using conn_ok_others [OF q(1) assms(3)] assms(4) [OF Some] b'(2) by simp
    then have "\<exists>q ps. conn_ok W n2 b' ps \<and> only_produces ps \<and> unread W n b = q # produces ps \<and> Q n2 q resp"
      using q(2,3) stableD [OF assms(2,3) q(4)] by blast
    then show ?thesis using b' Some Inr assms(1) by (simp add: read_back_def)
  qed (use assms(1) Some in \<open>simp add: read_back_def\<close>)
qed (use assms(1) in \<open>simp add: read_back_def\<close>)

lemma read_back_earlier:
  assumes "read_back W Q n1 n2 x y" and "\<And>b. snd x = Some b \<Longrightarrow> unread W n1 b = unread W n b"
  shows "read_back W Q n n2 x y"
proof (cases "snd x")
  case (Some b)
  then show ?thesis using assms(1) assms(2) [OF Some] by (simp add: read_back_def cong: sum.case_cong)
qed (use assms(1) in \<open>simp add: read_back_def\<close>)

lemma recv_each_ok:
  assumes net: "kafka_network env W Q" and st: "stable W Q"
    and "\<forall>(a, b)\<in>set (taken xs). \<exists>pend. conn_ok W n b pend \<and> only_produces pend"
    and "distinct (map (bk_stream \<circ> snd) (taken xs))"
    and "recv_each env (cd_produce (env_codec env)) op dl xs n = (ys, n')"
  shows "others W (bk_stream ` snd ` set (taken xs)) n n' \<and> list_all2 (read_back W Q n n') xs ys"
  using assms(3-)
proof (induction xs arbitrary: n ys n' rule: taken.induct)
  case 1
  then show ?case by simp
next
  case (2 a xs)
  obtain zs n1 where z: "recv_each env (cd_produce (env_codec env)) op dl xs n = (zs, n1)" by fastforce
  then show ?case using "2.IH" [OF _ _ z] "2.prems" by (auto simp: read_back_def)
next
  case (3 a b xs)
  obtain pend where p: "conn_ok W n b pend" "only_produces pend" using "3.prems"(1) by auto
  obtain r b' n1 where r: "broker_recv env (cd_produce (env_codec env)) (Some (dl, op, a)) n b = (r, b', n1)" by (metis surj_pair)
  obtain zs n2 where z: "recv_each env (cd_produce (env_codec env)) op dl xs n1 = (zs, n2)" by fastforce
  have ys: "ys = (a, Some b', r) # zs" "n' = n2" using "3.prems"(3) r z by simp_all
  note hd = read_back_head(1) [OF net p r] read_back_head(2) [OF net p r, where a = a]
  have own: "bk_stream b2 \<noteq> bk_stream b" if "(a2, b2) \<in> set (taken xs)" for a2 b2
    using "3.prems"(2) that by (auto simp: image_iff)
  have tl: "\<exists>pend. conn_ok W n b2 pend \<and> conn_ok W n1 b2 pend \<and> only_produces pend" if "(a2, b2) \<in> set (taken xs)" for a2 b2
  proof -
    obtain pend where "conn_ok W n b2 pend" "only_produces pend" using "3.prems"(1) \<open>(a2, b2) \<in> set (taken xs)\<close> by fastforce
    then show ?thesis using conn_ok_others [OF _ hd(1)] own [OF that] by blast
  qed
  have ih: "others W (bk_stream ` snd ` set (taken xs)) n1 n2 \<and> list_all2 (read_back W Q n1 n2) xs zs"
    by (rule "3.IH" [OF _ _ z]) (use tl "3.prems"(2) in \<open>auto, blast\<close>)
  have "read_back W Q n n2 (a, Some b) (a, Some b', r)"
    by (rule read_back_later [OF hd(2) st conjunct1 [OF ih]]) (use "3.prems"(2) in auto)
  moreover have "list_all2 (read_back W Q n n2) xs zs"
  proof (rule list.rel_mono_strong [OF conjunct2 [OF ih]])
    fix x y assume x: "x \<in> set xs" "read_back W Q n1 n2 x y"
    show "read_back W Q n n2 x y"
    proof (rule read_back_earlier [OF x(2)])
      fix b2 assume "snd x = Some b2"
      then have "(fst x, b2) \<in> set (taken xs)" using x(1) by (cases x) (simp add: set_taken)
      from tl [OF this] show "unread W n1 b2 = unread W n b2" using unread_pending by metis
    qed
  qed
  moreover have "others W (bk_stream ` snd ` set (taken ((a, Some b) # xs))) n n2"
    by (rule others_trans [of _ _ _ n1]) (use hd(1) ih others_mono in \<open>auto elim!: others_mono\<close>)
  ultimately show ?case by (simp add: ys)
qed

text \<open>The connections put back: those whose read returned a response.\<close>

fun usable :: "('a \<times> 'b option \<times> ('e + 'r)) list \<Rightarrow> ('a \<times> 'b) list" where
  "usable [] = []"
| "usable ((a, Some b, Inr r) # ys) = (a, b) # usable ys"
| "usable ((a, _) # ys) = usable ys"

lemma set_usable: "set (usable ys) = {(a, b). \<exists>r. (a, Some b, Inr r) \<in> set ys}"
  by (induction ys rule: usable.induct) auto

lemma bt_get_fold_insert:
  "distinct (map fst kvs) \<Longrightarrow>
   bt_get (fold (\<lambda>(a, b). bt_insert a b) kvs m) k = (case map_of kvs k of None \<Rightarrow> bt_get m k | Some v \<Rightarrow> Some v)"
proof (induction kvs arbitrary: m)
  case (Cons x kvs)
  obtain a b where x: "x = (a, b)" by (cases x)
  have "map_of kvs a = None" using Cons.prems x by (simp add: map_of_eq_None_iff)
  then show ?case using Cons x by (cases "k = a"; cases "map_of kvs k") (simp_all add: bt_get_insert)
qed simp

lemma read_back_cases:
  assumes "read_back W Q n n' x y"
  obtains (none) a r where "x = (a, None)" and "y = (a, None, Inl r)"
    | (gone) a b b' e where "x = (a, Some b)" and "y = (a, Some b', Inl e)" and "lost e"
    | (answer) a b b' resp q ps where "x = (a, Some b)" and "y = (a, Some b', Inr resp)" and "bk_stream b' = bk_stream b"
        and "conn_ok W n' b' ps" and "only_produces ps" and "unread W n b = q # produces ps" and "Q n' q resp"
proof -
  obtain a x2 where x: "x = (a, x2)" by (cases x)
  obtain y2 y3 where y: "y = (a, y2, y3)" using assms x by (cases y) (auto simp: read_back_def)
  show thesis
  proof (cases x2)
    case None
    then show thesis using assms none x y by (auto simp: read_back_def)
  next
    case (Some b)
    then obtain b' where b': "y2 = Some b'" "bk_stream b' = bk_stream b" using assms x y by (auto simp: read_back_def)
    show thesis
    proof (cases y3)
      case (Inl e)
      then show thesis using assms gone x y Some b' by (auto simp: read_back_def)
    next
      case (Inr resp)
      then show thesis using assms answer x y Some b' by (auto simp: read_back_def)
    qed
  qed
qed

lemma put_back_kept:
  "list_all2 (read_back W Q n n') xs ys \<Longrightarrow> fold put_back ys m = fold (\<lambda>(a, b). bt_insert a b) (usable ys) m"
proof (induction arbitrary: m rule: list_all2_induct)
  case (Cons x xs y ys)
  from Cons(1) show ?case
    by (cases rule: read_back_cases) (use Cons(3) in \<open>auto simp: put_back_def lost_def\<close>)
qed simp

lemma kept_taken:
  assumes "list_all2 (read_back W Q n n') xs ys" and "(a, b') \<in> set (usable ys)"
  obtains b q ps where "(a, b) \<in> set (taken xs)" and "bk_stream b' = bk_stream b" and "conn_ok W n' b' ps"
    and "only_produces ps" and "unread W n b = q # produces ps"
proof -
  obtain resp i where i: "i < length ys" "ys ! i = (a, Some b', Inr resp)"
    using assms(2) by (auto simp: set_usable in_set_conv_nth)
  have len: "i < length xs" using i list_all2_lengthD [OF assms(1)] by simp
  from list_all2_nthD [OF assms(1) len] have "read_back W Q n n' (xs ! i) (a, Some b', Inr resp)" by (simp add: i)
  then show thesis
  proof (cases rule: read_back_cases)
    case (answer a2 b b2 resp2 q ps)
    have "(a, b) \<in> set (taken xs)" unfolding set_taken using len answer(1,2) nth_mem [OF len] by auto
    then show thesis using that answer by auto
  qed auto
qed

lemma usable_keys:
  "list_all2 (read_back W Q n n') xs ys \<Longrightarrow>
   fst ` set (usable ys) \<subseteq> fst ` set (taken xs) \<and> (distinct (map fst (taken xs)) \<longrightarrow> distinct (map fst (usable ys)))"
proof (induction rule: list_all2_induct)
  case (Cons x xs y ys)
  from Cons(1) show ?case
    by (cases rule: read_back_cases) (use Cons(3) in auto)
qed simp

lemma distinct_map_snd:
  assumes d: "distinct (map fst zs)"
    and i: "\<And>a b a' b'. (a, b) \<in> set zs \<Longrightarrow> (a', b') \<in> set zs \<Longrightarrow> f b = f b' \<Longrightarrow> a = a'"
  shows "distinct (map (f \<circ> snd) zs)"
proof -
  have "inj_on (f \<circ> snd) (set zs)"
  proof (rule inj_onI)
    fix x y assume xy: "x \<in> set zs" "y \<in> set zs" "(f \<circ> snd) x = (f \<circ> snd) y"
    then have "fst x = fst y" using i [of "fst x" "snd x" "fst y" "snd y"] by simp
    then show "x = y" using xy eq_key_imp_eq_value [OF d, of "fst x" "snd x" "snd y"] by (metis prod.collapse)
  qed
  then show ?thesis using d by (simp add: distinct_map)
qed

text \<open>The pool after \<open>recv_many\<close>, in terms of the reads.\<close>

definition recv_result ::
  "'n view \<Rightarrow> ('n \<Rightarrow> produce_request \<Rightarrow> produce_response \<Rightarrow> bool) \<Rightarrow> 'n cluster \<Rightarrow> string list \<Rightarrow>
   (client_error + produce_response) list \<Rightarrow> 'n cluster \<Rightarrow> (string \<times> broker_conn option) list \<Rightarrow>
   (string \<times> broker_conn option \<times> (client_error + produce_response)) list \<Rightarrow> bool" where
  "recv_result W Q c as rs c' xs ys \<longleftrightarrow>
     list_all2 (read_back W Q (cl_net c) (cl_net c')) xs ys \<and> rs = map (\<lambda>(_, _, r). r) ys \<and>
     (distinct as \<longrightarrow> xs = map (\<lambda>a. (a, bt_get (cl_conns c) a)) as) \<and>
     (\<forall>a b. (a, b) \<in> set (taken xs) \<longrightarrow> bt_get (cl_conns c) a = Some b \<and> a \<in> set as) \<and>
     (\<forall>a. bt_get (cl_conns c') a =
        (if a \<in> fst ` set (usable ys) then map_of (usable ys) a else if a \<in> set as then None else bt_get (cl_conns c) a)) \<and>
     others W (bk_stream ` snd ` set (taken xs)) (cl_net c) (cl_net c') \<and> distinct (map fst (usable ys))"

lemma recv_many_reads:
  assumes net: "kafka_network env W Q" and st: "stable W Q" and ok: "pool_ok W c"
    and run: "cluster_recv_many env (cd_produce (env_codec env)) op as c = (rs, c')"
  shows "\<exists>xs ys. recv_result W Q c as rs c' xs ys"
proof -
  obtain xs m where t: "take_conns as (cl_conns c) = (xs, m)" by fastforce
  obtain ys n where r: "recv_each env (cd_produce (env_codec env)) op (tr_now env (cl_net c) + cl_request_timeout c) xs (cl_net c) = (ys, n)"
    by fastforce
  have res: "rs = map (\<lambda>(_, _, r). r) ys" "c' = c\<lparr>cl_net := n, cl_conns := fold put_back ys m\<rparr>"
    using run t r by (simp_all add: cluster_recv_many_def)
  note tk = take_conns_ok [OF t]
  have got: "bt_get (cl_conns c) a = Some b \<and> a \<in> set as" if "(a, b) \<in> set (taken xs)" for a b
  proof -
    have "(a, Some b) \<in> set xs" using that by (simp add: set_taken)
    then show ?thesis using tk(3) tk(1) by (metis fst_conv image_eqI set_map)
  qed
  have good: "\<forall>(a, b)\<in>set (taken xs). \<exists>pend. conn_ok W (cl_net c) b pend \<and> only_produces pend"
  proof clarify
    fix a b assume "(a, b) \<in> set (taken xs)"
    from conns_okD [OF ok [unfolded pool_ok_def] conjunct1 [OF got [OF this]]]
    show "\<exists>pend. conn_ok W (cl_net c) b pend \<and> only_produces pend" by metis
  qed
  have streams: "distinct (map (bk_stream \<circ> snd) (taken xs))"
  proof (rule distinct_map_snd [OF tk(4)])
    fix a b a' b' assume "(a, b) \<in> set (taken xs)" "(a', b') \<in> set (taken xs)" "bk_stream b = bk_stream b'"
    then show "a = a'" using pool_stream_own [OF ok] got by metis
  qed
  from recv_each_ok [OF net st good streams r]
  have re: "others W (bk_stream ` snd ` set (taken xs)) (cl_net c) n" "list_all2 (read_back W Q (cl_net c) n) xs ys" by simp_all
  note kk = usable_keys [OF re(2)]
  have dk: "distinct (map fst (usable ys))" using kk tk(4) by blast
  have get: "bt_get (cl_conns c') a =
      (if a \<in> fst ` set (usable ys) then map_of (usable ys) a else if a \<in> set as then None else bt_get (cl_conns c) a)" for a
    by (simp add: res(2) put_back_kept [OF re(2)] bt_get_fold_insert [OF dk] tk(2) map_of_eq_None_iff split: option.splits)
       (metis domI dom_map_of_conv_image_fst)
  have "list_all2 (read_back W Q (cl_net c) (cl_net c')) xs ys"
      "others W (bk_stream ` snd ` set (taken xs)) (cl_net c) (cl_net c')" using re res(2) by simp_all
  then have "recv_result W Q c as rs c' xs ys" unfolding recv_result_def using res(1) tk(5) got get dk by blast
  then show ?thesis by blast
qed

lemma recv_many_pool:
  assumes net: "kafka_network env W Q" and st: "stable W Q" and ok: "pool_ok W c"
    and run: "cluster_recv_many env (cd_produce (env_codec env)) op as c = (rs, c')"
  shows "pool_ok W c'" and "log_le (pool_log W) c c'" and "a \<notin> set as \<Longrightarrow> pool_unread W c' a = pool_unread W c a"
proof -
  obtain xs ys where rr: "recv_result W Q c as rs c' xs ys" using recv_many_reads [OF net st ok run] by blast
  have rb: "list_all2 (read_back W Q (cl_net c) (cl_net c')) xs ys" and rs: "rs = map (\<lambda>(_, _, r). r) ys"
    and xsd: "distinct as \<Longrightarrow> xs = map (\<lambda>a. (a, bt_get (cl_conns c) a)) as"
    and got: "\<And>a b. (a, b) \<in> set (taken xs) \<Longrightarrow> bt_get (cl_conns c) a = Some b \<and> a \<in> set as"
    and get: "\<And>a. bt_get (cl_conns c') a =
           (if a \<in> fst ` set (usable ys) then map_of (usable ys) a else if a \<in> set as then None else bt_get (cl_conns c) a)"
    and ot: "others W (bk_stream ` snd ` set (taken xs)) (cl_net c) (cl_net c')"
    and dk: "distinct (map fst (usable ys))"
    using rr unfolding recv_result_def by blast+
  have apart: "bk_stream b \<notin> bk_stream ` snd ` set (taken xs)" if "a \<notin> set as" "bt_get (cl_conns c) a = Some b" for a b
    using pool_stream_own [OF ok that(2)] got that(1) by (auto simp: image_iff) metis
  have keys: "fst ` set (usable ys) \<subseteq> set as" using usable_keys [OF rb] got by force
  have entry: "\<exists>b0 pend. bt_get (cl_conns c) a = Some b0 \<and> bk_stream b = bk_stream b0 \<and>
      conn_ok W (cl_net c') b pend \<and> only_produces pend" if b: "bt_get (cl_conns c') a = Some b" for a b
  proof (cases "a \<in> fst ` set (usable ys)")
    case True
    then have "map_of (usable ys) a = Some b" using b get [of a] by simp
    then have "(a, b) \<in> set (usable ys)" by (rule map_of_SomeD)
    then show ?thesis using kept_taken [OF rb] got by metis
  next
    case False
    then have c: "bt_get (cl_conns c) a = Some b" "a \<notin> set as" using b get [of a] by (auto split: if_splits)
    then show ?thesis using conns_okD [OF ok [unfolded pool_ok_def] c(1)] conn_ok_others [OF _ ot apart [OF c(2,1)]] by metis
  qed
  show "pool_ok W c'" unfolding pool_ok_def conns_ok_def
  proof (intro conjI allI impI)
    fix a b assume "bt_get (cl_conns c') a = Some b"
    from entry [OF this] show "\<exists>pend. conn_ok W (cl_net c') b pend \<and> only_produces pend" by blast
  next
    fix a b a' b' assume "bt_get (cl_conns c') a = Some b" "bt_get (cl_conns c') a' = Some b'" "bk_stream b = bk_stream b'"
    then show "a = a'" using entry pool_stream_own [OF ok] by metis
  qed
  show "log_le (pool_log W) c c'" using ot by (simp add: log_le_def pool_log_def others_def)
  show "pool_unread W c' a = pool_unread W c a" if "a \<notin> set as"
  proof (cases "bt_get (cl_conns c) a")
    case None
    then show ?thesis using get [of a] keys that by (auto simp: pool_unread_def)
  next
    case (Some b)
    then have "bt_get (cl_conns c') a = Some b" using get [of a] keys that by auto
    then show ?thesis using Some conns_okD [OF ok [unfolded pool_ok_def] Some] unread_others [OF _ ot apart [OF that Some]]
      by (simp add: pool_unread_def) metis
  qed
qed

lemma recv_many_ok:
  assumes net: "kafka_network env W Q" and st: "stable W Q" and ok: "pool_ok W c" and "distinct as"
    and run: "cluster_recv_many env (cd_produce (env_codec env)) op as c = (rs, c')"
  shows "receives (pool_unread W) (pool_log W) (\<lambda>c. Q (cl_net c)) c as (rs, c')"
proof -
  obtain xs ys where rr: "recv_result W Q c as rs c' xs ys" using recv_many_reads [OF net st ok run] by blast
  have rb: "list_all2 (read_back W Q (cl_net c) (cl_net c')) xs ys" and rs: "rs = map (\<lambda>(_, _, r). r) ys"
    and xsd: "distinct as \<Longrightarrow> xs = map (\<lambda>a. (a, bt_get (cl_conns c) a)) as"
    and got: "\<And>a b. (a, b) \<in> set (taken xs) \<Longrightarrow> bt_get (cl_conns c) a = Some b \<and> a \<in> set as"
    and get: "\<And>a. bt_get (cl_conns c') a =
           (if a \<in> fst ` set (usable ys) then map_of (usable ys) a else if a \<in> set as then None else bt_get (cl_conns c) a)"
    and ot: "others W (bk_stream ` snd ` set (taken xs)) (cl_net c) (cl_net c')"
    and dk: "distinct (map fst (usable ys))"
    using rr unfolding recv_result_def by blast+
  note xs = xsd [OF assms(4)]
  have len: "length ys = length as" using list_all2_lengthD [OF rb] xs by simp
  have fst: "fst (ys ! i) = as ! i" if "i < length as" for i
    using list_all2_nthD [OF rb, of i] that by (simp add: xs read_back_def)
  have at: "pool_unread W c' a \<in> {[], tl (pool_unread W c a)} \<and>
      (\<forall>resp. r = Inr resp \<longrightarrow> pool_unread W c a = hd (pool_unread W c a) # pool_unread W c' a \<and>
         Q (cl_net c') (hd (pool_unread W c a)) resp)" if "(a, r) \<in> set (zip as rs)" for a r
  proof -
    from \<open>(a, r) \<in> set (zip as rs)\<close> obtain i where z: "i < length as" "i < length rs" "as ! i = a" "rs ! i = r"
      by (auto simp: in_set_zip)
    then have i: "i < length as" "as ! i = a" "snd (snd (ys ! i)) = r" using len by (auto simp: rs case_prod_beta)
    have y: "ys ! i = (a, fst (snd (ys ! i)), r)" using fst [OF i(1)] i by (simp add: prod_eq_iff)
    have "read_back W Q (cl_net c) (cl_net c') (a, bt_get (cl_conns c) a) (a, fst (snd (ys ! i)), r)"
      using list_all2_nthD [OF rb, of i] i y by (simp add: xs)
    moreover have dropped: "pool_unread W c' a = []" if r: "r = Inl e" for e
    proof -
      have "a \<notin> fst ` set (usable ys)"
      proof
        assume "a \<in> fst ` set (usable ys)"
        then obtain b' x where "(a, Some b', Inr x) \<in> set ys" by (auto simp: set_usable)
        then obtain j where j: "j < length as" "ys ! j = (a, Some b', Inr x)" by (auto simp: in_set_conv_nth len)
        then have "j = i" using fst [OF j(1)] i(1,2) nth_eq_iff_index_eq [OF assms(4)] by simp
        then show False using i(3) j(2) r by simp
      qed
      moreover have "a \<in> set as" using i by auto
      ultimately show ?thesis using get [of a] by (simp add: pool_unread_def)
    qed
    ultimately show ?thesis
    proof (cases rule: read_back_cases)
      case (answer a2 b b' resp q ps)
      have "(a, Some b', Inr resp) \<in> set ys" using answer y i(1) len nth_mem [of i ys] by simp
      then have k: "(a, b') \<in> set (usable ys)" by (auto simp: set_usable)
      then have "bt_get (cl_conns c') a = Some b'" using get [of a] dk by (force simp: image_iff)
      then have "pool_unread W c' a = produces ps" using unread_pending [OF answer(4)] by (simp add: pool_unread_def)
      moreover have "pool_unread W c a = q # produces ps" using answer by (auto simp: pool_unread_def)
      ultimately show ?thesis using answer by simp
    qed (use dropped in auto)
  qed
  show ?thesis unfolding receives_def
    using at recv_many_pool(2,3) [OF net st ok run] len rs by auto
qed

end
