(* ===== verification/Toy_Network.thy ===== *)
theory Toy_Network
  imports Wire_Pool
begin

text \<open>
  A network the client can run over: one broker that answers at once, for a codec of a few bytes.  It shows that what the
  theorems ask of a network can hold, also while requests are written and answers read.
\<close>

datatype toy_request = Toy_versions u8 | Toy_metadata u8 | Toy_produce u8 u8

text \<open>Per connection: what was written on it, and how many bytes of the answers were read.\<close>

type_synonym toy_net = "(toy_request list \<times> nat) list"

definition toy_batch :: "u8 \<Rightarrow> produce_request" where
  "toy_batch b = \<lparr>pr_acks = - 1, pr_timeout_ms = 30000, pr_topics = [(''t'', [(0, [b])])], pr_transactional_id = None\<rparr>"

fun toy_seen :: "toy_request \<Rightarrow> pending \<times> api_request" where
  "toy_seen (Toy_versions i) =
     (\<lparr>p_api_key = 18, p_version = 3, p_correlation_id = uint i\<rparr>, ApiVersionsRequest ''c'' ''0.0.1'')"
| "toy_seen (Toy_metadata i) =
     (\<lparr>p_api_key = 3, p_version = 12, p_correlation_id = uint i\<rparr>, MetadataRequest [''t''] True)"
| "toy_seen (Toy_produce i b) =
     (\<lparr>p_api_key = 0, p_version = 9, p_correlation_id = uint i\<rparr>, ProduceRequest (toy_batch b))"

fun toy_body :: "api_request \<Rightarrow> int \<Rightarrow> string + bytes" where
  "toy_body (ApiVersionsRequest c s) v = (if c = ''c'' \<and> s = ''0.0.1'' \<and> v = 3 then Inr [] else Inl [])"
| "toy_body (MetadataRequest ts auto) v = (if ts = [''t''] \<and> auto \<and> v = 12 then Inr [] else Inl [])"
| "toy_body (ProduceRequest q) v =
     (let b = hd (snd (hd (snd (hd (pr_topics q))))) in if q = toy_batch b \<and> v = 9 then Inr [b] else Inl [])"
| "toy_body _ v = Inl []"

definition toy_header :: "request_header \<Rightarrow> string + bytes" where
  "toy_header h =
     (if 0 \<le> correlation_id h \<and> correlation_id h < 256
      then Inr [word_of_int (request_api_key h), word_of_int (correlation_id h)] else Inl [])"

definition toy_parse :: "bytes \<Rightarrow> toy_request option" where
  "toy_parse bs =
     (case drop 4 bs of
        [k, i] \<Rightarrow> if k = 18 then Some (Toy_versions i) else if k = 3 then Some (Toy_metadata i) else None
      | [k, i, b] \<Rightarrow> Some (Toy_produce i b)
      | _ \<Rightarrow> None)"

fun toy_reply :: "toy_request \<Rightarrow> bytes" where
  "toy_reply (Toy_versions i) = [i]"
| "toy_reply (Toy_metadata i) = [i]"
| "toy_reply (Toy_produce i b) = [i]"

definition toy_answers :: "toy_request list \<Rightarrow> bytes" where
  "toy_answers rs = concat (map (wire \<circ> toy_reply) rs)"

definition toy_write :: "toy_net \<Rightarrow> nat \<Rightarrow> bytes \<Rightarrow> (string + unit) \<times> toy_net" where
  "toy_write n s bs =
     (case toy_parse bs of
        Some r \<Rightarrow> if s < length n
                   then (Inr (), n[s := (fst (n ! s) @ [r], min (snd (n ! s)) (length (toy_answers (fst (n ! s)))))])
                   else (Inl [], n)
      | None \<Rightarrow> (Inl [], n))"

definition toy_read :: "toy_net \<Rightarrow> nat \<Rightarrow> nat \<Rightarrow> (string + bytes) \<times> toy_net" where
  "toy_read n s want =
     (if s < length n
      then let bs = take want (drop (snd (n ! s)) (toy_answers (fst (n ! s))))
           in (Inr bs, n[s := (fst (n ! s), snd (n ! s) + length bs)])
      else (Inl [], n))"

definition toy_codec :: codec where
  "toy_codec = \<lparr>cd_header = toy_header, cd_body = toy_body,
     cd_response_header = (\<lambda>_ bs. case bs of [] \<Rightarrow> Inl [] | x # rest \<Rightarrow> Inr (uint x, rest)),
     cd_response_header_version = (\<lambda>_ _. 0),
     cd_api_versions = (\<lambda>_ _. Inr (0, [])), cd_sasl_handshake = (\<lambda>_ _. Inr (0, [])),
     cd_sasl_authenticate = (\<lambda>_ _. Inr (0, None, [])),
     cd_metadata = (\<lambda>_ _. Inr \<lparr>mr_controller = 1, mr_brokers = [\<lparr>node_id = 1, host = ''h'', port = 9092\<rparr>],
        mr_topics = [\<lparr>rt_error_code = 0, rt_name = Some ''t'',
          rt_partitions = [\<lparr>rp_error_code = 0, rp_index = 0, rp_leader = 1\<rparr>]\<rparr>]\<rparr>),
     cd_find_coordinator = (\<lambda>_ _. Inr \<lparr>ci_error_code = 0, ci_host = ''h'', ci_port = 9092\<rparr>),
     cd_produce = (\<lambda>_ _. Inr [(''t'', [\<lparr>pp_index = 0, pp_error_code = 0, pp_base_offset = 0\<rparr>])]),
     cd_coordinator = (\<lambda>_ _. Inl [])\<rparr>"

definition toy_env :: "toy_net env" where
  "toy_env = \<lparr>tr_connect = (\<lambda>n a. (Inr (length n), n @ [([], 0)])), tr_read = toy_read,
     tr_read_by = (\<lambda>n s want d. case toy_read n s want of (r, n') \<Rightarrow> (Some r, n')), tr_write = toy_write,
     tr_write_by = (\<lambda>n s bs d. case toy_write n s bs of (r, n') \<Rightarrow> (Some r, n')), tr_sleep = (\<lambda>n d. n), tr_now = (\<lambda>n. 0),
     tr_unix_millis = (\<lambda>n. 0), nonce_parts = (\<lambda>n. ((0, 0, 0), n)), first_key = hd, env_codec = toy_codec,
     env_crypto = toy_crypto, env_records = (\<lambda>_ _. Inl [])\<rparr>"

definition toy_view :: "toy_net view" where
  "toy_view = \<lparr>vw_written = (\<lambda>n s. map toy_seen (fst (n ! s))), vw_replies = (\<lambda>n s. map toy_reply (fst (n ! s))),
     vw_delivered = (\<lambda>n s. take (snd (n ! s)) (toy_answers (fst (n ! s)))), vw_open = (\<lambda>n. {..<length n}),
     vw_log = (\<lambda>n k. if k = (''t'', 0) then {[b] | b i. Toy_produce i b \<in> (\<Union>x\<in>set n. set (fst x))} else {})\<rparr>"

lemma toy_reply_ok:
  assumes "r \<in> (\<Union>x\<in>set n. set (fst x))"
  shows "reply_ok toy_codec (answered (vw_log toy_view)) n (toy_seen r) (toy_reply r)"
  using assms
  by (cases r) (auto simp: reply_ok_def toy_codec_def DEFAULT_MAX_FRAME_def answered_def Window_Exchange.covers_def response_codes_def
      request_items_def toy_batch_def toy_view_def)

lemma toy_stream: "s \<in> vw_open toy_view n \<Longrightarrow> stream_ok toy_codec toy_view (answered (vw_log toy_view)) n s"
  unfolding stream_ok_def
proof (intro conjI allI impI)
  assume s: "s \<in> vw_open toy_view n"
  show "length (vw_replies toy_view n s) \<le> length (vw_written toy_view n s)" by (simp add: toy_view_def)
  show "prefix (vw_delivered toy_view n s) (concat (map wire (vw_replies toy_view n s)))"
    by (simp add: toy_view_def toy_answers_def comp_def take_is_prefix)
  fix i assume i: "i < length (vw_replies toy_view n s)"
  then have "(fst (n ! s)) ! i \<in> (\<Union>x\<in>set n. set (fst x))" using s by (auto simp: toy_view_def intro!: bexI [of _ "n ! s"])
  from toy_reply_ok [OF this] i
  show "reply_ok toy_codec (answered (vw_log toy_view)) n (vw_written toy_view n s ! i) (vw_replies toy_view n s ! i)"
    by (simp add: toy_view_def)
qed

lemma toy_sent:
  assumes "sent_as toy_codec p rq bs"
  shows "\<exists>r. toy_parse bs = Some r \<and> toy_seen r = (p, rq)"
proof -
  obtain cid h b where h: "toy_header \<lparr>request_api_key = p_api_key p, request_api_version = p_version p,
        correlation_id = p_correlation_id p, header_client_id = Some cid\<rparr> = Inr h"
    and b: "toy_body rq (p_version p) = Inr b" and f: "frame (h @ b) = Inr bs" and k: "p_api_key p = api_key_of rq"
    using assms by (auto simp: sent_as_def toy_codec_def)
  have bs: "drop 4 bs = h @ b" using f by (simp add: frame_wire wire_def)
  have id: "uint (word_of_int (p_correlation_id p) :: u8) = p_correlation_id p"
    and h2: "h = [word_of_int (p_api_key p), word_of_int (p_correlation_id p)]"
    using h by (auto simp: toy_header_def uint_word_of_int split: if_splits)
  show ?thesis using b k id
    by (cases rq) (auto simp: toy_parse_def bs h2 Let_def split: if_splits)
qed

lemma toy_batches_mono: "A \<subseteq> B \<Longrightarrow> {[b] | b i. Toy_produce i b \<in> A} \<subseteq> {[b] | b i. Toy_produce i b \<in> B}"
  by blast

lemma toy_others:
  assumes "s < length n" and "set (fst (n ! s)) \<subseteq> set (fst x)"
  shows "others toy_view {s} n (n[s := x])"
proof -
  have "(\<Union>y\<in>set n. set (fst y)) \<subseteq> (\<Union>y\<in>set (n[s := x]). set (fst y))"
  proof
    fix r assume "r \<in> (\<Union>y\<in>set n. set (fst y))"
    then obtain y where y: "y \<in> set n" "r \<in> set (fst y)" by blast
    then obtain j where j: "j < length n" "r \<in> set (fst (n ! j))" by (metis in_set_conv_nth)
    then have "r \<in> set (fst (n[s := x] ! j))" using assms by (cases "j = s") auto
    then show "r \<in> (\<Union>y\<in>set (n[s := x]). set (fst y))" using j nth_mem [of j "n[s := x]"] by (auto simp del: nth_list_update)
  qed
  from toy_batches_mono [OF this] have "vw_log toy_view n k \<subseteq> vw_log toy_view (n[s := x]) k" for k
    unfolding toy_view_def by simp
  then show ?thesis unfolding others_def by (auto simp: toy_view_def same_stream_def)
qed

lemma toy_writes: "net_writes toy_env toy_view"
  unfolding net_writes_def
proof (intro allI impI)
  fix n s bs and lim :: limit assume s: "s \<in> vw_open toy_view n"
  then have lt: "s < length n" by (simp add: toy_view_def)
  have w: "write_all toy_env n s bs lim = (case toy_write n s bs of (Inl e, n') \<Rightarrow> (Inl (Io e), n') | (Inr u, n') \<Rightarrow> (Inr u, n'))"
    by (auto simp: write_all_def toy_env_def split: option.splits prod.splits sum.splits)
  show "case write_all toy_env n s bs lim of (r, n') \<Rightarrow> others toy_view {s} n n' \<and>
        (r = Inr () \<longrightarrow> vw_delivered toy_view n' s = vw_delivered toy_view n s \<and>
           prefix (vw_replies toy_view n s) (vw_replies toy_view n' s) \<and>
           (\<forall>p rq. sent_as (env_codec toy_env) p rq bs \<longrightarrow> vw_written toy_view n' s = vw_written toy_view n s @ [(p, rq)]))"
  proof (cases "toy_parse bs")
    case None
    then show ?thesis by (simp add: w toy_write_def)
  next
    case (Some r)
    have sent: "toy_seen r = (p, rq)" if "sent_as toy_codec p rq bs" for p rq using toy_sent [OF that] Some by auto
    have ot: "others toy_view {s} n (n[s := (fst (n ! s) @ [r], min (snd (n ! s)) (length (toy_answers (fst (n ! s)))))])"
      by (rule toy_others) (use lt in auto)
    have tk: "take (min d (length xs)) xs = take d xs" for d and xs :: bytes by (simp add: min_def)
    show ?thesis using lt ot sent
      by (simp add: w toy_write_def Some) (simp add: toy_view_def toy_env_def toy_answers_def tk)
  qed
qed

lemma toy_reads: "net_reads toy_env toy_view"
  unfolding net_reads_def
proof (intro allI impI)
  fix n s want and lim :: limit assume s: "s \<in> vw_open toy_view n"
  then have lt: "s < length n" by (simp add: toy_view_def)
  let ?bs = "take want (drop (snd (n ! s)) (toy_answers (fst (n ! s))))"
  let ?n' = "n[s := (fst (n ! s), snd (n ! s) + length ?bs)]"
  have r: "read_some toy_env n s want lim = (Inr ?bs, ?n')"
    using lt by (auto simp: read_some_def toy_env_def toy_read_def Let_def split: option.splits)
  have ot: "others toy_view {s} n ?n'" by (rule toy_others) (use lt in auto)
  have "vw_delivered toy_view ?n' s = vw_delivered toy_view n s @ ?bs" using lt by (simp add: toy_view_def take_add min_def)
  moreover have "vw_written toy_view ?n' s = vw_written toy_view n s" "vw_replies toy_view ?n' s = vw_replies toy_view n s"
    using lt by (simp_all add: toy_view_def)
  ultimately show "case read_some toy_env n s want lim of (r, n') \<Rightarrow> others toy_view {s} n n' \<and>
        (\<forall>bs. r = Inr bs \<longrightarrow> vw_written toy_view n' s = vw_written toy_view n s \<and>
           prefix (vw_replies toy_view n s) (vw_replies toy_view n' s) \<and>
           vw_delivered toy_view n' s = vw_delivered toy_view n s @ bs)"
    unfolding r using ot by simp
qed

lemma toy_connects: "net_connects toy_env toy_view"
  by (auto simp: net_connects_def toy_env_def toy_view_def others_def same_stream_def nth_append toy_answers_def)

lemma toy_fits: "net_fits toy_codec"
proof -
  have "length h \<le> 2" if "toy_header hd = Inr h" for hd h using that by (auto simp: toy_header_def split: if_splits)
  moreover have "length b \<le> 1" if "toy_body rq v = Inr b" for rq v b
    using that by (cases rq) (auto simp: Let_def split: if_splits)
  ultimately show ?thesis unfolding net_fits_def toy_codec_def by fastforce
qed

lemma toy_network: "kafka_network toy_env toy_view (answered (vw_log toy_view))"
  unfolding kafka_network_def
proof (intro conjI allI impI)
  show "stream_ok (env_codec toy_env) toy_view (answered (vw_log toy_view)) n s" if "s \<in> vw_open toy_view n" for n s
    using toy_stream [OF that] by (simp add: toy_env_def)
  show "net_waits toy_env toy_view" by (simp add: net_waits_def toy_env_def)
  show "net_fits (env_codec toy_env)" using toy_fits by (simp add: toy_env_def)
qed (rule toy_connects toy_writes toy_reads)+

end
