(* ===== verification/Wire_Window.thy ===== *)
theory Wire_Window
  imports Toy_Network "HOL-Library.AList_Mapping" "HOL-Library.Code_Target_Numeral"
begin

text \<open>
  The producer's window over the connection pool: its laws hold of the pool while the pool is in step,
  every operation of the window keeps it so, and with that what is proved of the window holds of
  \<open>flush\<close> running over the connections themselves.
\<close>

section \<open>Laws that hold under an invariant\<close>

definition preserves :: "('w \<Rightarrow> bool) \<Rightarrow> 'w cluster_ops \<Rightarrow> bool" where
  "preserves I ops \<longleftrightarrow>
     (\<forall>w t i. I w \<longrightarrow> I (snd (leader_addr ops w t i))) \<and>
     (\<forall>w t. I w \<longrightarrow> I (snd (refresh_metadata ops w t))) \<and>
     (\<forall>w t i. I w \<longrightarrow> I (invalidate ops w t i)) \<and>
     (\<forall>w d. I w \<longrightarrow> I (sleep ops w d)) \<and>
     (\<forall>w a rq. I w \<longrightarrow> I (snd (send_at ops w a rq))) \<and>
     (\<forall>w as. I w \<longrightarrow> I (snd (recv_many ops w as)))"

text \<open>The operations as they are under the invariant; elsewhere they fail and change nothing.\<close>

definition guard :: "('w \<Rightarrow> bool) \<Rightarrow> 'w cluster_ops \<Rightarrow> 'w cluster_ops" where
  "guard I ops = ops\<lparr>
     leader_addr := (\<lambda>w t i. if I w then leader_addr ops w t i else (Inl (Io []), w)),
     refresh_metadata := (\<lambda>w t. if I w then refresh_metadata ops w t else (Inl (Io []), w)),
     invalidate := (\<lambda>w t i. if I w then invalidate ops w t i else w),
     sleep := (\<lambda>w d. if I w then sleep ops w d else w),
     send_at := (\<lambda>w a rq. if I w then send_at ops w a rq else (Inl (Io []), w)),
     recv_many := (\<lambda>w as. if I w then recv_many ops w as else (map (\<lambda>_. Inl (Io [])) as, w))\<rparr>"

lemma guard_simps [simp]:
  "I w \<Longrightarrow> leader_addr (guard I ops) w t i = leader_addr ops w t i"
  "I w \<Longrightarrow> refresh_metadata (guard I ops) w t = refresh_metadata ops w t"
  "I w \<Longrightarrow> invalidate (guard I ops) w t i = invalidate ops w t i"
  "I w \<Longrightarrow> sleep (guard I ops) w d = sleep ops w d"
  "I w \<Longrightarrow> send_at (guard I ops) w a rq = send_at ops w a rq"
  "I w \<Longrightarrow> recv_many (guard I ops) w as = recv_many ops w as"
  by (simp_all add: guard_def)

lemma preservesD:
  assumes "preserves I ops" and "I w"
  shows "leader_addr ops w t i = (r1, w1) \<Longrightarrow> I w1" "refresh_metadata ops w t = (r2, w1) \<Longrightarrow> I w1"
    "I (invalidate ops w t i)" "I (sleep ops w d)"
    "send_at ops w a rq = (r3, w1) \<Longrightarrow> I w1" "recv_many ops w as = (r4, w1) \<Longrightarrow> I w1"
  using assms unfolding preserves_def by (metis snd_conv)+

text \<open>Each function of the window, under the invariant, does not see the guard.\<close>

lemma send_round_guard:
  assumes pr: "preserves I ops"
  shows "I (pd_cluster p) \<Longrightarrow> send_round (guard I ops) p r bb sent = send_round ops p r bb sent \<and>
    I (pd_cluster (snd (send_round ops p r bb sent)))"
proof (induction bb arbitrary: p sent)
  case (Cons b bb)
  obtain a keys where b: "b = (a, keys)" by (cases b)
  obtain x w where x: "send_at ops (pd_cluster p) a (produce_request_for p (taking p r keys) r) = (x, w)" by fastforce
  have "I w" using preservesD(5) [OF pr Cons.prems x] .
  then show ?case using Cons x by (cases x) (simp_all add: b Let_def)
qed simp

lemma collect_rounds_guard:
  assumes pr: "preserves I ops"
  shows "I (pd_cluster p) \<Longrightarrow> collect_rounds (guard I ops) r rounds p out err = collect_rounds ops r rounds p out err \<and>
    I (pd_cluster (snd (collect_rounds ops r rounds p out err)))"
proof (induction rounds arbitrary: r p out err)
  case (Cons sent rounds)
  obtain rs w where x: "recv_many ops (pd_cluster p) (map fst sent) = (rs, w)" by fastforce
  obtain codes offs err' where y: "collect_round r (zip sent rs) ([], pd_offsets p, err) = (codes, offs, err')" by (metis surj_pair)
  have "I w" using preservesD(6) [OF pr Cons.prems x] .
  then show ?case using Cons x y by simp
qed simp

lemma send_rounds_guard:
  assumes pr: "preserves I ops"
  shows "I (pd_cluster p) \<Longrightarrow> send_rounds (guard I ops) p bb rs rounds = send_rounds ops p bb rs rounds \<and>
    I (pd_cluster (snd (send_rounds ops p bb rs rounds)))"
proof (induction rs arbitrary: p rounds)
  case (Cons r rs)
  obtain e sent p' where x: "send_round ops p r bb [] = ((e, sent), p')" by (metis surj_pair)
  have "I (pd_cluster p')" "send_round (guard I ops) p r bb [] = ((e, sent), p')"
    using send_round_guard [OF pr Cons.prems, of r bb "[]"] x by simp_all
  then show ?case using Cons.IH x collect_rounds_guard [OF pr, of p'] by (cases e) (simp_all add: collect_window_def)
qed simp

lemma route_guard:
  assumes pr: "preserves I ops"
  shows "I (pd_cluster p) \<Longrightarrow> route (guard I ops) p keys bb u = route ops p keys bb u \<and> I (pd_cluster (snd (route ops p keys bb u)))"
proof (induction keys arbitrary: p bb u)
  case (Cons key keys)
  obtain x w where x: "leader_addr ops (pd_cluster p) (fst key) (snd key) = (x, w)" by fastforce
  have "I w" using preservesD(1) [OF pr Cons.prems x] .
  then show ?case using Cons x by (auto split: sum.splits client_error.splits)
qed simp

lemma refresh_topics_guard:
  assumes pr: "preserves I ops"
  shows "I (pd_cluster p) \<Longrightarrow> refresh_topics (guard I ops) p ts = refresh_topics ops p ts \<and> I (pd_cluster (snd (refresh_topics ops p ts)))"
proof (induction ts arbitrary: p)
  case (Cons t ts)
  obtain x w where x: "refresh_metadata ops (pd_cluster p) t = (x, w)" by fastforce
  have "I w" using preservesD(2) [OF pr Cons.prems x] .
  then show ?case using Cons x by (cases x) simp_all
qed simp

lemma wait_retry_guard:
  assumes "preserves I ops" and "I (pd_cluster p)"
  shows "wait_retry (guard I ops) p n = wait_retry ops p n" and "I (pd_cluster (wait_retry ops p n))"
  using assms preservesD(4) [OF assms] by (simp_all add: wait_retry_def backoff_def)

definition verdict_in :: "('w \<Rightarrow> bool) \<Rightarrow> (client_error \<times> 'w producer) + 'w verdict \<Rightarrow> bool" where
  "verdict_in I x \<longleftrightarrow> (case x of Inl (e, p) \<Rightarrow> I (pd_cluster p) | Inr v \<Rightarrow> I (pd_cluster (vd_producer v)))"

lemma note_result_guard:
  assumes pr: "preserves I ops" and "I (pd_cluster (vd_producer v))"
  shows "note_result (guard I ops) r kc v = note_result ops r kc v \<and> verdict_in I (note_result ops r kc v)"
  using assms(2) preservesD(3) [OF assms]
  by (cases kc) (simp add: note_result_def verdict_in_def Let_def split: disposition.splits)

lemma fold_sum_guard:
  assumes "\<And>x v. I (pd_cluster (vd_producer v)) \<Longrightarrow> f x v = g x v \<and> verdict_in I (g x v)"
  shows "I (pd_cluster (vd_producer v)) \<Longrightarrow> fold_sum f xs v = fold_sum g xs v \<and> verdict_in I (fold_sum g xs v)"
proof (induction xs arbitrary: v)
  case (Cons x xs)
  then show ?case using assms [OF Cons.prems, of x]
    by (cases "g x v") (simp_all add: verdict_in_def)
qed (simp add: verdict_in_def)

lemma note_outcomes_guard:
  assumes pr: "preserves I ops" and "I (pd_cluster p)"
  shows "note_outcomes (guard I ops) outs p = note_outcomes ops outs p \<and> verdict_in I (note_outcomes ops outs p)"
  unfolding note_outcomes_def
proof (rule fold_sum_guard, goal_cases)
  case (1 x v)
  then show ?case unfolding case_prod_beta by (intro fold_sum_guard note_result_guard [OF pr])
qed (use assms(2) in simp)

lemma retire_cluster: "retire failed outs (p, out) = (p', out') \<Longrightarrow> pd_cluster p' = pd_cluster p"
proof -
  assume "retire failed outs (p, out) = (p', out')"
  then have "p' = p\<lparr>pd_pending := pd_pending p'\<rparr>" using retire_fold_queue unfolding retire_items by blast
  then have "pd_cluster p' = pd_cluster (p\<lparr>pd_pending := pd_pending p'\<rparr>)" by (rule arg_cong)
  then show ?thesis by simp
qed

definition turn_in :: "('w \<Rightarrow> bool) \<Rightarrow> 'w turn \<Rightarrow> bool" where
  "turn_in I x \<longleftrightarrow> (case x of Done r p \<Rightarrow> I (pd_cluster p) | Again out p \<Rightarrow> I (pd_cluster p))"

lemma after_window_guard:
  assumes pr: "preserves I ops" and "I (pd_cluster p)"
  shows "after_window (guard I ops) n outs out p = after_window ops n outs out p \<and> turn_in I (after_window ops n outs out p)"
proof (cases "note_outcomes ops outs p")
  case (Inl x)
  then show ?thesis using note_outcomes_guard [OF assms, of outs]
    by (cases x) (simp add: after_window_def turn_in_def verdict_in_def)
next
  case (Inr v)
  obtain p1 out1 where r: "retire (vd_failed_at v) outs (vd_producer v, out) = (p1, out1)" by fastforce
  let ?p2 = "drop_empty (p1\<lparr>pd_offsets := []\<rparr>)" and ?ts = "remdups_adj (sort (map fst (bt_keys (pd_pending (drop_empty (p1\<lparr>pd_offsets := []\<rparr>))))))"
  have i2: "I (pd_cluster ?p2)" using note_outcomes_guard [OF assms, of outs] Inr retire_cluster [OF r]
    by (simp add: verdict_in_def drop_empty_def)
  obtain x p3 where x: "refresh_topics ops ?p2 ?ts = (x, p3)" by fastforce
  have g: "refresh_topics (guard I ops) ?p2 ?ts = (x, p3)" "I (pd_cluster p3)"
    using refresh_topics_guard [OF pr i2, of ?ts] x by simp_all
  have n: "note_outcomes (guard I ops) outs p = Inr v" using note_outcomes_guard [OF assms, of outs] Inr by simp
  show ?thesis using i2 g x wait_retry_guard [OF pr i2, of n] wait_retry_guard [OF pr g(2), of n]
    by (cases x) (simp_all add: after_window_def turn_in_def Inr n r Let_def)
qed

lemma flush_turn_guard:
  assumes pr: "preserves I ops" and "I (pd_cluster p0)"
  shows "flush_turn (guard I ops) n out p0 = flush_turn ops n out p0 \<and> turn_in I (flush_turn ops n out p0)"
proof -
  let ?p = "drop_empty p0"
  have i: "I (pd_cluster ?p)" using assms(2) by (simp add: drop_empty_def)
  obtain x p1 where x: "route ops ?p (bt_keys (pd_pending ?p)) [] False = (x, p1)" by fastforce
  have gx: "route (guard I ops) ?p (bt_keys (pd_pending ?p)) [] False = (x, p1)" "I (pd_cluster p1)"
    using route_guard [OF pr i, of "bt_keys (pd_pending ?p)" "[]" False] x by simp_all
  note w1 = wait_retry_guard [OF pr gx(2)]
  show ?thesis
  proof (cases x)
    case (Inl e)
    then show ?thesis using i gx x by (simp add: flush_turn_def turn_in_def Let_def)
  next
    case (Inr bu)
    obtain bb u where bu: "bu = (bb, u)" by (cases bu)
    obtain y p2 where y: "send_window ops p1 bb (window_depth p1 bb) = (y, p2)" by fastforce
    have gy: "send_window (guard I ops) p1 bb (window_depth p1 bb) = (y, p2)" "I (pd_cluster p2)"
      using send_rounds_guard [OF pr gx(2), of bb "[0..<window_depth p1 bb]" "[]"] y by (simp_all add: send_window_def)
    show ?thesis
    proof (cases y)
      case (Inl e)
      then show ?thesis using i gx x gy y w1 \<open>x = Inr bu\<close> by (simp add: flush_turn_def turn_in_def Let_def bu)
    next
      case (Inr rounds)
      obtain outs err p3 where z: "collect_window ops p2 rounds = ((outs, err), p3)" by (metis surj_pair)
      have gz: "collect_window (guard I ops) p2 rounds = ((outs, err), p3)" "I (pd_cluster p3)"
        using collect_rounds_guard [OF pr gy(2), of 0 rounds "[]" None] z by (simp_all add: collect_window_def)
      have i4: "I (pd_cluster (p3\<lparr>pd_offsets := []\<rparr>))" using gz(2) by simp
      note w4 = wait_retry_guard [OF pr i4, of n] and aw = after_window_guard [OF pr gz(2), of n outs out]
      show ?thesis
      proof (cases err)
        case None
        then show ?thesis using i gx x gy y gz z w1 aw \<open>x = Inr bu\<close> Inr by (simp add: flush_turn_def turn_in_def Let_def bu)
      next
        case (Some e)
        then show ?thesis using i gx x gy y gz z w1 w4 \<open>x = Inr bu\<close> Inr
          by (cases e) (simp_all add: flush_turn_def turn_in_def Let_def bu)
      qed
    qed
  qed
qed

lemma flush_pending_guard:
  assumes pr: "preserves I ops" and "I (pd_cluster p)"
  shows "flush_pending (guard I ops) p = flush_pending ops p"
proof -
  have "flush_loop (guard I ops) ns out p = flush_loop ops ns out p" if "I (pd_cluster p)" for ns out p
    using that
  proof (induction ns arbitrary: out p)
    case (Cons n ns)
    then show ?case using flush_turn_guard [OF pr Cons.prems, of n out]
      by (cases "flush_turn ops n out p") (simp_all add: turn_in_def)
  qed simp
  then show ?thesis using assms(2) by (simp add: flush_pending_def)
qed

section \<open>The pool keeps the laws\<close>

definition in_step :: "('w \<Rightarrow> bool) \<Rightarrow> ('w \<Rightarrow> string \<Rightarrow> produce_request list) \<Rightarrow> 'w \<Rightarrow> string \<Rightarrow> produce_request list" where
  "in_step I outst w a = (if I w then outst w a else [])"

definition pipelined_on ::
  "('w \<Rightarrow> bool) \<Rightarrow> ('w \<Rightarrow> string \<Rightarrow> produce_request list) \<Rightarrow> ('w \<Rightarrow> partition_key \<Rightarrow> bytes set) \<Rightarrow>
   ('w \<Rightarrow> produce_request \<Rightarrow> produce_response \<Rightarrow> bool) \<Rightarrow> 'w cluster_ops \<Rightarrow> bool" where
  "pipelined_on I outst log Q ops \<longleftrightarrow>
     (\<forall>w t i. I w \<longrightarrow> quiet outst log w (snd (leader_addr ops w t i))) \<and>
     (\<forall>w t. I w \<longrightarrow> quiet outst log w (snd (refresh_metadata ops w t))) \<and>
     (\<forall>w t i. I w \<longrightarrow> quiet outst log w (invalidate ops w t i)) \<and>
     (\<forall>w n. I w \<longrightarrow> quiet outst log w (sleep ops w n)) \<and>
     (\<forall>w a rq. I w \<longrightarrow> sends outst log w a rq (send_at ops w a rq)) \<and>
     (\<forall>w as. I w \<longrightarrow> log_le log w (snd (recv_many ops w as))) \<and>
     (\<forall>w as. I w \<longrightarrow> distinct as \<longrightarrow> receives outst log Q w as (recv_many ops w as))"

lemma quiet_step: "I w \<Longrightarrow> I w' \<Longrightarrow> quiet (in_step I outst) log w w' = quiet outst log w w'"
  by (simp add: quiet_def idle_def in_step_def)

lemma sends_step: "I w \<Longrightarrow> I (snd res) \<Longrightarrow> sends (in_step I outst) log w a rq res = sends outst log w a rq res"
  by (simp add: sends_def in_step_def)

lemma receives_step: "I w \<Longrightarrow> I (snd res) \<Longrightarrow> receives (in_step I outst) log Q w as res = receives outst log Q w as res"
  by (simp add: receives_def in_step_def)

lemma receives_nothing: "\<not> I w \<Longrightarrow> receives (in_step I outst) log Q w as (map (\<lambda>_. Inl e) as, w)"
  by (auto simp: receives_def in_step_def set_zip)

lemma guard_pipelined:
  assumes "preserves I ops" and "pipelined_on I outst log Q ops"
  shows "pipelined (in_step I outst) log Q (guard I ops)"
  unfolding pipelined_def
proof (intro conjI allI impI, goal_cases)
  case (1 w t i)
  then show ?case using assms unfolding preserves_def pipelined_on_def
    by (cases "I w") (simp_all add: quiet_step, simp add: guard_def quiet_def)
next
  case (2 w t)
  then show ?case using assms unfolding preserves_def pipelined_on_def
    by (cases "I w") (simp_all add: quiet_step, simp add: guard_def quiet_def)
next
  case (3 w t i)
  then show ?case using assms unfolding preserves_def pipelined_on_def
    by (cases "I w") (simp_all add: quiet_step, simp add: guard_def quiet_def)
next
  case (4 w n)
  then show ?case using assms unfolding preserves_def pipelined_on_def
    by (cases "I w") (simp_all add: quiet_step, simp add: guard_def quiet_def)
next
  case (5 w a rq)
  then show ?case using assms unfolding preserves_def pipelined_on_def
    by (cases "I w") (simp_all add: sends_step, simp add: guard_def sends_def)
next
  case (6 w as)
  then show ?case using assms unfolding preserves_def pipelined_on_def
    by (cases "I w") (simp_all, simp add: guard_def)
next
  case (7 w as)
  then show ?case using assms unfolding preserves_def pipelined_on_def
    by (cases "I w") (simp_all add: receives_step, simp add: guard_def receives_nothing)
qed

lemma keeps_quiet: "keeps W c c' \<Longrightarrow> quiet (pool_unread W) (pool_log W) c c'"
  by (simp add: keeps_def quiet_def idle_def)

lemma invalidate_keeps: "pool_ok W c \<Longrightarrow> keeps W c (cluster_invalidate t i c)"
  by (rule keeps_same [OF keeps_refl]) (simp_all add: cluster_invalidate_def)

lemma sleep_keeps:
  assumes "kafka_network env W Q" and "pool_ok W c"
  shows "keeps W c (c\<lparr>cl_net := tr_sleep env (cl_net c) d\<rparr>)"
proof -
  have "others W {} (cl_net c) (tr_sleep env (cl_net c) d)" using assms(1) unfolding kafka_network_def net_waits_def by blast
  from pool_others [OF assms(2) this] show ?thesis by (simp add: keeps_def)
qed

lemma pool_preserves:
  assumes net: "kafka_network env W Q" and st: "stable W Q"
  shows "preserves (pool_ok W) (cluster_ops_of env)"
  unfolding preserves_def
proof (intro conjI allI impI, goal_cases)
  case (1 w t i)
  then show ?case using keeps_ok [OF leader_addr_ok [OF net 1 surjective_pairing]] by (simp add: cluster_ops_of_def)
next
  case (2 w t)
  then show ?case using keeps_ok [OF refresh_ok [OF net 2 surjective_pairing]] by (simp add: cluster_ops_of_def)
next
  case (3 w t i)
  then show ?case using keeps_ok [OF invalidate_keeps [OF 3]] by (simp add: cluster_ops_of_def)
next
  case (4 w d)
  then show ?case using keeps_ok [OF sleep_keeps [OF net 4]] by (simp add: cluster_ops_of_def)
next
  case (5 w a rq)
  then show ?case using send_attempt_ok [OF net 5 surjective_pairing] by (simp add: cluster_ops_of_def cluster_send_at_def)
next
  case (6 w as)
  then show ?case using recv_many_pool(1) [OF net st 6 surjective_pairing] by (simp add: cluster_ops_of_def)
qed

lemma pool_pipelined:
  assumes net: "kafka_network env W Q" and st: "stable W Q"
  shows "pipelined_on (pool_ok W) (pool_unread W) (pool_log W) (\<lambda>c. Q (cl_net c)) (cluster_ops_of env)"
  unfolding pipelined_on_def
proof (intro conjI allI impI, goal_cases)
  case (1 w t i)
  then show ?case using keeps_quiet [OF leader_addr_ok [OF net 1 surjective_pairing]] by (simp add: cluster_ops_of_def)
next
  case (2 w t)
  then show ?case using keeps_quiet [OF refresh_ok [OF net 2 surjective_pairing]] by (simp add: cluster_ops_of_def)
next
  case (3 w t i)
  then show ?case using keeps_quiet [OF invalidate_keeps [OF 3]] by (simp add: cluster_ops_of_def)
next
  case (4 w d)
  then show ?case using keeps_quiet [OF sleep_keeps [OF net 4]] by (simp add: cluster_ops_of_def)
next
  case (5 w a rq)
  then show ?case using send_attempt_ok [OF net 5 surjective_pairing]
    by (simp add: cluster_ops_of_def cluster_send_at_def sends_def)
next
  case (6 w as)
  then show ?case using recv_many_pool(2) [OF net st 6 surjective_pairing] by (simp add: cluster_ops_of_def)
next
  case (7 w as)
  then show ?case using recv_many_ok [OF net st 7(1) 7(2) surjective_pairing] by (simp add: cluster_ops_of_def)
qed

section \<open>Flushing over the connections\<close>

lemma stable_answered: "stable W (answered (vw_log W))"
  unfolding stable_def answered_def by (auto split: prod.splits) blast+

lemma pool_answered: "(\<lambda>c. answered (vw_log W) (cl_net c)) = answered (pool_log W)"
  by (simp add: answered_def pool_log_def fun_eq_iff)

text \<open>
  C4: the producer's window over the real connection pool.  Over a network whose brokers answer the requests of each
  connection in order, and answer a produce request with success only when the batch is in the log, with every
  pooled connection in step and no answer outstanding: \<open>flush\<close>, run over the pool and its connections, removes from each partition's
  queue only a leading run of batches that are in the partition's log, does not panic, and when it reports success has
  nothing left queued; whatever connections are lost, reopened or refused on the way.
\<close>
theorem flush_over_the_wire:
  assumes "kafka_network env W (answered (vw_log W))" and "pool_ok W (pd_cluster p)"
    and "idle (pool_unread W) (pd_cluster p)" and "bt_wf (pd_pending p)"
    and "flush_pending (cluster_ops_of env) p = (res, p')"
  shows "(\<forall>k. \<exists>n. queue p' k = drop n (queue p k) \<and> set (take n (queue p k)) \<subseteq> vw_log W (cl_net (pd_cluster p')) k) \<and>
    res \<noteq> Inl Panicked \<and> (\<forall>written. res = Inr written \<longrightarrow> pd_pending p' = [])"
proof -
  note pr = pool_preserves [OF assms(1) stable_answered]
  have law: "pipelined (in_step (pool_ok W) (pool_unread W)) (pool_log W) (answered (pool_log W)) (guard (pool_ok W) (cluster_ops_of env))"
    using guard_pipelined [OF pr pool_pipelined [OF assms(1) stable_answered]] unfolding pool_answered .
  have idle: "idle (in_step (pool_ok W) (pool_unread W)) (pd_cluster p)" using assms(3) by (simp add: idle_def in_step_def)
  have run: "flush_pending (guard (pool_ok W) (cluster_ops_of env)) p = (res, p')"
    using flush_pending_guard [OF pr assms(2)] assms(5) by simp
  from flush_pending_ok [OF law idle assms(4) run] show ?thesis by (simp add: pool_log_def)
qed

text \<open>
  C22: coordinator and metadata traffic does not disturb a window in flight.  Over such a network, with the pool in step, a call to any
  address, whatever its outcome, leaves the pool in step, and leaves outstanding on every connection exactly the answers that were outstanding.
\<close>
theorem call_leaves_the_window_alone:
  assumes "kafka_network env W Q" and "reads (env_codec env) dec rq" and "pool_ok W c"
  shows "pool_ok W (snd (cluster_call_at env dec a rq v c)) \<and>
    pool_unread W (snd (cluster_call_at env dec a rq v c)) = pool_unread W c"
  using call_attempt_ok [OF assms surjective_pairing]
  by (simp add: keeps_def cluster_call_at_def call_at_with_timeout_def)

section \<open>Witnesses\<close>

definition toy_cluster :: "toy_net cluster" where
  "toy_cluster = \<lparr>cl_net = [], cl_client_id = ''c'', cl_bootstrap = [''h:9092''], cl_allow_auto_topic_creation = True, cl_conns = [],
     cl_coordinator_conns = [], cl_metadata = new_metadata, cl_refreshed_at = [], cl_metadata_max_age = 300000,
     cl_request_timeout = 30000, cl_credentials = None\<rparr>"

definition toy_producer :: "bytes list \<Rightarrow> toy_net cluster producer" where
  "toy_producer q = \<lparr>pd_cluster = toy_cluster, pd_state = idempotent_producer, pd_transactional_id = None,
     pd_coordinator = None, pd_acks = - 1, pd_timeout_ms = 30000, pd_compression = NoCompression, pd_partitioner = Crc32, pd_round_robin = 0,
     pd_pending = [((''t'', 0), q)], pd_max_in_flight = 5, pd_staged = [], pd_linger = 0, pd_batch_size = 16384,
     pd_offsets = []\<rparr>"

lemma toy_pool: "pool_ok toy_view toy_cluster" "pool_unread toy_view toy_cluster a = []"
  by (simp_all add: pool_ok_def conns_ok_def toy_cluster_def pool_unread_def)

lemma toy_flush:
  "fst (flush_pending (cluster_ops_of toy_env) (toy_producer [[1], [2]])) = Inr [(''t'', 0, 0), (''t'', 0, 0)]"
  by code_simp

theorem flush_over_the_wire_witness:
  "fst (flush_pending (cluster_ops_of toy_env) (toy_producer [[1], [2]])) = Inr [(''t'', 0, 0), (''t'', 0, 0)] \<and>
   pd_pending (snd (flush_pending (cluster_ops_of toy_env) (toy_producer [[1], [2]]))) = [] \<and>
   (\<exists>n. queue (snd (flush_pending (cluster_ops_of toy_env) (toy_producer [[1], [2]]))) (''t'', 0) = drop n [[1], [2]] \<and>
      set (take n [[1], [2]]) \<subseteq>
        vw_log toy_view (cl_net (pd_cluster (snd (flush_pending (cluster_ops_of toy_env) (toy_producer [[1], [2]]))))) (''t'', 0))"
proof -
  let ?p = "toy_producer [[1], [2]]"
  have hyps: "pool_ok toy_view (pd_cluster ?p)" "idle (pool_unread toy_view) (pd_cluster ?p)" "bt_wf (pd_pending ?p)"
    by (simp_all add: toy_producer_def toy_pool idle_def bt_wf_def)
  have q: "queue ?p (''t'', 0) = [[1], [2]]" by (simp add: queue_def toy_producer_def bt_get_def)
  from flush_over_the_wire [OF toy_network hyps surjective_pairing] toy_flush q show ?thesis by (metis (no_types, lifting))
qed

theorem call_leaves_the_window_alone_witness:
  "pool_ok toy_view (snd (cluster_call_at toy_env (cd_metadata toy_codec) ''h:9092'' (MetadataRequest [''t''] True) 12 toy_cluster)) \<and>
   pool_unread toy_view (snd (cluster_call_at toy_env (cd_metadata toy_codec) ''h:9092'' (MetadataRequest [''t''] True) 12 toy_cluster)) =
     pool_unread toy_view toy_cluster"
  using call_leaves_the_window_alone [OF toy_network _ toy_pool(1), of "cd_metadata toy_codec" "MetadataRequest [''t''] True" "''h:9092''" 12]
  by (simp add: toy_env_def reads_own)

end
