(* ===== verification/Cluster_Laws.thy ===== *)
theory Cluster_Laws
  imports Wire_Window
begin

text \<open>
  What the pool of \<open>Cluster\<close> does with one connection: the retry on a stale one, the ones it drops and
  the ones it keeps, and how long a receive can last.
\<close>

section \<open>Receiving ends\<close>

text \<open>\<open>recv\<close> cut off after \<open>k\<close> looks at the buffer.\<close>

fun recv_within ::
  "nat \<Rightarrow> 'n env \<Rightarrow> (int \<Rightarrow> bytes \<Rightarrow> string + 'r) \<Rightarrow> limit \<Rightarrow> 'n \<Rightarrow> broker_conn \<Rightarrow> ((client_error + 'r) \<times> broker_conn \<times> 'n) option" where
  "recv_within 0 env dec lim n b = None"
| "recv_within (Suc k) env dec lim n b =
     (case next_response (cd_response_header (env_codec env)) (cd_response_header_version (env_codec env)) (bk_conn b) of
        (Inl e, c) \<Rightarrow> Some (Inl (Core e), b\<lparr>bk_conn := c\<rparr>, n)
      | (Inr (Some resp), c) \<Rightarrow>
          Some (case decode_response dec resp of Inl e \<Rightarrow> Inl (Core e) | Inr r \<Rightarrow> Inr r, b\<lparr>bk_conn := c\<rparr>, n)
      | (Inr None, c) \<Rightarrow>
          (let b1 = b\<lparr>bk_conn := c\<rparr>; want = min (max (conn_needed c) (16 * 1024)) MAX_READ
           in case read_some env n (bk_stream b) want lim of
                (Inl e, n') \<Rightarrow> Some (Inl e, b1, n')
              | (Inr bs, n') \<Rightarrow>
                  if bs = [] then Some (Inl (Io ''broker closed the connection''), b1, n')
                  else recv_within k env dec lim n' (b1\<lparr>bk_conn := push_bytes c bs\<rparr>)))"

lemma recv_bounded:
  "4 + max_frame (decoder (bk_conn b)) - length (buf (decoder (bk_conn b))) < k \<Longrightarrow>
   recv_within k env dec lim n b = Some (broker_recv env dec lim n b)"
proof (induction k arbitrary: n b)
  case (Suc k)
  obtain x c where x: "next_response (cd_response_header (env_codec env)) (cd_response_header_version (env_codec env)) (bk_conn b) = (x, c)"
    by fastforce
  show ?case
  proof (cases x)
    case (Inl e)
    then show ?thesis using x by (simp add: broker_recv.simps [of env])
  next
    case (Inr ro)
    show ?thesis
    proof (cases ro)
      case (Some r)
      then show ?thesis using x Inr by (simp add: broker_recv.simps [of env])
    next
      case None
      with x Inr have nr: "next_response (cd_response_header (env_codec env)) (cd_response_header_version (env_codec env)) (bk_conn b) = (Inr None, c)"
        by simp
      obtain y n' where y: "read_some env n (bk_stream b) (min (max (conn_needed c) (16 * 1024)) MAX_READ) lim = (y, n')" by fastforce
      show ?thesis
      proof (cases "\<exists>bs. y = Inr bs \<and> bs \<noteq> []")
        case True
        then obtain bs where bs: "y = Inr bs" "bs \<noteq> []" by blast
        let ?b = "b\<lparr>bk_conn := push_bytes c bs\<rparr>"
        have "4 + max_frame (decoder (bk_conn ?b)) - length (buf (decoder (bk_conn ?b))) < k"
          using Suc.prems next_response_none [OF nr] bs(2) by (cases bs) (simp_all add: push_bytes_def push_def)
        from Suc.IH [OF this, of n'] show ?thesis using nr y bs by (simp add: broker_recv.simps [of env dec lim n b])
      next
        case False
        then show ?thesis using nr y by (cases y) (simp_all add: broker_recv.simps [of env])
      qed
    qed
  qed
qed simp

text \<open>
  C29: a receive ends.  Whatever the transport hands it, one byte at a time or a frame that never completes, \<open>recv\<close> returns after
  looking at its buffer at most once for each byte that the largest frame still lacks, and then once more: cut off there,
  it has already returned its result.
\<close>
theorem recv_terminates:
  "recv_within (Suc (4 + max_frame (decoder (bk_conn b)) - length (buf (decoder (bk_conn b))))) env dec lim n b =
     Some (broker_recv env dec lim n b)"
  by (rule recv_bounded) simp

section \<open>One call\<close>

lemma broker_at_pooled: "bt_get (cl_conns c) a = Some b \<Longrightarrow> broker_at env a c = (Inr b, c)"
  by (simp add: broker_at_def)

lemma broker_at_failed: "broker_at env a c = (Inl e, c1) \<Longrightarrow> bt_get (cl_conns c1) a = None"
  by (auto simp: broker_at_def open_conn_def split: option.splits prod.splits sum.splits)

lemma put_drop_conn [simp]:
  "bt_get (cl_conns (drop_conn a c)) x = (if x = a then None else bt_get (cl_conns c) x)"
  "bt_get (cl_conns (put_conn a b c)) x = (if x = a then Some b else bt_get (cl_conns c) x)"
  "cl_net (drop_conn a c) = cl_net c" "cl_net (put_conn a b c) = cl_net c"
  "cl_client_id (drop_conn a c) = cl_client_id c" "cl_client_id (put_conn a b c) = cl_client_id c"
  "cl_credentials (drop_conn a c) = cl_credentials c" "cl_credentials (put_conn a b c) = cl_credentials c"
  by (simp_all add: drop_conn_def put_conn_def btree_simps)

lemma call_attempt_lost:
  "call_attempt env dec a rq v timeout left c = (Inl e, c') \<Longrightarrow> (\<exists>m. e = Io m) \<or> (\<exists>op ad. e = Timeout op ad) \<Longrightarrow>
   bt_get (cl_conns c') a = None"
proof (induction left arbitrary: c rule: less_induct)
  case (less left)
  obtain x c1 where x: "broker_at env a c = (x, c1)" by fastforce
  note run = less.prems(1) [unfolded call_attempt.simps [of env dec a rq v timeout left], unfolded x]
  show ?case
  proof (cases x)
    case (Inl e1)
    then show ?thesis using run broker_at_failed x by fastforce
  next
    case (Inr b)
    show ?thesis
    proof (cases "bk_in_flight b = 0")
      case False
      then show ?thesis using run Inr less.prems(2) by auto
    next
      case True
      obtain y b' n' where y: "broker_call env dec rq v (Some (tr_now env (cl_net c1) + timeout, api_key_of rq, a)) (cl_net c1) b = (y, b', n')"
        by (metis surj_pair)
      show ?thesis
      proof (cases "\<exists>m. y = Inl (Io m)")
        case io: True
        then obtain m where m: "y = Inl (Io m)" by blast
        show ?thesis
        proof (cases left)
          case 0
          then show ?thesis using run Inr True y m by (auto simp: Let_def)
        next
          case (Suc l)
          then have "call_attempt env dec a rq v timeout l (drop_conn a ((put_conn a b' c1)\<lparr>cl_net := n'\<rparr>)) = (Inl e, c')"
            using run Inr True y m by (simp add: Let_def)
          then show ?thesis using less.IH [of l] Suc less.prems(2) by blast
        qed
      next
        case False
        then show ?thesis using run Inr True y less.prems(2) by (cases y) (auto simp: Let_def split: client_error.splits)
      qed
    qed
  qed
qed

text \<open>
  A broken connection is not used again.  Whenever a call to \<open>a\<close> ends in an I/O error or runs into its deadline, on a pooled connection, on the one opened for the
  retry, or while opening one, the pool holds no connection to \<open>a\<close> afterwards: the half-read answer goes with it.
\<close>
theorem lost_connection_is_dropped:
  assumes "cluster_call_at env dec a rq v c = (Inl e, c')" and "(\<exists>m. e = Io m) \<or> (\<exists>op ad. e = Timeout op ad)"
  shows "bt_get (cl_conns c') a = None"
  using call_attempt_lost assms by (simp add: cluster_call_at_def call_at_with_timeout_def)

text \<open>
  A pooled connection that died since its last use is replaced once, silently: when the call on it fails with an I/O error, a new
  connection opens, and the call on that one is answered, the caller gets the answer and the pool the new connection.
\<close>
theorem stale_connection_is_replaced:
  assumes "bt_get (cl_conns c) a = Some b" and "bk_in_flight b = 0"
    and "broker_call env dec rq v (Some (tr_now env (cl_net c) + cl_request_timeout c, api_key_of rq, a)) (cl_net c) b = (Inl (Io m), b1, n1)"
    and "broker_connect env a (cl_client_id c) (cl_credentials c) n1 = (Inr b2, n2)" and "bk_in_flight b2 = 0"
    and "broker_call env dec rq v (Some (tr_now env n2 + cl_request_timeout c, api_key_of rq, a)) n2 b2 = (Inr resp, b3, n3)"
  shows "\<exists>c'. cluster_call_at env dec a rq v c = (Inr resp, c') \<and> bt_get (cl_conns c') a = Some b3 \<and> cl_net c' = n3 \<and>
    (\<forall>x. x \<noteq> a \<longrightarrow> bt_get (cl_conns c') x = bt_get (cl_conns c) x)"
proof -
  let ?c1 = "drop_conn a ((put_conn a b1 c)\<lparr>cl_net := n1\<rparr>)"
  have one: "call_attempt env dec a rq v (cl_request_timeout c) (Suc 0) c = call_attempt env dec a rq v (cl_request_timeout c) 0 ?c1"
    using assms(2,3) by (subst call_attempt.simps) (simp add: broker_at_pooled [OF assms(1)] Let_def)
  have "broker_at env a ?c1 = (Inr b2, put_conn a b2 (?c1\<lparr>cl_net := n2\<rparr>))"
    using assms(4) by (simp add: broker_at_def open_conn_def)
  then have two: "call_attempt env dec a rq v (cl_request_timeout c) 0 ?c1 =
      (Inr resp, (put_conn a b3 (put_conn a b2 (?c1\<lparr>cl_net := n2\<rparr>)))\<lparr>cl_net := n3\<rparr>)"
    using assms(5,6) by (subst call_attempt.simps) (simp add: Let_def)
  show ?thesis by (simp add: cluster_call_at_def call_at_with_timeout_def one two)
qed

section \<open>Connections out of step\<close>

text \<open>A mismatched correlation id leaves the request it was read for in flight.\<close>

lemma next_response_mismatch:
  "next_response dh rhv c = (Inl (Correlation got want), c') \<Longrightarrow> in_flight_queue c' \<noteq> []"
  by (auto simp: next_response_def next_frame_def Let_def split: prod.splits sum.splits option.splits list.splits if_splits)

lemma read_some_not_core: "read_some env n s want lim \<noteq> (Inl (Core e), n')"
  by (auto simp: read_some_def split: option.splits prod.splits sum.splits)

lemma write_all_not_core: "write_all env n s bs lim \<noteq> (Inl (Core e), n')"
  by (auto simp: write_all_def split: option.splits prod.splits sum.splits)

lemma decode_not_mismatch: "decode_response dec resp \<noteq> Inl (Correlation got want)"
  by (auto simp: decode_response_def split: sum.splits)

lemma recv_mismatch:
  "broker_recv env dec lim n b = (Inl (Core (Correlation got want)), b', n') \<Longrightarrow> bk_in_flight b' \<noteq> 0"
proof (induction env dec lim n b rule: broker_recv.induct)
  case (1 env dec lim n b)
  let ?cd = "env_codec env"
  obtain x c where x: "next_response (cd_response_header ?cd) (cd_response_header_version ?cd) (bk_conn b) = (x, c)" by fastforce
  show ?case
  proof (cases x)
    case (Inl e)
    then have "e = Correlation got want" "b' = b\<lparr>bk_conn := c\<rparr>" using "1.prems" x by (simp_all add: broker_recv.simps [of env])
    then show ?thesis using next_response_mismatch x Inl by (simp add: bk_in_flight_def in_flight_def)
  next
    case (Inr ro)
    show ?thesis
    proof (cases ro)
      case (Some r)
      then show ?thesis using "1.prems" x Inr decode_not_mismatch [of dec r got want]
        by (cases "decode_response dec r") (simp_all add: broker_recv.simps [of env])
    next
      case None
      obtain y n1 where y: "read_some env n (bk_stream b) (min (max (conn_needed c) (16 * 1024)) MAX_READ) lim = (y, n1)" by fastforce
      show ?thesis
      proof (cases y)
        case (Inl e)
        then show ?thesis using "1.prems" x Inr None y by (auto simp: broker_recv.simps [of env] read_some_not_core)
      next
        case bs: (Inr bs)
        show ?thesis
        proof (cases "bs = []")
          case True
          then show ?thesis using "1.prems" x Inr None y bs by (simp add: broker_recv.simps [of env])
        next
          case False
          then have "broker_recv env dec lim n1 (b\<lparr>bk_conn := push_bytes c bs\<rparr>) = (Inl (Core (Correlation got want)), b', n')"
            using "1.prems" x Inr None y bs by (simp add: broker_recv.simps [of env dec lim n b])
          then show ?thesis using "1.IH" [OF x [symmetric] Inr None refl refl y [symmetric] bs False] by simp
        qed
      qed
    qed
  qed
qed

lemma call_mismatch:
  assumes "broker_call env dec rq v lim n b = (Inl (Core (Correlation got want)), b', n')"
  shows "bk_in_flight b' \<noteq> 0"
proof (cases "bk_in_flight b = 0")
  case True
  obtain x b1 n1 where s: "broker_send env rq v lim n b = (x, b1, n1)" by (metis surj_pair)
  show ?thesis
  proof (cases x)
    case (Inl e)
    then have "x \<noteq> Inl (Core (Correlation got want))" using s
      by (auto simp: broker_send_def request_def frame_def Let_def write_all_not_core split: prod.splits sum.splits if_splits)
    then show ?thesis using assms True s Inl by (simp add: broker_call_def)
  next
    case (Inr u)
    then have "broker_recv env dec lim n1 b1 = (Inl (Core (Correlation got want)), b', n')"
      using assms True s by (simp add: broker_call_def)
    then show ?thesis by (rule recv_mismatch)
  qed
qed (use assms in \<open>auto simp: broker_call_def\<close>)

lemma busy_refuses:
  assumes "bt_get (cl_conns c) a = Some b" and "bk_in_flight b \<noteq> 0"
  shows "cluster_call_at env dec a rq v c = (Inl (ConnectionBusy (api_key_of rq) a (bk_in_flight b)), c)"
  using assms(2) unfolding cluster_call_at_def call_at_with_timeout_def
  by (subst call_attempt.simps) (simp add: broker_at_pooled [OF assms(1)])

text \<open>
  C27: a connection out of step is kept, and is then refused for good.  When the answer a call reads carries another request's
  correlation id, the call reports it and the connection goes back to the pool with the request still in flight; from then on
  every call to that address is refused as busy, and refusing changes nothing, so it stays so.
\<close>
theorem mismatch_blocks_the_address:
  assumes "bt_get (cl_conns c) a = Some b" and "bk_in_flight b = 0"
    and "broker_call env dec rq v (Some (tr_now env (cl_net c) + cl_request_timeout c, api_key_of rq, a)) (cl_net c) b =
      (Inl (Core (Correlation got want)), b', n')"
  shows "\<exists>c'. cluster_call_at env dec a rq v c = (Inl (Core (Correlation got want)), c') \<and>
    cluster_call_at env dec2 a rq2 v2 c' = (Inl (ConnectionBusy (api_key_of rq2) a (bk_in_flight b')), c')"
proof -
  let ?c = "(put_conn a b' c)\<lparr>cl_net := n'\<rparr>"
  have "cluster_call_at env dec a rq v c = (Inl (Core (Correlation got want)), ?c)"
    using assms(2,3) unfolding cluster_call_at_def call_at_with_timeout_def
    by (subst call_attempt.simps) (simp add: broker_at_pooled [OF assms(1)] Let_def)
  moreover have "cluster_call_at env dec2 a rq2 v2 ?c = (Inl (ConnectionBusy (api_key_of rq2) a (bk_in_flight b')), ?c)"
    by (rule busy_refuses) (use call_mismatch [OF assms(3)] in simp_all)
  ultimately show ?thesis by blast
qed

section \<open>Credentials\<close>

lemma try_bootstrap_opens:
  assumes "try_bootstrap env as le c = (Inr a, c')" and "cl_conns c = []"
  shows "\<exists>n b. a \<in> set as \<and> fst (broker_connect env a (cl_client_id c) (cl_credentials c) n) = Inr b \<and> bt_get (cl_conns c') a = Some b"
  using assms
proof (induction as arbitrary: le c)
  case (Cons x as)
  obtain r n1 where r: "broker_connect env x (cl_client_id c) (cl_credentials c) (cl_net c) = (r, n1)" by fastforce
  show ?case
  proof (cases r)
    case (Inl e)
    then show ?thesis using Cons.IH [of "Some e" "c\<lparr>cl_net := n1\<rparr>"] Cons.prems r by (auto simp: open_conn_def)
  next
    case (Inr b)
    then show ?thesis using Cons.prems r by (auto simp: open_conn_def intro!: exI [of _ "cl_net c"] exI [of _ b])
  qed
qed simp

lemma connected_without_credentials:
  assumes "cluster_connect env n bootstrap cid = (Inr c, n')"
  shows "\<exists>a b n0. a \<in> set bootstrap \<and> fst (broker_connect env a cid None n0) = Inr b \<and>
    broker_at env a (set_credentials c cred) = (Inr b, set_credentials c cred)"
proof -
  let ?c0 = "\<lparr>cl_net = n, cl_client_id = cid, cl_bootstrap = bootstrap, cl_allow_auto_topic_creation = True, cl_conns = [],
         cl_coordinator_conns = [], cl_metadata = new_metadata, cl_refreshed_at = [], cl_metadata_max_age = 300000,
         cl_request_timeout = DEFAULT_REQUEST_TIMEOUT, cl_credentials = None\<rparr>"
  obtain a where "try_bootstrap env bootstrap None ?c0 = (Inr a, c)"
    using assms by (auto simp: cluster_connect_def any_broker_addr_def split: prod.splits sum.splits)
  from try_bootstrap_opens [OF this]
  obtain n0 b where "a \<in> set bootstrap" "fst (broker_connect env a cid None n0) = Inr b" "bt_get (cl_conns c) a = Some b" by auto
  moreover from this have "broker_at env a (set_credentials c cred) = (Inr b, set_credentials c cred)"
    by (intro broker_at_pooled) (simp add: set_credentials_def)
  ultimately show ?thesis by blast
qed

text \<open>
  C28: the connection made by \<open>connect\<close> is never authenticated.  A cluster that connected has in its pool a connection to a bootstrap address
  that was opened without credentials; credentials set afterwards do not change that, and requests to that address use it as it is.
\<close>
theorem bootstrap_connection_stays_unauthenticated:
  assumes "cluster_connect env n bootstrap cid = (Inr c, n')"
  shows "\<exists>a b n0. a \<in> set bootstrap \<and> fst (broker_connect env a cid None n0) = Inr b \<and>
    broker_at env a (set_credentials c cred) = (Inr b, set_credentials c cred)"
  using connected_without_credentials [OF assms] .

section \<open>Witnesses\<close>

text \<open>The toy network with streams that are reset, and one whose first answers carry a stranger's id.\<close>

definition reset_env :: "toy_net env" where
  "reset_env = toy_env\<lparr>tr_write := (\<lambda>n s bs. (Inl ''reset'', n)), tr_write_by := (\<lambda>n s bs d. (Some (Inl ''reset''), n))\<rparr>"

definition fresh_conn :: "nat \<Rightarrow> broker_conn" where
  "fresh_conn s = \<lparr>bk_stream = s, bk_conn = new_connection ''c'', bk_versions = []\<rparr>"

text \<open>Stream 0 is not there any more; stream 1 has an answer to a request nobody sent.\<close>

definition pooled :: "toy_net \<Rightarrow> nat \<Rightarrow> toy_net cluster" where
  "pooled n s = toy_cluster\<lparr>cl_net := n, cl_conns := [(''h:9092'', fresh_conn s)]\<rparr>"

theorem lost_connection_is_dropped_witness:
  "bt_get (cl_conns (snd (cluster_call_at reset_env (cd_metadata toy_codec) ''h:9092'' (MetadataRequest [''t''] True) 12 toy_cluster)))
     ''h:9092'' = None"
proof -
  have "fst (cluster_call_at reset_env (cd_metadata toy_codec) ''h:9092'' (MetadataRequest [''t''] True) 12 toy_cluster) = Inl (Io ''reset'')"
    by code_simp
  then have "cluster_call_at reset_env (cd_metadata toy_codec) ''h:9092'' (MetadataRequest [''t''] True) 12 toy_cluster =
      (Inl (Io ''reset''), snd (cluster_call_at reset_env (cd_metadata toy_codec) ''h:9092'' (MetadataRequest [''t''] True) 12 toy_cluster))"
    by (metis surjective_pairing)
  from lost_connection_is_dropped [OF this] show ?thesis by blast
qed

theorem stale_connection_is_replaced_witness:
  "\<exists>c'. cluster_call_at toy_env (cd_api_versions toy_codec) ''h:9092'' (ApiVersionsRequest ''c'' ''0.0.1'') 3 (pooled [] 7) = (Inr (0, []), c') \<and>
     bk_stream (the (bt_get (cl_conns c') ''h:9092'')) = 0"
proof -
  let ?call = "\<lambda>n b. broker_call toy_env (cd_api_versions toy_codec) (ApiVersionsRequest ''c'' ''0.0.1'') 3 (Some (30000, 18, ''h:9092'')) n b"
  have a: "fst (?call [] (fresh_conn 7)) = Inl (Io [])" and n1: "snd (snd (?call [] (fresh_conn 7))) = []" by code_simp+
  define b2 n2 where bn: "b2 = projr (fst (broker_connect toy_env ''h:9092'' ''c'' None []))" "n2 = snd (broker_connect toy_env ''h:9092'' ''c'' None [])"
  have c: "broker_connect toy_env ''h:9092'' ''c'' None [] = (Inr b2, n2)" and f: "bk_in_flight b2 = 0"
    and d: "fst (?call n2 b2) = Inr (0, [])" and s: "bk_stream (fst (snd (?call n2 b2))) = 0" unfolding bn by code_simp+
  have p: "bt_get (cl_conns (pooled [] 7)) ''h:9092'' = Some (fresh_conn 7)" "cl_net (pooled [] 7) = []" "cl_client_id (pooled [] 7) = ''c''"
      "cl_credentials (pooled [] 7) = None" "cl_request_timeout (pooled [] 7) = 30000" "tr_now toy_env n = 0" "bk_in_flight (fresh_conn 7) = 0" for n
    by (simp_all add: pooled_def toy_cluster_def bt_get_def toy_env_def fresh_conn_def bk_in_flight_def in_flight_def new_connection_def)
  obtain b1 b3 n3 where one: "?call [] (fresh_conn 7) = (Inl (Io []), b1, [])" and two: "?call n2 b2 = (Inr (0, []), b3, n3)"
    using a n1 d by (metis prod.collapse)
  from stale_connection_is_replaced [OF p(1) p(7), where m = "[]" and env = toy_env and v = 3 and rq = "ApiVersionsRequest ''c'' ''0.0.1''"
      and dec = "cd_api_versions toy_codec" and ?b1.0 = b1 and ?n1.0 = "[]" and ?b2.0 = b2 and ?n2.0 = n2 and ?b3.0 = b3 and ?n3.0 = n3
      and resp = "(0, [])"] one two c f
  obtain c' where "cluster_call_at toy_env (cd_api_versions toy_codec) ''h:9092'' (ApiVersionsRequest ''c'' ''0.0.1'') 3 (pooled [] 7) = (Inr (0, []), c')"
      "bt_get (cl_conns c') ''h:9092'' = Some b3" by (auto simp: p)
  then show ?thesis using s two by auto
qed

theorem mismatch_blocks_the_address_witness:
  "\<exists>c' k. cluster_call_at toy_env (cd_api_versions toy_codec) ''h:9092'' (ApiVersionsRequest ''c'' ''0.0.1'') 3 (pooled [([Toy_versions 9], 0)] 0) =
       (Inl (Core (Correlation 9 1)), c') \<and>
     cluster_call_at toy_env (cd_metadata toy_codec) ''h:9092'' (MetadataRequest [''t''] True) 12 c' = (Inl (ConnectionBusy 3 ''h:9092'' k), c')"
proof -
  let ?r = "broker_call toy_env (cd_api_versions toy_codec) (ApiVersionsRequest ''c'' ''0.0.1'') 3 (Some (30000, 18, ''h:9092''))
      [([Toy_versions 9], 0)] (fresh_conn 0)"
  have "fst ?r = Inl (Core (Correlation 9 1))" by code_simp
  then obtain b' n' where r: "?r = (Inl (Core (Correlation 9 1)), b', n')" by (metis prod.collapse)
  have p: "bt_get (cl_conns (pooled n 0)) ''h:9092'' = Some (fresh_conn 0)" "cl_net (pooled n 0) = n"
      "cl_request_timeout (pooled n 0) = 30000" "tr_now toy_env n = 0" "bk_in_flight (fresh_conn 0) = 0" for n
    by (simp_all add: pooled_def toy_cluster_def bt_get_def toy_env_def fresh_conn_def bk_in_flight_def in_flight_def new_connection_def)
  have "broker_call toy_env (cd_api_versions toy_codec) (ApiVersionsRequest ''c'' ''0.0.1'') 3
      (Some (tr_now toy_env (cl_net (pooled [([Toy_versions 9], 0)] 0)) + cl_request_timeout (pooled [([Toy_versions 9], 0)] 0),
         api_key_of (ApiVersionsRequest ''c'' ''0.0.1''), ''h:9092'')) (cl_net (pooled [([Toy_versions 9], 0)] 0)) (fresh_conn 0) =
      (Inl (Core (Correlation 9 1)), b', n')" using r by (simp add: p)
  from mismatch_blocks_the_address [OF p(1) p(5) this, where ?dec2.0 = "cd_metadata toy_codec" and ?rq2.0 = "MetadataRequest [''t''] True" and ?v2.0 = 12]
  show ?thesis by auto
qed

theorem bootstrap_connection_stays_unauthenticated_witness:
  "\<exists>a b n0. a \<in> set [''h:9092''] \<and> fst (broker_connect toy_env a ''c'' None n0) = Inr b \<and>
     fst (broker_at toy_env a (set_credentials (projr (fst (cluster_connect toy_env [] [''h:9092''] ''c''))) toy_credentials)) = Inr b"
proof -
  have "isl (fst (cluster_connect toy_env [] [''h:9092''] ''c'')) = False" by code_simp
  then have "cluster_connect toy_env [] [''h:9092''] ''c'' =
      (Inr (projr (fst (cluster_connect toy_env [] [''h:9092''] ''c''))), snd (cluster_connect toy_env [] [''h:9092''] ''c''))"
    by (metis prod.collapse sum.collapse(2))
  from bootstrap_connection_stays_unauthenticated [OF this, of toy_credentials] show ?thesis by (metis fst_conv)
qed

end
