(* ===== verification/Futures.thy ===== *)
theory Futures
  imports Prelude
begin

text \<open>
  The two hand-written combinators of the client, \<^verbatim>\<open>join_all\<close> (\<^verbatim>\<open>barnabas-client/src/join.rs\<close>) and \<^verbatim>\<open>with_timeout\<close>
  (\<^verbatim>\<open>barnabas-client/src/timeout.rs\<close>).  A future is a state and its \<open>poll\<close>, which yields a value
  (\<^verbatim>\<open>Ready\<close>) or a new state (\<^verbatim>\<open>Pending\<close>); each wake is one poll of the combinator.  Wakers and the
  executor have no counterpart.

  Shown: \<open>join_all\<close> returns the outputs in the order of its inputs, in the poll in which the last of them is ready, and its \<^verbatim>\<open>expect\<close> is
  never reached; \<open>with_timeout\<close> reports an expiry exactly when the sleep is over first.
\<close>

type_synonym ('f, 'o) poll = "'f \<Rightarrow> 'o option \<times> 'f"

section \<open>Driving one future\<close>

text \<open>The output of a future that is ready within \<open>k\<close> polls.\<close>

fun drive :: "('f, 'o) poll \<Rightarrow> nat \<Rightarrow> 'f \<Rightarrow> 'o option" where
  "drive poll 0 f = None"
| "drive poll (Suc k) f = (case poll f of (Some v, _) \<Rightarrow> Some v | (None, f') \<Rightarrow> drive poll k f')"

section \<open>Joining\<close>

record ('f, 'o) join_state =
  js_pending :: "'f option list"
  js_done :: "'o option list"
  js_left :: nat

definition join_start :: "'f list \<Rightarrow> ('f, 'o) join_state" where
  "join_start fs = \<lparr>js_pending = map Some fs, js_done = map (\<lambda>_. None) fs, js_left = length fs\<rparr>"

text \<open>The loop over the slots and the outputs, \<^verbatim>\<open>zip\<close>ped.\<close>

fun poll_slots ::
  "('f, 'o) poll \<Rightarrow> 'f option list \<Rightarrow> 'o option list \<Rightarrow> nat \<Rightarrow> 'f option list \<times> 'o option list \<times> nat" where
  "poll_slots poll (None # slots) (x # outs) left =
     (case poll_slots poll slots outs left of (s, d, l) \<Rightarrow> (None # s, x # d, l))"
| "poll_slots poll (Some f # slots) (x # outs) left =
     (case poll f of
        (Some v, _) \<Rightarrow> (case poll_slots poll slots outs (left - 1) of (s, d, l) \<Rightarrow> (None # s, Some v # d, l))
      | (None, f') \<Rightarrow> (case poll_slots poll slots outs left of (s, d, l) \<Rightarrow> (Some f' # s, x # d, l)))"
| "poll_slots poll slots outs left = (slots, outs, left)"

text \<open>The \<^verbatim>\<open>expect\<close> of each output: \<open>None\<close> is its panic.\<close>

fun expect_all :: "'o option list \<Rightarrow> 'o list option" where
  "expect_all [] = Some []"
| "expect_all (None # xs) = None"
| "expect_all (Some x # xs) = map_option ((#) x) (expect_all xs)"

definition join_poll :: "('f, 'o) poll \<Rightarrow> (('f, 'o) join_state, 'o list option) poll" where
  "join_poll poll st =
     (case poll_slots poll (js_pending st) (js_done st) (js_left st) of (s, d, l) \<Rightarrow>
        if l = 0 then (Some (expect_all d), \<lparr>js_pending = s, js_done = [], js_left = l\<rparr>)
        else (None, \<lparr>js_pending = s, js_done = d, js_left = l\<rparr>))"

definition join_all :: "('f, 'o) poll \<Rightarrow> nat \<Rightarrow> 'f list \<Rightarrow> 'o list option option" where
  "join_all poll k fs = drive (join_poll poll) k (join_start fs)"

section \<open>Racing a sleep\<close>

record ('f, 's) race =
  race_fut :: 'f
  race_sleep :: 's

definition race_poll :: "('f, 'o) poll \<Rightarrow> ('s, unit) poll \<Rightarrow> (('f, 's) race, 'o option) poll" where
  "race_poll poll sleep r =
     (case poll (race_fut r) of
        (Some out, f) \<Rightarrow> (Some (Some out), r\<lparr>race_fut := f\<rparr>)
      | (None, f) \<Rightarrow>
          (case sleep (race_sleep r) of
             (Some _, s) \<Rightarrow> (Some None, \<lparr>race_fut = f, race_sleep = s\<rparr>)
           | (None, s) \<Rightarrow> (None, \<lparr>race_fut = f, race_sleep = s\<rparr>)))"

definition with_timeout :: "('f, 'o) poll \<Rightarrow> ('s, unit) poll \<Rightarrow> nat \<Rightarrow> 'f \<Rightarrow> 's \<Rightarrow> 'o option option" where
  "with_timeout poll sleep k f s = drive (race_poll poll sleep) k \<lparr>race_fut = f, race_sleep = s\<rparr>"

section \<open>What they return\<close>

text \<open>One slot and its output, polled once.\<close>

definition slot_step :: "('f, 'o) poll \<Rightarrow> 'f option \<times> 'o option \<Rightarrow> 'f option \<times> 'o option" where
  "slot_step poll x =
     (case fst x of
        None \<Rightarrow> x
      | Some f \<Rightarrow> (case poll f of (Some v, _) \<Rightarrow> (None, Some v) | (None, f') \<Rightarrow> (Some f', snd x)))"

definition unfinished :: "('f option \<times> 'o option) list \<Rightarrow> nat" where
  "unfinished xs = length (filter (\<lambda>x. fst x \<noteq> None) xs)"

lemma unfinished_simps [simp]:
  "unfinished [] = 0" "unfinished (x # xs) = (if fst x = None then unfinished xs else Suc (unfinished xs))"
  by (simp_all add: unfinished_def)

lemma unfinished_step: "unfinished (map (slot_step poll) xs) \<le> unfinished xs"
  by (induction xs) (auto simp: slot_step_def split: option.splits prod.splits)

lemma poll_slots_step:
  "unfinished xs \<le> left \<Longrightarrow>
   poll_slots poll (map fst xs) (map snd xs) left =
     (map fst (map (slot_step poll) xs), map snd (map (slot_step poll) xs),
      left - unfinished xs + unfinished (map (slot_step poll) xs))"
proof (induction xs arbitrary: left)
  case (Cons x xs)
  obtain s d where x: "x = (s, d)" by (cases x)
  show ?case
  proof (cases s)
    case None
    then show ?thesis using Cons x by (simp add: slot_step_def)
  next
    case (Some f)
    obtain r f' where r: "poll f = (r, f')" by fastforce
    show ?thesis using Cons.IH [of left] Cons.IH [of "left - 1"] Cons.prems x Some r
      by (cases r) (simp_all add: slot_step_def Suc_diff_le)
  qed
qed simp

text \<open>A slot that still has its future, or the output of one that is finished, against what the future yields within \<open>k\<close> polls.\<close>

definition slot_ok :: "('f, 'o) poll \<Rightarrow> nat \<Rightarrow> 'f option \<times> 'o option \<Rightarrow> 'o option \<Rightarrow> bool" where
  "slot_ok poll k x v \<longleftrightarrow>
     (case fst x of Some f \<Rightarrow> snd x = None \<and> v = drive poll k f | None \<Rightarrow> snd x = v \<and> v \<noteq> None)"

lemma slot_ok_step: "slot_ok poll (Suc k) x v \<Longrightarrow> slot_ok poll k (slot_step poll x) v"
  by (auto simp: slot_ok_def slot_step_def split: option.splits prod.splits)

lemma slots_finished:
  "list_all2 (slot_ok poll k) xs vs \<Longrightarrow> unfinished xs = 0 \<Longrightarrow> None \<notin> set vs \<and> expect_all (map snd xs) = Some (map the vs)"
  by (induction rule: list_all2_induct) (auto simp: slot_ok_def split: if_splits)

lemma slots_unfinished: "list_all2 (slot_ok poll 0) xs vs \<Longrightarrow> unfinished xs \<noteq> 0 \<Longrightarrow> None \<in> set vs"
  by (induction rule: list_all2_induct) (auto simp: slot_ok_def split: if_splits option.splits)

lemma join_drive:
  "list_all2 (slot_ok poll k) xs vs \<Longrightarrow>
   drive (join_poll poll) k \<lparr>js_pending = map fst xs, js_done = map snd xs, js_left = unfinished xs\<rparr> =
     (if k = 0 \<or> None \<in> set vs then None else Some (Some (map the vs)))"
proof (induction k arbitrary: xs)
  case (Suc k)
  let ?ys = "map (slot_step poll) xs"
  have ok: "list_all2 (slot_ok poll k) ?ys vs"
    using Suc.prems by (auto simp: list_all2_conv_all_nth intro: slot_ok_step)
  have p: "poll_slots poll (map fst xs) (map snd xs) (unfinished xs) = (map fst ?ys, map snd ?ys, unfinished ?ys)"
    using poll_slots_step [of xs "unfinished xs" poll] by simp
  show ?case
  proof (cases "unfinished ?ys = 0")
    case True
    then show ?thesis using slots_finished [OF ok True] p by (simp add: join_poll_def)
  next
    case False
    have "drive (join_poll poll) (Suc k) \<lparr>js_pending = map fst xs, js_done = map snd xs, js_left = unfinished xs\<rparr> =
        drive (join_poll poll) k \<lparr>js_pending = map fst ?ys, js_done = map snd ?ys, js_left = unfinished ?ys\<rparr>"
      using False p by (simp add: join_poll_def)
    then show ?thesis using Suc.IH [OF ok] slots_unfinished [of poll ?ys vs] ok False by (cases k) (simp_all del: drive.simps)
  qed
qed simp

lemma join_all_outputs:
  "join_all poll k fs =
     (if k = 0 \<or> (\<exists>f\<in>set fs. drive poll k f = None) then None else Some (Some (map (\<lambda>f. the (drive poll k f)) fs)))"
proof -
  let ?xs = "map (\<lambda>f. (Some f, None)) fs"
  have "list_all2 (slot_ok poll k) ?xs (map (drive poll k) fs)" by (simp add: list_all2_conv_all_nth slot_ok_def)
  note jd = join_drive [OF this]
  have st: "\<lparr>js_pending = map fst ?xs, js_done = map snd ?xs, js_left = unfinished ?xs\<rparr> = join_start fs"
    by (simp add: join_start_def comp_def unfinished_def filter_map)
  have none: "None \<in> set (map (drive poll k) fs) \<longleftrightarrow> (\<exists>f\<in>set fs. drive poll k f = None)" by force
  show ?thesis using jd unfolding st join_all_def none by (simp add: comp_def)
qed

lemma race_work_first:
  "drive poll (Suc j) f = Some v \<Longrightarrow> drive sleep j s = None \<Longrightarrow> j < k \<Longrightarrow>
   drive (race_poll poll sleep) k \<lparr>race_fut = f, race_sleep = s\<rparr> = Some (Some v)"
proof (induction j arbitrary: k f s)
  case 0
  then obtain l where "k = Suc l" by (cases k) simp_all
  then show ?case using 0 by (simp add: race_poll_def split: prod.splits option.splits)
next
  case (Suc j)
  then obtain l where k: "k = Suc l" by (cases k) simp_all
  obtain r f' where r: "poll f = (r, f')" by fastforce
  obtain q s' where q: "sleep s = (q, s')" by fastforce
  have "q = None" "drive sleep j s' = None" using Suc.prems(2) q by (cases q; simp)+
  then show ?case using Suc.IH [of f' s' l] Suc.prems k r q by (cases r) (simp_all add: race_poll_def)
qed

lemma race_expires:
  "drive poll (Suc j) f = None \<Longrightarrow> drive sleep (Suc j) s = Some u \<Longrightarrow> j < k \<Longrightarrow>
   drive (race_poll poll sleep) k \<lparr>race_fut = f, race_sleep = s\<rparr> = Some None"
proof (induction j arbitrary: k f s)
  case 0
  then obtain l where "k = Suc l" by (cases k) simp_all
  then show ?case using 0 by (simp add: race_poll_def split: prod.splits option.splits)
next
  case (Suc j)
  then obtain l where k: "k = Suc l" by (cases k) simp_all
  obtain r f' where r: "poll f = (r, f')" by fastforce
  obtain q s' where q: "sleep s = (q, s')" by fastforce
  have "r = None" "drive poll (Suc j) f' = None" using Suc.prems(1) r by (cases r; simp)+
  then show ?case using Suc.IH [of f' s' l] Suc.prems k r q by (cases q) (simp_all add: race_poll_def)
qed

text \<open>
  C30: \<open>join_all\<close> drives every future to its end and keeps the order.  Polled \<open>k\<close> times, it is ready exactly when every future would
  be ready within \<open>k\<close> polls, and returns their outputs in the order the futures were given, whichever finished first; the
  \<open>expect\<close> on each output never fails, and no futures are ready at the first poll.
\<close>
theorem join_all_keeps_order:
  "join_all poll k fs =
     (if k = 0 \<or> (\<exists>f\<in>set fs. drive poll k f = None) then None else Some (Some (map (\<lambda>f. the (drive poll k f)) fs)))"
  by (rule join_all_outputs)

text \<open>
  A request that finishes in the very poll its deadline passes has finished.  \<open>with_timeout\<close> returns the output of a future that is ready at poll \<open>j + 1\<close> when the
  sleep was not over by poll \<open>j\<close>, and gives up when the sleep is over at poll \<open>j + 1\<close> and the future is not ready by then.
\<close>
theorem work_wins_the_race:
  assumes "j < k"
  shows "(drive poll (Suc j) f = Some v \<and> drive sleep j s = None \<longrightarrow> with_timeout poll sleep k f s = Some (Some v)) \<and>
    (drive poll (Suc j) f = None \<and> drive sleep (Suc j) s = Some () \<longrightarrow> with_timeout poll sleep k f s = Some None)"
proof (intro conjI impI; elim conjE)
  assume "drive poll (Suc j) f = Some v" "drive sleep j s = None"
  from race_work_first [OF this assms] show "with_timeout poll sleep k f s = Some (Some v)" by (simp only: with_timeout_def)
next
  assume "drive poll (Suc j) f = None" "drive sleep (Suc j) s = Some ()"
  from race_expires [OF this assms] show "with_timeout poll sleep k f s = Some None" by (simp only: with_timeout_def)
qed

text \<open>A countdown, for a future and for a sleep.\<close>

definition countdown :: "(nat, unit) poll" where
  "countdown n = (if n = 0 then (Some (), 0) else (None, n - 1))"

theorem work_wins_the_race_witness:
  "with_timeout countdown countdown 9 2 2 = Some (Some ()) \<and> with_timeout countdown countdown 9 3 2 = Some None"
proof -
  have d: "drive countdown 3 2 = Some ()" "drive countdown 2 2 = None" "drive countdown 3 3 = None"
    by (simp_all add: countdown_def eval_nat_numeral)
  from d work_wins_the_race [of 2 9 countdown 2 "()" countdown 2] work_wins_the_race [of 2 9 countdown 3 "()" countdown 2]
  show ?thesis by (simp add: numeral_3_eq_3 [symmetric])
qed

end
