(* ===== verification/Member.thy ===== *)
theory Member
  imports Group
begin

text \<open>
  Group membership, \<^verbatim>\<open>barnabas-core/src/member.rs\<close>: the classic protocol's state machine.  The
  driver reads \<open>member_next_step\<close> and feeds answers back; \<open>member_step\<close> is the relation of
  the moves it can make (a join is only answered when one was asked for, and so on).

  Shown: offsets can be committed only for what the coordinator granted in the very generation
  the member reports; an eager member owns nothing while it rebalances and reports what it gave
  up; a cooperative member keeps what it is not losing and rejoins at once when it loses
  something; what a fenced cooperative member still claims.
\<close>

section \<open>State\<close>

definition REBALANCE_NONE :: int where "REBALANCE_NONE = 0"
definition MEMBER_COORDINATOR_LOAD_IN_PROGRESS :: int where "MEMBER_COORDINATOR_LOAD_IN_PROGRESS = 14"
definition MEMBER_COORDINATOR_NOT_AVAILABLE :: int where "MEMBER_COORDINATOR_NOT_AVAILABLE = 15"
definition MEMBER_NOT_COORDINATOR :: int where "MEMBER_NOT_COORDINATOR = 16"
definition ILLEGAL_GENERATION :: int where "ILLEGAL_GENERATION = 22"
definition UNKNOWN_MEMBER_ID :: int where "UNKNOWN_MEMBER_ID = 25"
definition REBALANCE_IN_PROGRESS :: int where "REBALANCE_IN_PROGRESS = 27"
definition FENCED_INSTANCE_ID :: int where "FENCED_INSTANCE_ID = 82"
definition MEMBER_ID_REQUIRED :: int where "MEMBER_ID_REQUIRED = 79"
definition NO_GENERATION :: int where "NO_GENERATION = - 1"

lemmas member_codes = REBALANCE_NONE_def MEMBER_COORDINATOR_LOAD_IN_PROGRESS_def
  MEMBER_COORDINATOR_NOT_AVAILABLE_def MEMBER_NOT_COORDINATOR_def ILLEGAL_GENERATION_def
  UNKNOWN_MEMBER_ID_def REBALANCE_IN_PROGRESS_def FENCED_INSTANCE_ID_def MEMBER_ID_REQUIRED_def

datatype rebalance_protocol = Eager | Cooperative

datatype member_state = Unjoined | Joining | Syncing | Stable

datatype next_step =
    Join string
  | AssignAndSync "subscription list"
  | Sync
  | Heartbeat
  | FindCoordinatorStep

record group_member =
  gm_group_id :: string
  gm_member_id :: string
  gm_generation :: int
  gm_state :: member_state
  gm_topics :: "string list"
  gm_assignment :: "topic_partition list"
  gm_leader :: bool
  gm_protocol :: rebalance_protocol
  gm_lost :: "topic_partition list"
  gm_pending_members :: "subscription list"

section \<open>Operations\<close>

definition new_member :: "string \<Rightarrow> string list \<Rightarrow> group_member" where
  "new_member group_id ts =
     \<lparr>gm_group_id = group_id, gm_member_id = [], gm_generation = NO_GENERATION, gm_state = Unjoined,
      gm_topics = ts, gm_assignment = [], gm_leader = False, gm_protocol = Eager, gm_lost = [],
      gm_pending_members = []\<rparr>"

definition with_protocol :: "group_member \<Rightarrow> rebalance_protocol \<Rightarrow> group_member" where
  "with_protocol g p = g\<lparr>gm_protocol := p\<rparr>"

definition can_commit :: "group_member \<Rightarrow> bool" where
  "can_commit g \<longleftrightarrow> gm_state g = Stable \<and> gm_generation g \<noteq> NO_GENERATION"

definition member_next_step :: "group_member \<Rightarrow> next_step" where
  "member_next_step g =
     (case gm_state g of
        Unjoined \<Rightarrow> Join (gm_member_id g)
      | Joining \<Rightarrow> Join (gm_member_id g)
      | Syncing \<Rightarrow> if gm_leader g then AssignAndSync (gm_pending_members g) else Sync
      | Stable \<Rightarrow> Heartbeat)"

definition member_subscription :: "group_member \<Rightarrow> subscription" where
  "member_subscription g = \<lparr>member_id = gm_member_id g, topics = gm_topics g, owned = gm_assignment g,
     generation = gm_generation g\<rparr>"

definition revoke_and_rejoin :: "group_member \<Rightarrow> group_member" where
  "revoke_and_rejoin g =
     (let g1 = (if gm_protocol g = Eager then g\<lparr>gm_lost := gm_assignment g, gm_assignment := []\<rparr>
                else g\<lparr>gm_lost := []\<rparr>)
      in g1\<lparr>gm_pending_members := [], gm_leader := False, gm_state := Unjoined\<rparr>)"

definition set_topics :: "group_member \<Rightarrow> string list \<Rightarrow> group_member" where
  "set_topics g ts = (if ts \<noteq> gm_topics g then revoke_and_rejoin (g\<lparr>gm_topics := ts\<rparr>) else g)"

definition request_rejoin :: "group_member \<Rightarrow> group_member" where
  "request_rejoin g = (if gm_state g \<noteq> Unjoined then revoke_and_rejoin g else g)"

definition on_join ::
  "group_member \<Rightarrow> int \<Rightarrow> int \<Rightarrow> string \<Rightarrow> string \<Rightarrow> subscription list \<Rightarrow> next_step \<times> group_member" where
  "on_join g error gen mid leader_id members =
     (if error = REBALANCE_NONE then
        (let g1 = g\<lparr>gm_member_id := mid, gm_generation := gen, gm_leader := (leader_id = mid),
                    gm_state := Syncing\<rparr>
         in if leader_id = mid then (AssignAndSync members, g1\<lparr>gm_pending_members := members\<rparr>)
            else (Sync, g1\<lparr>gm_pending_members := []\<rparr>))
      else if error = MEMBER_ID_REQUIRED then
        (Join mid, g\<lparr>gm_member_id := mid, gm_state := Unjoined\<rparr>)
      else if error = UNKNOWN_MEMBER_ID \<or> error = FENCED_INSTANCE_ID then
        (Join [], revoke_and_rejoin (g\<lparr>gm_member_id := []\<rparr>))
      else if error = MEMBER_COORDINATOR_NOT_AVAILABLE \<or> error = MEMBER_NOT_COORDINATOR
              \<or> error = MEMBER_COORDINATOR_LOAD_IN_PROGRESS then
        (FindCoordinatorStep, g\<lparr>gm_state := Unjoined\<rparr>)
      else (Join (gm_member_id g), revoke_and_rejoin g))"

text \<open>The error branches \<open>on_sync\<close> and \<open>on_heartbeat\<close> have in common.\<close>

definition on_group_error :: "group_member \<Rightarrow> int \<Rightarrow> next_step \<times> group_member" where
  "on_group_error g error =
     (if error = REBALANCE_IN_PROGRESS \<or> error = ILLEGAL_GENERATION then
        (Join (gm_member_id g), revoke_and_rejoin g)
      else if error = UNKNOWN_MEMBER_ID \<or> error = FENCED_INSTANCE_ID then
        (Join [], revoke_and_rejoin (g\<lparr>gm_member_id := []\<rparr>))
      else if error = MEMBER_COORDINATOR_NOT_AVAILABLE \<or> error = MEMBER_NOT_COORDINATOR then
        (FindCoordinatorStep, revoke_and_rejoin g)
      else (Join (gm_member_id g), revoke_and_rejoin g))"

definition on_sync :: "group_member \<Rightarrow> int \<Rightarrow> topic_partition list \<Rightarrow> next_step \<times> group_member" where
  "on_sync g error assigned =
     (if error = REBALANCE_NONE then
        (let lost = (if gm_protocol g = Cooperative
                     then filter (\<lambda>tp. tp \<notin> set (sort assigned)) (gm_assignment g) else []);
             g1 = g\<lparr>gm_lost := lost, gm_assignment := sort assigned, gm_state := Stable\<rparr>
         in if lost \<noteq> []
            then (Join (gm_member_id g), g1\<lparr>gm_state := Unjoined, gm_leader := False, gm_pending_members := []\<rparr>)
            else (Heartbeat, g1))
      else on_group_error g error)"

definition on_heartbeat :: "group_member \<Rightarrow> int \<Rightarrow> next_step \<times> group_member" where
  "on_heartbeat g error =
     (if error = REBALANCE_NONE then (Heartbeat, g) else on_group_error g error)"

definition on_leave :: "group_member \<Rightarrow> group_member" where
  "on_leave g = revoke_and_rejoin (g\<lparr>gm_member_id := []\<rparr>)"

definition my_share :: "group_member \<Rightarrow> assignment \<Rightarrow> topic_partition list" where
  "my_share g a = (case bt_get a (gm_member_id g) of None \<Rightarrow> [] | Some tps \<Rightarrow> tps)"

lemmas member_op_defs = on_join_def on_sync_def on_heartbeat_def on_group_error_def on_leave_def
  set_topics_def request_rejoin_def revoke_and_rejoin_def

section \<open>The protocol\<close>

datatype member_event =
    Joined int int string string "subscription list"
  | Synced int "topic_partition list"
  | Beat int
  | SetTopics "string list"
  | RequestRejoin
  | Leave

fun member_next :: "group_member \<Rightarrow> member_event \<Rightarrow> group_member" where
  "member_next g (Joined e gen mid l ms) = snd (on_join g e gen mid l ms)"
| "member_next g (Synced e tps) = snd (on_sync g e tps)"
| "member_next g (Beat e) = snd (on_heartbeat g e)"
| "member_next g (SetTopics ts) = set_topics g ts"
| "member_next g RequestRejoin = request_rejoin g"
| "member_next g Leave = on_leave g"

text \<open>The driver hears back only about what it was told to send.\<close>

fun expected :: "group_member \<Rightarrow> member_event \<Rightarrow> bool" where
  "expected g (Joined e gen mid l ms) = (case member_next_step g of Join _ \<Rightarrow> True | _ \<Rightarrow> False)"
| "expected g (Synced e tps) = (case member_next_step g of AssignAndSync _ \<Rightarrow> True | Sync \<Rightarrow> True | _ \<Rightarrow> False)"
| "expected g (Beat e) = (member_next_step g = Heartbeat)"
| "expected g (SetTopics ts) = True"
| "expected g RequestRejoin = True"
| "expected g Leave = True"

inductive member_step :: "group_member \<Rightarrow> group_member \<Rightarrow> bool" where
  answer: "expected g ev \<Longrightarrow> member_step g (member_next g ev)"

inductive_cases member_stepE: "member_step g g'"

fun member_run :: "group_member \<Rightarrow> member_event list \<Rightarrow> group_member option" where
  "member_run g [] = Some g"
| "member_run g (ev # evs) = (if expected g ev then member_run (member_next g ev) evs else None)"

lemma member_run_append:
  "member_run g (xs @ ys) = (case member_run g xs of None \<Rightarrow> None | Some g' \<Rightarrow> member_run g' ys)"
  by (induction xs arbitrary: g) auto

lemma expected_state [simp]:
  "expected g (Joined e gen mid l ms) \<longleftrightarrow> gm_state g = Unjoined \<or> gm_state g = Joining"
  "expected g (Synced e tps) \<longleftrightarrow> gm_state g = Syncing"
  "expected g (Beat e) \<longleftrightarrow> gm_state g = Stable"
  by (auto simp: member_next_step_def split: member_state.splits)

declare expected.simps(1-3) [simp del]

section \<open>Invariants\<close>

definition member_inv :: "group_member \<Rightarrow> bool" where
  "member_inv g \<longleftrightarrow>
     gm_state g \<noteq> Joining \<and>
     (gm_leader g \<longrightarrow> gm_state g = Syncing \<or> gm_state g = Stable) \<and>
     (gm_pending_members g \<noteq> [] \<longrightarrow> gm_leader g) \<and>
     (gm_protocol g = Eager \<and> gm_state g \<noteq> Stable \<longrightarrow> gm_assignment g = []) \<and>
     sorted (gm_assignment g)"

lemma revoke_fields:
  "gm_state (revoke_and_rejoin g) = Unjoined" "gm_leader (revoke_and_rejoin g) = False"
  "gm_pending_members (revoke_and_rejoin g) = []" "gm_protocol (revoke_and_rejoin g) = gm_protocol g"
  "gm_generation (revoke_and_rejoin g) = gm_generation g"
  "gm_assignment (revoke_and_rejoin g) = (if gm_protocol g = Eager then [] else gm_assignment g)"
  "gm_lost (revoke_and_rejoin g) = (if gm_protocol g = Eager then gm_assignment g else [])"
  by (simp_all add: revoke_and_rejoin_def Let_def)

lemma member_inv_next: "member_inv g \<Longrightarrow> expected g ev \<Longrightarrow> member_inv (member_next g ev)"
  by (cases ev)
     (auto simp: member_inv_def on_join_def on_sync_def on_heartbeat_def on_group_error_def on_leave_def
       set_topics_def request_rejoin_def revoke_fields Let_def)

interpretation mm: invariant_machine "\<lambda>g. \<exists>gid ts p. g = with_protocol (new_member gid ts) p" member_step member_inv
proof
  show "member_inv g" if "\<exists>gid ts p. g = with_protocol (new_member gid ts) p" for g
    using that by (auto simp: member_inv_def with_protocol_def new_member_def)
  show "member_inv g'" if "member_inv g" and "member_step g g'" for g g'
    using that by (auto elim!: member_stepE intro: member_inv_next)
qed

text \<open>
  C34: an eager member owns nothing while it rebalances.  In every state the driver can bring a
  member to, under either protocol: it is leader only while syncing or stable, keeps the member
  list only as leader, and its assignment is in order; under the eager protocol it owns partitions
  only when it is stable; and it is never in the \<open>Joining\<close> state.
\<close>

theorem member_reachable_invariant:
  assumes "member_step\<^sup>*\<^sup>* (with_protocol (new_member group_id ts) p) g"
  shows "gm_state g \<noteq> Joining \<and>
     (gm_leader g \<longrightarrow> gm_state g = Syncing \<or> gm_state g = Stable) \<and>
     (gm_pending_members g \<noteq> [] \<longrightarrow> gm_leader g) \<and>
     (gm_protocol g = Eager \<and> gm_state g \<noteq> Stable \<longrightarrow> gm_assignment g = []) \<and>
     sorted (gm_assignment g)"
  using mm.inv_reachable [OF _ assms] unfolding member_inv_def by blast

theorem member_reachable_invariant_witness:
  "gm_assignment (member_next (new_member ''g'' [''t'']) Leave) = []"
proof -
  have "member_step\<^sup>*\<^sup>* (with_protocol (new_member ''g'' [''t'']) Eager) (member_next (new_member ''g'' [''t'']) Leave)"
    by (rule r_into_rtranclp) (auto simp: with_protocol_def new_member_def intro!: answer [of _ Leave, simplified])
  from member_reachable_invariant [OF this] show ?thesis
    by (simp add: on_leave_def revoke_fields new_member_def)
qed

section \<open>Committing\<close>

fun quiet :: "member_event \<Rightarrow> bool" where
  "quiet (Beat e) = True"
| "quiet (SetTopics ts) = True"
| "quiet _ = False"

lemma stable_next:
  assumes "expected g ev" and "gm_state (member_next g ev) = Stable"
  shows "(\<exists>tps. ev = Synced REBALANCE_NONE tps \<and> gm_assignment (member_next g ev) = sort tps \<and>
       gm_generation (member_next g ev) = gm_generation g) \<or>
     (quiet ev \<and> member_next g ev = g)"
  using assms
  by (cases ev)
     (auto simp: on_join_def on_sync_def on_heartbeat_def on_group_error_def on_leave_def set_topics_def
       request_rejoin_def revoke_fields Let_def split: if_splits)

lemma stable_run:
  assumes "gm_state g0 \<noteq> Stable" and "member_run g0 evs = Some g" and "gm_state g = Stable"
  shows "\<exists>evs1 tps evs2 g1. evs = evs1 @ Synced REBALANCE_NONE tps # evs2 \<and> member_run g0 evs1 = Some g1 \<and>
     gm_state g1 = Syncing \<and> gm_generation g1 = gm_generation g \<and> gm_assignment g = sort tps \<and> list_all quiet evs2"
  using assms(2,3)
proof (induction evs arbitrary: g rule: rev_induct)
  case Nil
  with assms(1) show ?case by simp
next
  case (snoc ev evs)
  then obtain g' where g': "member_run g0 evs = Some g'" "expected g' ev" "g = member_next g' ev"
    by (auto simp: member_run_append split: option.splits if_splits)
  from stable_next [OF g'(2)] snoc.prems(2) g'(3) consider
      tps where "ev = Synced REBALANCE_NONE tps" "gm_assignment g = sort tps" "gm_generation g = gm_generation g'"
    | "quiet ev" "g = g'" by auto
  then show ?case
  proof cases
    case 1
    then show ?thesis using g' by (intro exI [of _ evs] exI [of _ tps] exI [of _ "[]"] exI [of _ g']) auto
  next
    case 2
    with snoc.IH [OF g'(1)] snoc.prems(2) obtain evs1 tps evs2 g1 where
      "evs = evs1 @ Synced REBALANCE_NONE tps # evs2" "member_run g0 evs1 = Some g1" "gm_state g1 = Syncing"
      "gm_generation g1 = gm_generation g" "gm_assignment g = sort tps" "list_all quiet evs2" by auto
    with 2 show ?thesis
      by (intro exI [of _ evs1] exI [of _ tps] exI [of _ "evs2 @ [ev]"] exI [of _ g1]) auto
  qed
qed

text \<open>
  C33: only what was granted can be committed.  Whenever a member may commit, after any sequence of
  answers and requests, its assignment is exactly what the last \<open>SyncGroup\<close> answer granted, that
  answer came in the generation the member now reports, and since then nothing but good heartbeats
  and unchanged subscriptions has happened.
\<close>

theorem commit_only_what_was_granted:
  assumes "member_run (with_protocol (new_member group_id ts) p) evs = Some g" and "can_commit g"
  shows "\<exists>evs1 tps evs2 g1. evs = evs1 @ Synced REBALANCE_NONE tps # evs2 \<and>
     member_run (with_protocol (new_member group_id ts) p) evs1 = Some g1 \<and> gm_state g1 = Syncing \<and>
     gm_generation g1 = gm_generation g \<and> gm_generation g \<noteq> NO_GENERATION \<and>
     gm_assignment g = sort tps \<and> list_all quiet evs2"
proof -
  have "gm_state (with_protocol (new_member group_id ts) p) \<noteq> Stable"
    by (simp add: with_protocol_def new_member_def)
  from stable_run [OF this assms(1)] assms(2) show ?thesis by (auto simp: can_commit_def)
qed

theorem commit_only_what_was_granted_witness:
  "\<exists>g. member_run (with_protocol (new_member ''g'' [''t'']) Cooperative)
      [Joined 79 (- 1) ''m'' [] [], Joined 0 4 ''m'' ''m'' [], Synced 0 [TopicPartition ''t'' 1], Beat 0] = Some g \<and>
    can_commit g \<and> gm_assignment g = [TopicPartition ''t'' 1] \<and> gm_generation g = 4"
proof -
  let ?evs = "[Joined 79 (- 1) ''m'' [] [], Joined 0 4 ''m'' ''m'' [], Synced 0 [TopicPartition ''t'' 1], Beat 0]"
  obtain g where g: "member_run (with_protocol (new_member ''g'' [''t'']) Cooperative) ?evs = Some g"
    "can_commit g" "gm_generation g = 4"
    by (simp add: with_protocol_def new_member_def on_join_def on_sync_def on_heartbeat_def member_codes
        can_commit_def NO_GENERATION_def Let_def)
  from commit_only_what_was_granted [OF g(1,2)] obtain evs1 tps evs2 where
    e: "?evs = evs1 @ Synced REBALANCE_NONE tps # evs2" "gm_assignment g = sort tps" by auto
  then have "Synced REBALANCE_NONE tps \<in> set ?evs" by (metis in_set_conv_decomp)
  then have "tps = [TopicPartition ''t'' 1]" by (simp add: member_codes)
  with g e(2) show ?thesis by simp
qed

section \<open>Giving partitions up\<close>

lemma heartbeat_error:
  assumes "error \<noteq> REBALANCE_NONE" and "on_heartbeat g error = (st, g')"
  shows "\<not> can_commit g' \<and> (st = FindCoordinatorStep \<or> st = Join (gm_member_id g')) \<and>
     (gm_protocol g = Eager \<longrightarrow> gm_assignment g' = [] \<and> gm_lost g' = gm_assignment g) \<and>
     (gm_protocol g = Cooperative \<longrightarrow> gm_assignment g' = gm_assignment g \<and> gm_lost g' = [])"
proof -
  have "gm_member_id (revoke_and_rejoin x) = gm_member_id x" for x
    by (simp add: revoke_and_rejoin_def Let_def)
  with assms show ?thesis
    by (auto simp: on_heartbeat_def on_group_error_def revoke_fields can_commit_def split: if_splits)
qed

lemma sync_granted:
  assumes "on_sync g REBALANCE_NONE tps = (st, g')"
  shows "gm_assignment g' = sort tps \<and> gm_generation g' = gm_generation g \<and>
     set (gm_lost g') = (if gm_protocol g = Eager then {} else set (gm_assignment g) - set tps) \<and>
     (gm_lost g' = [] \<longrightarrow> gm_state g' = Stable \<and> st = Heartbeat) \<and>
     (gm_lost g' \<noteq> [] \<longrightarrow> \<not> can_commit g' \<and> st = Join (gm_member_id g) \<and> member_next_step g' = st)"
proof (cases "gm_protocol g")
  case Eager
  with assms show ?thesis by (auto simp: on_sync_def Let_def)
next
  case Cooperative
  with assms show ?thesis
    by (cases "filter (\<lambda>tp. tp \<notin> set (sort tps)) (gm_assignment g) = []")
       (auto simp: on_sync_def can_commit_def member_next_step_def Let_def filter_empty_conv)
qed

text \<open>
  Giving partitions up, and only those.  A heartbeat that reports any error ends the
  membership's right to commit: an eager member then owns nothing and lists everything it had as
  lost; a cooperative one keeps its assignment for now.  A good sync sets the assignment to what
  was granted; a cooperative member lists exactly what it had and was not granted as lost, and if
  that is anything it may not commit and must rejoin, in the same generation, while if it is
  nothing it is stable.
\<close>

theorem partitions_given_up:
  assumes "error \<noteq> REBALANCE_NONE" and "on_heartbeat g error = (st, g')"
    and "on_sync g REBALANCE_NONE tps = (st2, g2)"
  shows "\<not> can_commit g' \<and> (st = FindCoordinatorStep \<or> st = Join (gm_member_id g')) \<and>
     (gm_protocol g = Eager \<longrightarrow> gm_assignment g' = [] \<and> gm_lost g' = gm_assignment g) \<and>
     (gm_protocol g = Cooperative \<longrightarrow> gm_assignment g' = gm_assignment g \<and> gm_lost g' = []) \<and>
     gm_assignment g2 = sort tps \<and> gm_generation g2 = gm_generation g \<and>
     set (gm_lost g2) = (if gm_protocol g = Eager then {} else set (gm_assignment g) - set tps) \<and>
     (gm_lost g2 = [] \<longrightarrow> gm_state g2 = Stable \<and> st2 = Heartbeat) \<and>
     (gm_lost g2 \<noteq> [] \<longrightarrow> \<not> can_commit g2 \<and> st2 = Join (gm_member_id g) \<and> member_next_step g2 = st2)"
  using heartbeat_error [OF assms(1,2)] sync_granted [OF assms(3)] by blast

theorem partitions_given_up_witness:
  "gm_assignment (snd (on_heartbeat ((new_member ''g'' [''t''])\<lparr>gm_assignment := [TopicPartition ''t'' 0],
     gm_state := Stable\<rparr>) REBALANCE_IN_PROGRESS)) = []"
proof -
  let ?g = "(new_member ''g'' [''t''])\<lparr>gm_assignment := [TopicPartition ''t'' 0], gm_state := Stable\<rparr>"
  have "REBALANCE_IN_PROGRESS \<noteq> REBALANCE_NONE" by (simp add: member_codes)
  from partitions_given_up [OF this, of ?g "fst (on_heartbeat ?g REBALANCE_IN_PROGRESS)"
      "snd (on_heartbeat ?g REBALANCE_IN_PROGRESS)" "[]" "fst (on_sync ?g REBALANCE_NONE [])"
      "snd (on_sync ?g REBALANCE_NONE [])"]
  show ?thesis by (simp add: new_member_def)
qed

text \<open>
  A fenced cooperative member still claims what it held.  When the coordinator says it does not
  know the member, a cooperative member drops its id but keeps both its assignment and its
  generation, so its next \<open>JoinGroup\<close> claims those partitions as of that generation, which is a claim the
  leader's generation check accepts when no member reports a later one.
\<close>

theorem fenced_cooperative_member_keeps_claims:
  assumes "gm_protocol g = Cooperative" and "error = UNKNOWN_MEMBER_ID \<or> error = FENCED_INSTANCE_ID"
    and "0 \<le> gm_generation g" and "\<forall>m\<in>set others. generation m \<le> gm_generation g \<and> member_id m \<noteq> mid"
    and "s = (member_subscription (snd (on_heartbeat g error)))\<lparr>member_id := mid\<rparr>"
  shows "gm_member_id (snd (on_heartbeat g error)) = [] \<and> owned s = gm_assignment g \<and>
     generation s = gm_generation g \<and> bt_get (live_claims (others @ [s])) mid = Some (gm_assignment g)"
proof -
  let ?g = "snd (on_heartbeat g error)"
  have f: "gm_member_id ?g = []" "gm_assignment ?g = gm_assignment g" "gm_generation ?g = gm_generation g"
    using assms(1,2) by (auto simp: on_heartbeat_def on_group_error_def member_codes revoke_and_rejoin_def Let_def)
  have s: "s = \<lparr>member_id = mid, topics = gm_topics ?g, owned = gm_assignment g, generation = gm_generation g\<rparr>"
    using assms(5) f by (simp add: member_subscription_def)
  have "Max (generation ` set (others @ [s])) = gm_generation g"
    by (rule Max_eqI) (use assms(4) s in auto)
  then have "bt_get (live_claims (others @ [s])) mid = Some (gm_assignment g)"
    using s assms(3) by (simp add: live_claims_def bt_get_collect Let_def)
  with f s show ?thesis by simp
qed

theorem fenced_cooperative_member_keeps_claims_witness:
  "owned (member_subscription (snd (on_heartbeat ((with_protocol (new_member ''g'' [''t'']) Cooperative)
     \<lparr>gm_assignment := [TopicPartition ''t'' 0], gm_generation := 3, gm_state := Stable\<rparr>) UNKNOWN_MEMBER_ID))) =
   [TopicPartition ''t'' 0]"
  using fenced_cooperative_member_keeps_claims [of "(with_protocol (new_member ''g'' [''t'']) Cooperative)
     \<lparr>gm_assignment := [TopicPartition ''t'' 0], gm_generation := 3, gm_state := Stable\<rparr>" UNKNOWN_MEMBER_ID "[]"]
  by (simp add: with_protocol_def member_subscription_def)

end
