(* ===== verification/Group_Client.thy ===== *)
theory Group_Client
  imports Producer_Client Member
begin

text \<open>
  The group protocol on a socket, \<^verbatim>\<open>barnabas-client/src/group.rs\<close>: \<^verbatim>\<open>ClassicProtocol\<close> drives the member state
  machine of \<open>Member\<close>, finds the coordinator, encodes the subscription and the assignment, commits
  offsets and fetches them.

  What it calls of the cluster layer is the record \<open>'w group_ops\<close>, its state \<open>'w\<close> threaded through; the bodies of
  the two blobs are encoded and decoded by the \<^verbatim>\<open>kafka-protocol\<close> crate, a parameter as well.  Tracing
  (\<^verbatim>\<open>BARNABAS_TRACE\<close>) is left out.

  Shown in \<open>Group_Laws\<close>: the blobs survive the trip from the leader to a member; an offset is committed only under the
  generation that granted the partition; a partition never committed has no offset; an eager member
  announces what it gave up before it asks to join again, a cooperative one may never announce it.
\<close>

section \<open>Messages\<close>

record join_request =
  jq_group_id :: string
  jq_session_timeout_ms :: int
  jq_rebalance_timeout_ms :: int
  jq_member_id :: string
  jq_protocol_type :: string
  jq_protocols :: "(string \<times> bytes) list"

record join_response =
  jr_error_code :: int
  jr_generation_id :: int
  jr_leader :: string
  jr_member_id :: string
  jr_members :: "(string \<times> bytes) list"

record sync_request =
  sq_group_id :: string
  sq_generation_id :: int
  sq_member_id :: string
  sq_protocol_type :: string
  sq_protocol_name :: string
  sq_assignments :: "(string \<times> bytes) list"

record sync_response =
  sr_error_code :: int
  sr_assignment :: bytes

record member_request =
  mq_group_id :: string
  mq_generation_id :: int
  mq_member_id :: string

record commit_request =
  cq_group_id :: string
  cq_generation_id :: int
  cq_member_id :: string
  cq_topics :: "(string \<times> (int \<times> int \<times> int) list) list"

record offset_fetch_response =
  of_error_code :: int
  of_topics :: "(string \<times> (int \<times> int \<times> int) list) list"

text \<open>The bodies of the blobs, without their version.\<close>

record subscription_body =
  sb_topics :: "string list"
  sb_generation_id :: int
  sb_owned :: "(string \<times> int list) list"

type_synonym assignment_body = "(string \<times> int list) list"

record blob_codec =
  enc_subscription :: "subscription_body \<Rightarrow> int \<Rightarrow> string + bytes"
  dec_subscription :: "bytes \<Rightarrow> int \<Rightarrow> string + subscription_body"
  enc_assignment :: "assignment_body \<Rightarrow> int \<Rightarrow> string + bytes"
  dec_assignment :: "bytes \<Rightarrow> int \<Rightarrow> string + assignment_body"

record 'w group_ops =
  go_find_coordinator :: "'w \<Rightarrow> string \<Rightarrow> int \<Rightarrow> (client_error + coordinator_info) \<times> 'w"
  go_join :: "'w \<Rightarrow> string \<Rightarrow> join_request \<Rightarrow> nat \<Rightarrow> (client_error + join_response) \<times> 'w"
  go_sync :: "'w \<Rightarrow> string \<Rightarrow> sync_request \<Rightarrow> nat \<Rightarrow> (client_error + sync_response) \<times> 'w"
  go_heartbeat :: "'w \<Rightarrow> string \<Rightarrow> member_request \<Rightarrow> nat \<Rightarrow> (client_error + int) \<times> 'w"
  go_leave :: "'w \<Rightarrow> string \<Rightarrow> string \<times> string \<Rightarrow> nat \<Rightarrow> (client_error + unit) \<times> 'w"
  go_commit :: "'w \<Rightarrow> string \<Rightarrow> commit_request \<Rightarrow> nat \<Rightarrow> (client_error + (string \<times> (int \<times> int) list) list) \<times> 'w"
  go_fetch_offsets :: "'w \<Rightarrow> string \<Rightarrow> string \<times> (string \<times> int list) list \<Rightarrow> nat \<Rightarrow> (client_error + offset_fetch_response) \<times> 'w"
  go_partition_count :: "'w \<Rightarrow> string \<Rightarrow> (client_error + int) \<times> 'w"
  go_sleep :: "'w \<Rightarrow> nat \<Rightarrow> 'w"
  go_blobs :: blob_codec

section \<open>Constants\<close>

definition CONSUMER_PROTOCOL :: string where "CONSUMER_PROTOCOL = ''consumer''"
definition COORDINATOR_RETRIES :: nat where "COORDINATOR_RETRIES = 40"
definition COORDINATOR_BACKOFF :: nat where "COORDINATOR_BACKOFF = 250"
definition JOIN_SLACK :: nat where "JOIN_SLACK = 5000"
definition COORDINATOR_TIMEOUT :: nat where "COORDINATOR_TIMEOUT = 30000"
definition PROTOCOL_VERSION :: int where "PROTOCOL_VERSION = 2"

section \<open>The embedded blobs\<close>

definition codec_error :: "string \<Rightarrow> client_error" where
  "codec_error m = Core (Codec m)"

text \<open>The version, and the cursor after it.\<close>

definition read_version :: "bytes \<Rightarrow> client_error + int \<times> bytes" where
  "read_version bs =
     (if length bs < 2 then Inl (codec_error ''consumer protocol blob is too short for its version'')
      else Inr (i16_from_be (take 2 bs), drop 2 bs))"

definition by_topic :: "topic_partition list \<Rightarrow> (string, int list) btree" where
  "by_topic tps = bt_group tp_topic tp_partition tps"

definition flat_topics :: "(string \<times> int list) list \<Rightarrow> topic_partition list" where
  "flat_topics xs = concat (map (\<lambda>(topic, ps). map (TopicPartition topic) ps) xs)"

definition with_version :: "string \<Rightarrow> string + bytes \<Rightarrow> client_error + bytes" where
  "with_version what r =
     (case r of Inl e \<Rightarrow> Inl (codec_error (what @ '': '' @ e)) | Inr body \<Rightarrow> Inr (be_bytes 2 PROTOCOL_VERSION @ body))"

definition encode_subscription :: "blob_codec \<Rightarrow> subscription \<Rightarrow> client_error + bytes" where
  "encode_subscription bc s =
     with_version ''subscription''
       (enc_subscription bc \<lparr>sb_topics = topics s, sb_generation_id = generation s, sb_owned = by_topic (owned s)\<rparr>
          PROTOCOL_VERSION)"

definition decode_subscription :: "blob_codec \<Rightarrow> string \<Rightarrow> bytes \<Rightarrow> client_error + subscription" where
  "decode_subscription bc mid metadata =
     bind_sum (read_version metadata) (\<lambda>(version, cursor).
       case dec_subscription bc cursor version of
         Inl e \<Rightarrow> Inl (codec_error (''subscription: '' @ e))
       | Inr body \<Rightarrow>
           Inr \<lparr>member_id = mid, topics = sb_topics body, owned = flat_topics (sb_owned body),
                generation = (if 2 \<le> version then sb_generation_id body else - 1)\<rparr>)"

definition encode_assignment :: "blob_codec \<Rightarrow> topic_partition list \<Rightarrow> client_error + bytes" where
  "encode_assignment bc tps = with_version ''assignment'' (enc_assignment bc (by_topic tps) PROTOCOL_VERSION)"

definition decode_assignment :: "blob_codec \<Rightarrow> bytes \<Rightarrow> client_error + topic_partition list" where
  "decode_assignment bc bs =
     bind_sum (read_version bs) (\<lambda>(version, cursor).
       case dec_assignment bc cursor version of
         Inl e \<Rightarrow> Inl (codec_error (''assignment: '' @ e))
       | Inr body \<Rightarrow> Inr (sort (flat_topics body)))"

section \<open>The protocol's state\<close>

datatype membership =
    InProgress
  | Assigned "topic_partition list"
  | Revoked "topic_partition list"

record classic_protocol =
  cp_member :: group_member
  cp_assignor :: strategy
  cp_coordinator :: "string option"
  cp_session_timeout_ms :: int
  cp_rebalance_timeout_ms :: int
  cp_announced_revoked :: bool
  cp_ever_assigned :: bool

definition new_classic :: "string \<Rightarrow> string list \<Rightarrow> strategy \<Rightarrow> classic_protocol" where
  "new_classic group_id ts strat =
     \<lparr>cp_member = with_protocol (new_member group_id ts)
        (if strategy_name strat = ''cooperative-sticky'' then Cooperative else Eager),
      cp_assignor = strat, cp_coordinator = None, cp_session_timeout_ms = 45000, cp_rebalance_timeout_ms = 300000,
      cp_announced_revoked = False, cp_ever_assigned = False\<rparr>"

definition set_session_timeout :: "classic_protocol \<Rightarrow> int \<Rightarrow> classic_protocol" where
  "set_session_timeout cp ms = cp\<lparr>cp_session_timeout_ms := ms\<rparr>"

definition set_rebalance_timeout :: "classic_protocol \<Rightarrow> int \<Rightarrow> classic_protocol" where
  "set_rebalance_timeout cp ms = cp\<lparr>cp_rebalance_timeout_ms := ms\<rparr>"

definition classic_topics :: "classic_protocol \<Rightarrow> string list" where
  "classic_topics cp = gm_topics (cp_member cp)"

definition classic_request_rejoin :: "classic_protocol \<Rightarrow> classic_protocol" where
  "classic_request_rejoin cp = cp\<lparr>cp_member := request_rejoin (cp_member cp)\<rparr>"

definition classic_group_metadata :: "classic_protocol \<Rightarrow> group_metadata option" where
  "classic_group_metadata cp =
     (if \<not> can_commit (cp_member cp) then None
      else Some \<lparr>gmd_group_id = gm_group_id (cp_member cp), gmd_generation_id = gm_generation (cp_member cp),
                 gmd_member_id = gm_member_id (cp_member cp), gmd_group_instance_id = None\<rparr>)"

section \<open>Coordinator requests\<close>

fun find_group_coordinator ::
  "'w group_ops \<Rightarrow> nat \<Rightarrow> classic_protocol \<Rightarrow> 'w \<Rightarrow> (client_error + string) \<times> classic_protocol \<times> 'w" where
  "find_group_coordinator ops 0 cp w =
     (Inl (Broker ''FindCoordinator'' MEMBER_COORDINATOR_NOT_AVAILABLE Retry), cp, w)"
| "find_group_coordinator ops (Suc left) cp w =
     (case go_find_coordinator ops w (gm_group_id (cp_member cp)) 0 of
        (Inl e, w1) \<Rightarrow> (Inl e, cp, w1)
      | (Inr resp, w1) \<Rightarrow>
          if ci_error_code resp = REBALANCE_NONE
          then (Inr (coordinator_address resp), cp\<lparr>cp_coordinator := Some (coordinator_address resp)\<rparr>, w1)
          else if ci_error_code resp = MEMBER_COORDINATOR_NOT_AVAILABLE \<or>
                  ci_error_code resp = MEMBER_COORDINATOR_LOAD_IN_PROGRESS
          then find_group_coordinator ops left cp (go_sleep ops w1 COORDINATOR_BACKOFF)
          else (case check ''FindCoordinator'' (ci_error_code resp) of
                  Inl e \<Rightarrow> (Inl e, cp, w1)
                | Inr _ \<Rightarrow> find_group_coordinator ops left cp w1))"

definition group_coordinator_addr ::
  "'w group_ops \<Rightarrow> classic_protocol \<Rightarrow> 'w \<Rightarrow> (client_error + string) \<times> classic_protocol \<times> 'w" where
  "group_coordinator_addr ops cp w =
     (case cp_coordinator cp of
        Some a \<Rightarrow> (Inr a, cp, w)
      | None \<Rightarrow> find_group_coordinator ops COORDINATOR_RETRIES cp w)"

text \<open>A request to the coordinator, once its address is known.\<close>

definition at_coordinator ::
  "'w group_ops \<Rightarrow> (string \<Rightarrow> classic_protocol \<Rightarrow> 'w \<Rightarrow> (client_error + 'r) \<times> classic_protocol \<times> 'w) \<Rightarrow>
   classic_protocol \<Rightarrow> 'w \<Rightarrow> (client_error + 'r) \<times> classic_protocol \<times> 'w" where
  "at_coordinator ops k cp w =
     (case group_coordinator_addr ops cp w of (Inl e, cp1, w1) \<Rightarrow> (Inl e, cp1, w1) | (Inr a, cp1, w1) \<Rightarrow> k a cp1 w1)"

fun collect_results :: "('a \<Rightarrow> 'e + 'b) \<Rightarrow> 'a list \<Rightarrow> 'e + 'b list" where
  "collect_results f [] = Inr []"
| "collect_results f (x # xs) = bind_sum (f x) (\<lambda>y. bind_sum (collect_results f xs) (\<lambda>ys. Inr (y # ys)))"

definition join_deadline :: "classic_protocol \<Rightarrow> nat" where
  "join_deadline cp = (if cp_rebalance_timeout_ms cp < 0 then 300000 else nat (cp_rebalance_timeout_ms cp)) + JOIN_SLACK"

definition classic_join ::
  "'w group_ops \<Rightarrow> classic_protocol \<Rightarrow> 'w \<Rightarrow> (client_error + next_step) \<times> classic_protocol \<times> 'w" where
  "classic_join ops = at_coordinator ops (\<lambda>a cp w.
     let g = cp_member cp
     in case encode_subscription (go_blobs ops) (member_subscription g) of
          Inl e \<Rightarrow> (Inl e, cp, w)
        | Inr metadata \<Rightarrow>
            (case go_join ops w a
                    \<lparr>jq_group_id = gm_group_id g, jq_session_timeout_ms = cp_session_timeout_ms cp,
                     jq_rebalance_timeout_ms = cp_rebalance_timeout_ms cp, jq_member_id = gm_member_id g,
                     jq_protocol_type = CONSUMER_PROTOCOL, jq_protocols = [(strategy_name (cp_assignor cp), metadata)]\<rparr>
                    (join_deadline cp) of
               (Inl e, w1) \<Rightarrow> (Inl e, cp, w1)
             | (Inr resp, w1) \<Rightarrow>
                 (case (if jr_leader resp = jr_member_id resp
                        then collect_results (\<lambda>(mid, blob). decode_subscription (go_blobs ops) mid blob) (jr_members resp)
                        else Inr []) of
                    Inl e \<Rightarrow> (Inl e, cp, w1)
                  | Inr members \<Rightarrow>
                      (case on_join g (jr_error_code resp) (jr_generation_id resp) (jr_member_id resp) (jr_leader resp) members of
                         (step, g') \<Rightarrow> (Inr step, cp\<lparr>cp_member := g'\<rparr>, w1)))))"

definition classic_sync ::
  "'w group_ops \<Rightarrow> (string \<times> bytes) list \<Rightarrow> classic_protocol \<Rightarrow> 'w \<Rightarrow> (client_error + next_step) \<times> classic_protocol \<times> 'w" where
  "classic_sync ops assignments = at_coordinator ops (\<lambda>a cp w.
     let g = cp_member cp
     in case go_sync ops w a
               \<lparr>sq_group_id = gm_group_id g, sq_generation_id = gm_generation g, sq_member_id = gm_member_id g,
                sq_protocol_type = CONSUMER_PROTOCOL, sq_protocol_name = strategy_name (cp_assignor cp),
                sq_assignments = assignments\<rparr> COORDINATOR_TIMEOUT of
          (Inl e, w1) \<Rightarrow> (Inl e, cp, w1)
        | (Inr resp, w1) \<Rightarrow>
            (case (if sr_error_code resp = REBALANCE_NONE \<and> sr_assignment resp \<noteq> []
                   then decode_assignment (go_blobs ops) (sr_assignment resp) else Inr []) of
               Inl e \<Rightarrow> (Inl e, cp, w1)
             | Inr assigned \<Rightarrow>
                 (case on_sync g (sr_error_code resp) assigned of (step, g') \<Rightarrow> (Inr step, cp\<lparr>cp_member := g'\<rparr>, w1))))"

definition classic_heartbeat ::
  "'w group_ops \<Rightarrow> classic_protocol \<Rightarrow> 'w \<Rightarrow> (client_error + next_step) \<times> classic_protocol \<times> 'w" where
  "classic_heartbeat ops = at_coordinator ops (\<lambda>a cp w.
     let g = cp_member cp
     in case go_heartbeat ops w a
               \<lparr>mq_group_id = gm_group_id g, mq_generation_id = gm_generation g, mq_member_id = gm_member_id g\<rparr>
               COORDINATOR_TIMEOUT of
          (Inl e, w1) \<Rightarrow> (Inl e, cp, w1)
        | (Inr code, w1) \<Rightarrow> (case on_heartbeat g code of (step, g') \<Rightarrow> (Inr step, cp\<lparr>cp_member := g'\<rparr>, w1)))"

text \<open>The partition counts of every topic some member wants, asked for once each.\<close>

fun count_topics ::
  "'w group_ops \<Rightarrow> string list \<Rightarrow> partition_totals \<Rightarrow> 'w \<Rightarrow> (client_error + partition_totals) \<times> 'w" where
  "count_topics ops [] m w = (Inr m, w)"
| "count_topics ops (t # ts) m w =
     (if bt_get m t \<noteq> None then count_topics ops ts m w
      else case go_partition_count ops w t of
             (Inl e, w1) \<Rightarrow> (Inl e, w1)
           | (Inr n, w1) \<Rightarrow> count_topics ops ts (bt_insert t n m) w1)"

definition encode_entries :: "blob_codec \<Rightarrow> assignment \<Rightarrow> client_error + (string \<times> bytes) list" where
  "encode_entries bc a = collect_results (\<lambda>(mid, tps). bind_sum (encode_assignment bc tps) (\<lambda>blob. Inr (mid, blob))) a"

definition fails :: "'e + 'a \<Rightarrow> 'e failure + 'a" where
  "fails r = (case r of Inl e \<Rightarrow> Inl (Failed e) | Inr x \<Rightarrow> Inr x)"

definition assign_and_sync ::
  "'w group_ops \<Rightarrow> subscription list \<Rightarrow> classic_protocol \<Rightarrow> 'w \<Rightarrow>
   (client_error failure + next_step) \<times> classic_protocol \<times> 'w" where
  "assign_and_sync ops members cp w =
     (case count_topics ops (concat (map topics members)) [] w of
        (Inl e, w1) \<Rightarrow> (Inl (Failed e), cp, w1)
      | (Inr totals, w1) \<Rightarrow>
          (case assign_with (cp_assignor cp) members totals of
             Inl _ \<Rightarrow> (Inl Panicked, cp, w1)
           | Inr a \<Rightarrow>
               (case encode_entries (go_blobs ops) a of
                  Inl e \<Rightarrow> (Inl (Failed e), cp, w1)
                | Inr encoded \<Rightarrow> (case classic_sync ops encoded cp w1 of (r, s) \<Rightarrow> (fails r, s)))))"

section \<open>Driving membership\<close>

definition take_step ::
  "'w group_ops \<Rightarrow> classic_protocol \<Rightarrow> 'w \<Rightarrow> (client_error failure + next_step) \<times> classic_protocol \<times> 'w" where
  "take_step ops cp w =
     (case member_next_step (cp_member cp) of
        Join _ \<Rightarrow> (case classic_join ops cp w of (r, s) \<Rightarrow> (fails r, s))
      | AssignAndSync members \<Rightarrow> assign_and_sync ops members cp w
      | Sync \<Rightarrow> (case classic_sync ops [] cp w of (r, s) \<Rightarrow> (fails r, s))
      | Heartbeat \<Rightarrow> (case classic_heartbeat ops cp w of (r, s) \<Rightarrow> (fails r, s))
      | FindCoordinatorStep \<Rightarrow> (Inr (Join (gm_member_id (cp_member cp))), cp\<lparr>cp_coordinator := None\<rparr>, w))"

text \<open>What a step is reported as.\<close>

definition report :: "classic_protocol \<Rightarrow> membership \<times> classic_protocol" where
  "report cp =
     (if gm_state (cp_member cp) = Stable
      then (Assigned (gm_assignment (cp_member cp)), cp\<lparr>cp_announced_revoked := False, cp_ever_assigned := True\<rparr>)
      else if cp_ever_assigned cp \<and> \<not> cp_announced_revoked cp
      then (Revoked (gm_lost (cp_member cp)), cp\<lparr>cp_announced_revoked := True\<rparr>)
      else (InProgress, cp))"

definition advance ::
  "'w group_ops \<Rightarrow> classic_protocol \<Rightarrow> 'w \<Rightarrow> (client_error failure + membership) \<times> classic_protocol \<times> 'w" where
  "advance ops cp w =
     (case take_step ops cp w of
        (Inl e, cp1, w1) \<Rightarrow> (Inl e, cp1, w1)
      | (Inr outcome, cp1, w1) \<Rightarrow>
          (case report (if outcome = FindCoordinatorStep then cp1\<lparr>cp_coordinator := None\<rparr> else cp1) of
             (m, cp2) \<Rightarrow> (Inr m, cp2, w1)))"

definition classic_leave ::
  "'w group_ops \<Rightarrow> classic_protocol \<Rightarrow> 'w \<Rightarrow> (client_error + unit) \<times> classic_protocol \<times> 'w" where
  "classic_leave ops cp w =
     (if gm_member_id (cp_member cp) = [] then (Inr (), cp, w)
      else at_coordinator ops (\<lambda>a cp w.
             case go_leave ops w a (gm_group_id (cp_member cp), gm_member_id (cp_member cp)) COORDINATOR_TIMEOUT of
               (_, w1) \<Rightarrow> (Inr (), cp\<lparr>cp_member := on_leave (cp_member cp)\<rparr>, w1)) cp w)"

section \<open>Offsets\<close>

fun check_codes :: "string \<Rightarrow> int list \<Rightarrow> client_error + unit" where
  "check_codes op [] = Inr ()"
| "check_codes op (c # cs) = bind_sum (check op c) (\<lambda>_. check_codes op cs)"

definition commit_offsets ::
  "'w group_ops \<Rightarrow> (topic_partition, int) btree \<Rightarrow> classic_protocol \<Rightarrow> 'w \<Rightarrow> (client_error + unit) \<times> classic_protocol \<times> 'w" where
  "commit_offsets ops offsets cp w =
     (if offsets = [] then (Inr (), cp, w)
      else if \<not> can_commit (cp_member cp) then (Inl (Broker ''OffsetCommit'' REBALANCE_IN_PROGRESS Retry), cp, w)
      else at_coordinator ops (\<lambda>a cp w.
             case go_commit ops w a
                    \<lparr>cq_group_id = gm_group_id (cp_member cp), cq_generation_id = gm_generation (cp_member cp),
                     cq_member_id = gm_member_id (cp_member cp),
                     cq_topics = bt_group (\<lambda>(tp, _). tp_topic tp) (\<lambda>(tp, offset). (tp_partition tp, offset, - 1)) offsets\<rparr>
                    COORDINATOR_TIMEOUT of
               (Inl e, w1) \<Rightarrow> (Inl e, cp, w1)
             | (Inr resp, w1) \<Rightarrow> (check_codes ''OffsetCommit'' (concat (map (\<lambda>(_, ps). map snd ps) resp)), cp, w1)) cp w)"

definition note_committed ::
  "string \<Rightarrow> int \<times> int \<times> int \<Rightarrow> (topic_partition, int) btree \<Rightarrow> client_error + (topic_partition, int) btree" where
  "note_committed topic p m =
     (case p of (index, committed, code) \<Rightarrow>
        bind_sum (check ''OffsetFetch partition'' code) (\<lambda>_.
          Inr (if 0 \<le> committed then bt_insert (TopicPartition topic index) committed m else m)))"

definition classic_fetch_offsets ::
  "'w group_ops \<Rightarrow> topic_partition list \<Rightarrow> classic_protocol \<Rightarrow> 'w \<Rightarrow>
   (client_error + (topic_partition, int) btree) \<times> classic_protocol \<times> 'w" where
  "classic_fetch_offsets ops tps cp w =
     (if tps = [] then (Inr [], cp, w)
      else at_coordinator ops (\<lambda>a cp w.
             case go_fetch_offsets ops w a (gm_group_id (cp_member cp), by_topic tps) COORDINATOR_TIMEOUT of
               (Inl e, w1) \<Rightarrow> (Inl e, cp, w1)
             | (Inr resp, w1) \<Rightarrow>
                 (bind_sum (check ''OffsetFetch'' (of_error_code resp)) (\<lambda>_.
                    fold_sum (\<lambda>(topic, ps). fold_sum (note_committed topic) ps) (of_topics resp) []), cp, w1)) cp w)"

end
