(* ===== verification/Consumer_Filter.thy ===== *)
theory Consumer_Filter
  imports Prelude
begin

text \<open>
  READ_COMMITTED filtering of one partition's records, \<^verbatim>\<open>barnabas-core/src/consumer.rs\<close>.
  \<^verbatim>\<open>Record\<close> is the \<^verbatim>\<open>kafka-protocol\<close> crate's struct; \<open>krecord\<close> has the fields the client
  reads.  The \<^verbatim>\<open>HashSet\<close> of open aborted producers is a set, the peekable iterator over the
  sorted aborted transactions a list, the \<^verbatim>\<open>for\<close> loop with its \<^verbatim>\<open>break\<close> the recursion
  \<open>filter_loop\<close>.

  Shown: the whole routine, fast path included, delivers exactly the records an offset-range
  specification of READ_COMMITTED allows; successive fetches never deliver an offset twice; and
  where the position can fail to advance.
\<close>

section \<open>Data\<close>

datatype isolation_level = ReadUncommitted | ReadCommitted

fun as_i8 :: "isolation_level \<Rightarrow> int" where
  "as_i8 ReadUncommitted = 0"
| "as_i8 ReadCommitted = 1"

record aborted_transaction =
  ab_producer_id :: int
  first_offset :: int

record fetch_position =
  fp_topic :: string
  fp_partition :: int
  fp_next_offset :: int

definition new_fetch_position :: "string \<Rightarrow> int \<Rightarrow> int \<Rightarrow> fetch_position" where
  "new_fetch_position topic part next_offset =
     \<lparr>fp_topic = topic, fp_partition = part, fp_next_offset = next_offset\<rparr>"

record krecord =
  rec_offset :: int
  rec_producer_id :: int
  rec_transactional :: bool
  rec_control :: bool
  rec_key :: "bytes option"
  rec_value :: "bytes option"

record fetched =
  f_records :: "krecord list"
  f_next_offset :: int

definition CONTROL_ABORT :: int where "CONTROL_ABORT = 0"

definition control_type :: "krecord \<Rightarrow> int option" where
  "control_type r =
     (case rec_key r of
        None \<Rightarrow> None
      | Some key \<Rightarrow> if length key < 4 then None else Some (i16_from_be [key ! 2, key ! 3]))"

section \<open>The filter\<close>

text \<open>The inner \<^verbatim>\<open>while\<close> over the peekable iterator.\<close>

fun open_aborted :: "int \<Rightarrow> aborted_transaction list \<Rightarrow> int set \<Rightarrow> aborted_transaction list \<times> int set" where
  "open_aborted off [] opened = ([], opened)"
| "open_aborted off (a # as) opened =
     (if first_offset a \<le> off then open_aborted off as (insert (ab_producer_id a) opened)
      else (a # as, opened))"

fun filter_loop ::
  "bool \<Rightarrow> int \<Rightarrow> int \<Rightarrow> krecord list \<Rightarrow> aborted_transaction list \<Rightarrow> int set \<Rightarrow>
   krecord list \<Rightarrow> int \<Rightarrow> fetched" where
  "filter_loop rc lso fetch_offset [] pend opened kept nxt =
     \<lparr>f_records = kept, f_next_offset = nxt\<rparr>"
| "filter_loop rc lso fetch_offset (r # rs) pend opened kept nxt =
     (if rc \<and> lso \<le> rec_offset r then \<lparr>f_records = kept, f_next_offset = nxt\<rparr>
      else
        (let nxt' = wrap64 (rec_offset r + 1)
         in case open_aborted (rec_offset r) pend opened of
              (pend', opened') \<Rightarrow>
                if rec_control r
                then filter_loop rc lso fetch_offset rs pend'
                       (if control_type r = Some CONTROL_ABORT
                        then opened' - {rec_producer_id r} else opened') kept nxt'
                else if rc \<and> rec_transactional r \<and> rec_producer_id r \<in> opened'
                then filter_loop rc lso fetch_offset rs pend' opened' kept nxt'
                else if rec_offset r < fetch_offset
                then filter_loop rc lso fetch_offset rs pend' opened' kept nxt'
                else filter_loop rc lso fetch_offset rs pend' opened' (kept @ [r]) nxt'))"

definition filter_records ::
  "krecord list \<Rightarrow> aborted_transaction list \<Rightarrow> int \<Rightarrow> isolation_level \<Rightarrow> int \<Rightarrow> fetched" where
  "filter_records recs aborted lso isolation fetch_offset =
     (let sorted_ab = sort_key first_offset aborted;
          rc = (isolation = ReadCommitted)
      in if aborted = [] \<and>
            \<not> list_ex (\<lambda>r. rec_control r \<or> rec_offset r < fetch_offset \<or> rc \<and> lso \<le> rec_offset r) recs
         then \<lparr>f_records = recs,
               f_next_offset = (if recs = [] then fetch_offset else wrap64 (rec_offset (last recs) + 1))\<rparr>
         else filter_loop rc lso fetch_offset recs sorted_ab {} [] fetch_offset)"

section \<open>Specification\<close>

text \<open>
  A record is inside an aborted transaction when the broker listed a transaction of its producer
  that began at or before it, and no abort marker of that producer at or after that beginning
  precedes the record.  \<open>prev\<close> are the records before it.
\<close>

definition is_abort_marker :: "krecord \<Rightarrow> bool" where
  "is_abort_marker r \<longleftrightarrow> rec_control r \<and> control_type r = Some CONTROL_ABORT"

definition closed_by :: "krecord list \<Rightarrow> aborted_transaction \<Rightarrow> bool" where
  "closed_by prev a \<longleftrightarrow>
     list_ex (\<lambda>m. is_abort_marker m \<and> rec_producer_id m = ab_producer_id a \<and> first_offset a \<le> rec_offset m) prev"

definition in_aborted :: "aborted_transaction list \<Rightarrow> krecord list \<Rightarrow> krecord \<Rightarrow> bool" where
  "in_aborted aborted prev r \<longleftrightarrow>
     list_ex (\<lambda>a. ab_producer_id a = rec_producer_id r \<and> first_offset a \<le> rec_offset r \<and> \<not> closed_by prev a) aborted"

definition visible ::
  "bool \<Rightarrow> aborted_transaction list \<Rightarrow> int \<Rightarrow> int \<Rightarrow> krecord list \<Rightarrow> krecord \<Rightarrow> bool" where
  "visible rc aborted lso fetch_offset prev r \<longleftrightarrow>
     \<not> rec_control r \<and> fetch_offset \<le> rec_offset r \<and>
     (rc \<longrightarrow> rec_offset r < lso \<and> \<not> (rec_transactional r \<and> in_aborted aborted prev r))"

fun visible_after ::
  "(krecord list \<Rightarrow> krecord \<Rightarrow> bool) \<Rightarrow> krecord list \<Rightarrow> krecord list \<Rightarrow> krecord list" where
  "visible_after P prev [] = []"
| "visible_after P prev (r # rs) = (if P prev r then [r] else []) @ visible_after P (prev @ [r]) rs"

lemma visible_after_index:
  "visible_after P prev rs =
     map ((!) rs) (filter (\<lambda>i. P (prev @ take i rs) (rs ! i)) [0..<length rs])"
proof (induction rs arbitrary: prev)
  case Nil
  then show ?case by simp
next
  case (Cons r rs)
  have "[0..<length (r # rs)] = 0 # map Suc [0..<length rs]"
    by (metis length_Cons map_Suc_upt upt_conv_Cons zero_less_Suc)
  with Cons.IH [of "prev @ [r]"] show ?case
    by (simp only: visible_after.simps) (simp add: filter_map comp_def del: upt_Suc)
qed

text \<open>The producers that are open-and-aborted after a prefix, in the loop and in the specification.\<close>

definition open_after :: "aborted_transaction list \<Rightarrow> krecord list \<Rightarrow> int \<Rightarrow> int set" where
  "open_after aborted prev off =
     {ab_producer_id a | a. a \<in> set aborted \<and> first_offset a \<le> off \<and> \<not> closed_by prev a}"

lemma in_aborted_open: "in_aborted aborted prev r \<longleftrightarrow> rec_producer_id r \<in> open_after aborted prev (rec_offset r)"
  by (simp add: in_aborted_def open_after_def list_ex_iff) metis

lemma open_aborted_eq:
  assumes "sorted (map first_offset pend)"
  shows "open_aborted off pend opened =
     (filter (\<lambda>a. off < first_offset a) pend,
      opened \<union> ab_producer_id ` {a \<in> set pend. first_offset a \<le> off})"
  using assms
proof (induction pend arbitrary: opened)
  case Nil
  then show ?case by simp
next
  case (Cons a as)
  show ?case
  proof (cases "first_offset a \<le> off")
    case True
    with Cons show ?thesis by auto
  next
    case False
    with Cons.prems have "\<forall>b\<in>set (a # as). off < first_offset b" by auto
    with False show ?thesis by (auto simp: filter_id_conv)
  qed
qed

text \<open>What the loop knows after a prefix: which transactions it has yet to open, and which are open.\<close>

definition loop_inv ::
  "aborted_transaction list \<Rightarrow> krecord list \<Rightarrow> int \<Rightarrow> aborted_transaction list \<Rightarrow> int set \<Rightarrow> bool" where
  "loop_inv aborted prev lo pend opened \<longleftrightarrow>
     pend = filter (\<lambda>a. lo < first_offset a) aborted \<and> opened = open_after aborted prev lo \<and>
     list_all (\<lambda>m. rec_offset m \<le> lo) prev"

lemma loop_inv_open:
  assumes "loop_inv aborted prev lo pend opened" and "sorted (map first_offset aborted)" and "lo \<le> off"
  shows "open_aborted off pend opened =
     (filter (\<lambda>a. off < first_offset a) aborted, open_after aborted prev off)"
proof -
  have "sorted (map first_offset pend)"
    using assms(1,2) by (simp add: loop_inv_def sorted_filter)
  moreover have "open_after aborted prev off =
      open_after aborted prev lo \<union> ab_producer_id ` {a \<in> set pend. first_offset a \<le> off}"
  proof -
    have "\<not> closed_by prev a" if "lo < first_offset a" for a
      using that assms(1) by (force simp: closed_by_def list_ex_iff loop_inv_def list_all_iff)
    then show ?thesis
      using assms(1,3) by (fastforce simp: open_after_def loop_inv_def)
  qed
  ultimately show ?thesis
    using assms(1,3) by (auto simp: open_aborted_eq loop_inv_def intro!: filter_cong)
qed

lemma open_after_snoc:
  "open_after aborted (prev @ [r]) off =
     (if is_abort_marker r \<and> off = rec_offset r then open_after aborted prev off - {rec_producer_id r}
      else if is_abort_marker r then open_after aborted (prev @ [r]) off else open_after aborted prev off)"
  by (auto simp: open_after_def closed_by_def)

lemma filter_loop_spec:
  assumes "loop_inv aborted prev lo pend opened" and "sorted (map first_offset aborted)"
    and "sorted (lo # map rec_offset rs)"
  shows "f_records (filter_loop rc lso fo rs pend opened kept nxt) =
     kept @ visible_after (visible rc aborted lso fo) prev rs"
  using assms
proof (induction rs arbitrary: prev lo pend opened kept nxt)
  case Nil
  then show ?case by simp
next
  case (Cons r rs)
  show ?case
  proof (cases "rc \<and> lso \<le> rec_offset r")
    case True
    have "visible_after (visible rc aborted lso fo) p xs = []"
      if "\<forall>x\<in>set xs. lso \<le> rec_offset x" for p xs
      using that True by (induction xs arbitrary: p) (auto simp: visible_def)
    moreover have "\<forall>x\<in>set (r # rs). lso \<le> rec_offset x"
      using Cons.prems(3) True by auto
    ultimately have "visible_after (visible rc aborted lso fo) prev (r # rs) = []" by blast
    with True show ?thesis by (simp del: visible_after.simps)
  next
    case False
    let ?off = "rec_offset r"
    let ?pend = "filter (\<lambda>a. ?off < first_offset a) aborted"
    have op: "open_aborted ?off pend opened = (?pend, open_after aborted prev ?off)"
      by (rule loop_inv_open) (use Cons.prems in auto)
    have inv: "loop_inv aborted (prev @ [r]) ?off ?pend (open_after aborted (prev @ [r]) ?off)"
      using Cons.prems(1,3) by (auto simp: loop_inv_def list_all_iff)
    have srt: "sorted (?off # map rec_offset rs)"
      using Cons.prems(3) by simp
    note IH = Cons.IH [OF inv Cons.prems(2) srt]
    have vis: "visible rc aborted lso fo prev r \<longleftrightarrow> \<not> rec_control r \<and> fo \<le> ?off \<and>
        \<not> (rc \<and> rec_transactional r \<and> rec_producer_id r \<in> open_after aborted prev ?off)"
      using False by (auto simp: visible_def in_aborted_open)
    show ?thesis
      using False op IH vis
      by (auto simp: Let_def open_after_snoc is_abort_marker_def split: if_splits)
  qed
qed

lemma filter_loop_next:
  "f_next_offset (filter_loop rc lso fo rs pend opened kept nxt) =
     (let seen = takeWhile (\<lambda>r. \<not> (rc \<and> lso \<le> rec_offset r)) rs
      in if seen = [] then nxt else wrap64 (rec_offset (last seen) + 1))"
  by (induction rs arbitrary: pend opened kept nxt) (auto simp: Let_def split: prod.splits)

text \<open>What the broker's response holds below the last stable offset: the records the routine looks at.\<close>

definition seen_part :: "bool \<Rightarrow> int \<Rightarrow> krecord list \<Rightarrow> krecord list" where
  "seen_part rc lso recs = takeWhile (\<lambda>r. \<not> (rc \<and> lso \<le> rec_offset r)) recs"

lemma seen_part_False [simp]: "seen_part False lso recs = recs"
  by (simp add: seen_part_def takeWhile_eq_all_conv)

lemma sorted_last_ge: "sorted xs \<Longrightarrow> x \<in> set xs \<Longrightarrow> x \<le> last xs"
  by (induction xs) (auto split: if_splits)

lemma visible_set_cong: "set as = set bs \<Longrightarrow> visible rc as lso fo = visible rc bs lso fo"
  by (intro ext) (simp add: visible_def in_aborted_def list_ex_iff)

lemma visible_after_all: "(\<And>p r. r \<in> set rs \<Longrightarrow> P p r) \<Longrightarrow> visible_after P prev rs = rs"
  by (induction rs arbitrary: prev) auto

lemma filter_records_spec:
  assumes "sorted (map rec_offset recs)"
  shows "f_records (filter_records recs aborted lso isolation fo) =
     visible_after (visible (isolation = ReadCommitted) aborted lso fo) [] recs"
proof -
  let ?rc = "isolation = ReadCommitted"
  let ?fast = "aborted = [] \<and>
     \<not> list_ex (\<lambda>r. rec_control r \<or> rec_offset r < fo \<or> ?rc \<and> lso \<le> rec_offset r) recs"
  show ?thesis
  proof (cases ?fast)
    case True
    then have "visible_after (visible ?rc aborted lso fo) [] recs = recs"
      by (intro visible_after_all) (auto simp: visible_def in_aborted_def list_ex_iff)
    with True show ?thesis by (simp add: filter_records_def)
  next
    case False
    define ab where "ab = sort_key first_offset aborted"
    define lo where "lo = Min (insert 0 (first_offset ` set ab \<union> rec_offset ` set recs)) - 1"
    have lt: "lo < x" if "x \<in> first_offset ` set ab \<union> rec_offset ` set recs" for x
    proof -
      have "Min (insert 0 (first_offset ` set ab \<union> rec_offset ` set recs)) \<le> x"
        by (rule Min_le) (use that in auto)
      then show ?thesis by (simp add: lo_def)
    qed
    have "loop_inv ab [] lo ab {}"
      using lt by (force simp: loop_inv_def open_after_def intro: filter_True [symmetric])
    moreover have "sorted (map first_offset ab)" by (simp add: ab_def)
    moreover have "sorted (lo # map rec_offset recs)"
      using assms lt by (auto intro: less_imp_le)
    ultimately have "f_records (filter_loop ?rc lso fo recs ab {} [] fo) =
        [] @ visible_after (visible ?rc ab lso fo) [] recs"
      by (rule filter_loop_spec)
    moreover have "visible ?rc ab lso fo = visible ?rc aborted lso fo"
      by (rule visible_set_cong) (simp add: ab_def)
    ultimately show ?thesis
      using False by (auto simp: filter_records_def ab_def Let_def)
  qed
qed

lemma filter_records_next:
  "f_next_offset (filter_records recs aborted lso isolation fo) =
     (let seen = seen_part (isolation = ReadCommitted) lso recs
      in if seen = [] then fo else wrap64 (rec_offset (last seen) + 1))"
proof (cases "aborted = [] \<and> \<not> list_ex (\<lambda>r. rec_control r \<or> rec_offset r < fo \<or>
      (isolation = ReadCommitted) \<and> lso \<le> rec_offset r) recs")
  case True
  then have "seen_part (isolation = ReadCommitted) lso recs = recs"
    by (auto simp: seen_part_def takeWhile_eq_all_conv list_ex_iff)
  with True show ?thesis by (simp add: filter_records_def)
next
  case False
  then show ?thesis
    by (simp only: filter_records_def Let_def if_False simp_thms filter_loop_next seen_part_def)
qed

text \<open>
  C7: READ_COMMITTED, exactly.  For records in offset order, as the broker sends them, the
  routine delivers, in order, precisely the records that are not control records, are at or past
  the requested offset, and, under READ_COMMITTED, lie below the last stable offset and are not
  transactional records inside a listed aborted transaction of their producer; a transaction is
  left at the producer's abort marker, so what the same producer commits afterwards is delivered.
  The fast path that returns its input unmoved makes no difference.
\<close>

theorem filter_delivers_exactly_the_committed:
  assumes "sorted (map rec_offset recs)" and "rc = (isolation = ReadCommitted)"
  shows "f_records (filter_records recs aborted lso isolation fetch_offset) =
     map ((!) recs) (filter (\<lambda>i.
         \<not> rec_control (recs ! i) \<and> fetch_offset \<le> rec_offset (recs ! i) \<and>
         (rc \<longrightarrow> rec_offset (recs ! i) < lso \<and>
            \<not> (rec_transactional (recs ! i) \<and>
               list_ex (\<lambda>a. ab_producer_id a = rec_producer_id (recs ! i) \<and>
                   first_offset a \<le> rec_offset (recs ! i) \<and>
                   \<not> list_ex (\<lambda>m. rec_control m \<and> control_type m = Some CONTROL_ABORT \<and>
                       rec_producer_id m = ab_producer_id a \<and> first_offset a \<le> rec_offset m) (take i recs))
                 aborted)))
       [0..<length recs])"
  unfolding filter_records_spec [OF assms(1)] visible_after_index assms(2)
  by (simp add: visible_def in_aborted_def closed_by_def is_abort_marker_def conj_assoc)

text \<open>One producer: an aborted record, the abort marker, and a committed record after it.\<close>

definition sample_record :: "int \<Rightarrow> bool \<Rightarrow> bytes option \<Rightarrow> krecord" where
  "sample_record off ctl key = \<lparr>rec_offset = off, rec_producer_id = 9, rec_transactional = True,
     rec_control = ctl, rec_key = key, rec_value = None\<rparr>"

theorem filter_delivers_exactly_the_committed_witness:
  "f_records (filter_records
      [sample_record 0 False None, sample_record 1 True (Some [0, 0, 0, 0]), sample_record 2 False None]
      [\<lparr>ab_producer_id = 9, first_offset = 0\<rparr>] 3 ReadCommitted 0) = [sample_record 2 False None]"
  by (subst filter_delivers_exactly_the_committed [OF _ refl])
     (simp_all add: sample_record_def control_type_def CONTROL_ABORT_def i16_from_be_def upt_rec)

section \<open>Positions\<close>

text \<open>
  The contract a consumer's fetch loop relies on: a routine that, given the position and a
  response, says which offsets it delivered and where the next fetch starts.  The loop's
  guarantee follows once: over any number of polls the delivered offsets are strictly increasing.
\<close>

fun poll_all :: "(int \<Rightarrow> 'resp \<Rightarrow> int list \<times> int) \<Rightarrow> int \<Rightarrow> 'resp list \<Rightarrow> int list \<times> int" where
  "poll_all fetch pos [] = ([], pos)"
| "poll_all fetch pos (x # xs) =
     (case fetch pos x of (offs, pos') \<Rightarrow>
        (case poll_all fetch pos' xs of (offs', pos'') \<Rightarrow> (offs @ offs', pos'')))"

fun polls_ok :: "(int \<Rightarrow> 'resp \<Rightarrow> int list \<times> int) \<Rightarrow> (int \<Rightarrow> 'resp \<Rightarrow> bool) \<Rightarrow> int \<Rightarrow> 'resp list \<Rightarrow> bool" where
  "polls_ok fetch ok pos [] = True"
| "polls_ok fetch ok pos (x # xs) = (ok pos x \<and> polls_ok fetch ok (snd (fetch pos x)) xs)"

locale offset_fetch =
  fixes fetch :: "int \<Rightarrow> 'resp \<Rightarrow> int list \<times> int" and ok :: "int \<Rightarrow> 'resp \<Rightarrow> bool"
  assumes increasing: "ok pos x \<Longrightarrow> fetch pos x = (offs, pos') \<Longrightarrow> sorted_wrt (<) offs"
    and within: "ok pos x \<Longrightarrow> fetch pos x = (offs, pos') \<Longrightarrow> off \<in> set offs \<Longrightarrow> pos \<le> off \<and> off < pos'"
    and forward: "ok pos x \<Longrightarrow> fetch pos x = (offs, pos') \<Longrightarrow> pos \<le> pos'"
begin

lemma polls_increasing:
  assumes "polls_ok fetch ok pos xs" and "poll_all fetch pos xs = (offs, pos')"
  shows "sorted_wrt (<) offs \<and> (\<forall>off\<in>set offs. pos \<le> off \<and> off < pos') \<and> pos \<le> pos'"
  using assms
proof (induction xs arbitrary: pos offs pos')
  case Nil
  then show ?case by simp
next
  case (Cons x xs)
  obtain o1 p1 where f: "fetch pos x = (o1, p1)" by fastforce
  obtain o2 p2 where r: "poll_all fetch p1 xs = (o2, p2)" by fastforce
  have eq: "offs = o1 @ o2" "pos' = p2" using Cons.prems(2) f r by auto
  have ok: "ok pos x" and oks: "polls_ok fetch ok p1 xs" using Cons.prems(1) f by auto
  note tl = Cons.IH [OF oks r]
  show ?case
    using tl increasing [OF ok f] within [OF ok f] forward [OF ok f] eq
    by (auto simp: sorted_wrt_append) (meson order.strict_trans2 order.trans order.strict_trans1)+
qed

end

text \<open>One fetch response of a partition, and the routine as a fetch of offsets.\<close>

record fetch_response =
  resp_records :: "krecord list"
  resp_aborted :: "aborted_transaction list"
  resp_lso :: int

definition fetch_offsets :: "isolation_level \<Rightarrow> int \<Rightarrow> fetch_response \<Rightarrow> int list \<times> int" where
  "fetch_offsets isolation pos x =
     (let f = filter_records (resp_records x) (resp_aborted x) (resp_lso x) isolation pos
      in (map rec_offset (f_records f), f_next_offset f))"

text \<open>
  A response to a fetch at \<open>pos\<close>: offsets strictly increasing and below 2^63 - 1, and, unless
  there is nothing below the last stable offset, reaching \<open>pos - 1\<close> at least.
\<close>

definition covers :: "isolation_level \<Rightarrow> int \<Rightarrow> fetch_response \<Rightarrow> bool" where
  "covers isolation pos x \<longleftrightarrow>
     sorted_wrt (<) (map rec_offset (resp_records x)) \<and>
     list_all (\<lambda>r. 0 \<le> rec_offset r \<and> rec_offset r < 2 ^ 63 - 1) (resp_records x) \<and>
     (let seen = seen_part (isolation = ReadCommitted) (resp_lso x) (resp_records x)
      in seen = [] \<or> pos \<le> rec_offset (last seen) + 1)"

lemma visible_after_subseq: "sorted_wrt R (map f rs) \<Longrightarrow> sorted_wrt R (map f (visible_after P prev rs))"
proof (induction rs arbitrary: prev)
  case (Cons r rs)
  have "set (visible_after P p xs) \<subseteq> set xs" for p xs
    by (induction xs arbitrary: p) auto
  with Cons show ?case by fastforce
qed simp

lemma visible_after_sat:
  "r \<in> set (visible_after P prev rs) \<Longrightarrow> r \<in> set rs \<and> (\<exists>p. P p r)"
  by (induction rs arbitrary: prev) (auto split: if_splits)

lemma seen_part_last:
  assumes "sorted_wrt (<) (map rec_offset recs)" and "r \<in> set (seen_part rc lso recs)"
  shows "rec_offset r \<le> rec_offset (last (seen_part rc lso recs))"
proof -
  let ?s = "seen_part rc lso recs"
  have "sorted_wrt (<) (map rec_offset ?s)"
    using assms(1) by (auto simp: seen_part_def sorted_wrt_map intro: sorted_wrt_takeWhile)
  then have "sorted (map rec_offset ?s)"
    by (simp add: strict_sorted_iff)
  from sorted_last_ge [OF this, of "rec_offset r"] assms(2) show ?thesis
    by (cases "?s = []") (auto simp: last_map)
qed

lemma visible_seen:
  assumes "sorted (map rec_offset recs)" and "r \<in> set recs" and "visible rc ab lso fo p r"
  shows "r \<in> set (seen_part rc lso recs)"
proof (cases rc)
  case True
  from assms(2) obtain xs ys where recs: "recs = xs @ r # ys" by (meson split_list)
  have "\<forall>x\<in>set xs. rec_offset x \<le> rec_offset r" using assms(1) recs by (auto simp: sorted_append)
  moreover have "rec_offset r < lso" using assms(3) True by (simp add: visible_def)
  ultimately show ?thesis
    unfolding seen_part_def recs using True by (subst takeWhile_append2) auto
next
  case False
  with assms(2) show ?thesis by (simp add: seen_part_False)
qed

interpretation fo: offset_fetch "fetch_offsets isolation" "covers isolation"
proof
  fix pos x offs pos' off
  assume ok: "covers isolation pos x" and f: "fetch_offsets isolation pos x = (offs, pos')"
  let ?rc = "isolation = ReadCommitted"
  let ?recs = "resp_records x"
  let ?seen = "seen_part ?rc (resp_lso x) ?recs"
  have strict: "sorted_wrt (<) (map rec_offset ?recs)" using ok by (simp add: covers_def)
  then have srt: "sorted (map rec_offset ?recs)" by (simp add: strict_sorted_iff)
  have offs: "offs = map rec_offset (visible_after (visible ?rc (resp_aborted x) (resp_lso x) pos) [] ?recs)"
    using f by (auto simp: fetch_offsets_def Let_def filter_records_spec [OF srt])
  have sub: "set ?seen \<subseteq> set ?recs" by (auto simp: seen_part_def dest: set_takeWhileD)
  have nxt: "pos' = (if ?seen = [] then pos else rec_offset (last ?seen) + 1)"
  proof -
    have "wrap64 (rec_offset (last ?seen) + 1) = rec_offset (last ?seen) + 1" if "?seen \<noteq> []"
    proof (rule wrap64_id)
      have "last ?seen \<in> set ?recs" using that sub last_in_set by blast
      then show "in_i64 (rec_offset (last ?seen) + 1)"
        using ok by (auto simp: covers_def list_all_iff in_i64_def)
    qed
    then show ?thesis using f by (auto simp: fetch_offsets_def Let_def filter_records_next)
  qed
  show "sorted_wrt (<) offs" unfolding offs by (rule visible_after_subseq [OF strict])
  show "pos \<le> pos'" using ok nxt by (auto simp: covers_def Let_def)
  assume "off \<in> set offs"
  then obtain r p where r: "r \<in> set ?recs" "off = rec_offset r"
    and v: "visible ?rc (resp_aborted x) (resp_lso x) pos p r"
    unfolding offs by (auto dest!: visible_after_sat)
  have "r \<in> set ?seen" by (rule visible_seen [OF srt r(1) v])
  with seen_part_last [OF strict this] v r(2) nxt show "pos \<le> off \<and> off < pos'"
    by (auto simp: visible_def)
qed

text \<open>
  No record twice.  Over any number of fetches of a partition, each asked at the position
  the previous one returned, the offsets delivered are strictly increasing, at or past the first
  position and below the last, and the position never moves back, provided each response reaches
  the position it was asked for.
\<close>

theorem filter_never_redelivers:
  assumes "polls_ok (fetch_offsets isolation) (covers isolation) pos responses"
    and "poll_all (fetch_offsets isolation) pos responses = (offs, pos')"
  shows "sorted_wrt (<) offs \<and> (\<forall>off\<in>set offs. pos \<le> off \<and> off < pos') \<and> pos \<le> pos'"
  by (rule fo.polls_increasing [OF assms])

definition sample_response :: "int list \<Rightarrow> int \<Rightarrow> fetch_response" where
  "sample_response offs lso = \<lparr>resp_records = map (\<lambda>o'. sample_record o' False None) offs,
     resp_aborted = [], resp_lso = lso\<rparr>"

theorem filter_never_redelivers_witness:
  "fst (poll_all (fetch_offsets ReadCommitted) 1 [sample_response [0, 1, 2] 2, sample_response [0, 1, 2, 3] 4]) = [1, 2, 3] \<and>
   sorted_wrt (<) (fst (poll_all (fetch_offsets ReadCommitted) 1
      [sample_response [0, 1, 2] 2, sample_response [0, 1, 2, 3] 4]))"
proof -
  let ?xs = "[sample_response [0, 1, 2] 2, sample_response [0, 1, 2, 3] 4]"
  have ok: "polls_ok (fetch_offsets ReadCommitted) (covers ReadCommitted) 1 ?xs"
    and run: "poll_all (fetch_offsets ReadCommitted) 1 ?xs = ([1, 2, 3], 4)"
    by (simp_all add: fetch_offsets_def covers_def sample_response_def sample_record_def filter_records_def
        seen_part_def wrap64_def)
  from filter_never_redelivers [OF ok run] run show ?thesis by simp
qed

text \<open>
  Where the position stalls.  When every record of a response lies below the position it
  was asked for, as when the rest of the batch was compacted away, nothing is delivered and the
  next position is set back to just past the last record; asked again there, the same response
  gives the same position, so the partition makes no progress.
\<close>

theorem compacted_tail_stalls:
  assumes "recs \<noteq> []" and "sorted_wrt (<) (map rec_offset recs)"
    and "list_all (\<lambda>r. 0 \<le> rec_offset r \<and> rec_offset r < 2 ^ 63 - 1) recs"
    and "rec_offset (last recs) < fetch_offset" and "fetch_offset \<le> lso"
    and "pos = rec_offset (last recs) + 1"
  shows "f_records (filter_records recs aborted lso isolation fetch_offset) = [] \<and>
     f_next_offset (filter_records recs aborted lso isolation fetch_offset) = pos \<and> pos \<le> fetch_offset \<and>
     f_records (filter_records recs aborted lso isolation pos) = [] \<and>
     f_next_offset (filter_records recs aborted lso isolation pos) = pos"
proof -
  have srt: "sorted (map rec_offset recs)" using assms(2) by (simp add: strict_sorted_iff)
  have below: "rec_offset r < pos" if "r \<in> set recs" for r
  proof -
    have "rec_offset r \<le> rec_offset (last recs)"
      using seen_part_last [OF assms(2), of r False lso] that by simp
    with assms(6) show ?thesis by simp
  qed
  have "seen_part rc lso recs = recs" for rc
    using below assms(4,5,6) by (force simp: seen_part_def takeWhile_eq_all_conv)
  moreover have "in_i64 (rec_offset (last recs) + 1)"
    using assms(1,3) by (auto simp: list_all_iff in_i64_def)
  ultimately have nxt: "f_next_offset (filter_records recs aborted lso isolation p) = pos" for p
    using assms(1,6) by (simp add: filter_records_next wrap64_id)
  have none: "f_records (filter_records recs aborted lso isolation p) = []" if "pos \<le> p" for p
  proof -
    have "r \<notin> set (visible_after (visible rc aborted lso p) [] recs)" for rc r
      using below [of r] that by (auto simp: visible_def dest!: visible_after_sat)
    then show ?thesis
      unfolding filter_records_spec [OF srt] by (metis list.set_intros(1) neq_Nil_conv)
  qed
  from nxt none [of pos] none [of fetch_offset] assms(4,6) show ?thesis by simp
qed

theorem compacted_tail_stalls_witness:
  "f_next_offset (filter_records [sample_record 5 False None, sample_record 7 False None] [] 20 ReadCommitted 10) = 8 \<and>
   f_next_offset (filter_records [sample_record 5 False None, sample_record 7 False None] [] 20 ReadCommitted 8) = 8"
  using compacted_tail_stalls [of "[sample_record 5 False None, sample_record 7 False None]" 10 20 8 "[]" ReadCommitted]
  by (simp add: sample_record_def)

end
