(* ===== verification/Records.thy ===== *)
theory Records
  imports Errors Consumer_Filter
begin

text \<open>
  The record-batch reader and the batch-wise READ_COMMITTED filter,
  \<^verbatim>\<open>barnabas-core/src/records.rs\<close>.  The checksum and the four decompressors are crates and are
  the parameter \<open>codecs\<close>.  \<^verbatim>\<open>usize\<close> positions are \<open>nat\<close>: a buffer is shorter than 2^63
  and every position is checked against it before the next addition, so no addition wraps; the
  casts to \<^verbatim>\<open>u32\<close> are written out as \<open>mod 2 ^ 32\<close>.  \<^verbatim>\<open>Bytes::slice\<close> panics out of bounds,
  which is the value \<open>Inl Panicked\<close>.

  Shown: the integer encoding and whole batches are read back exactly; keys and values of every
  decoded record are in bounds, so reading them cannot panic, while a malformed header block can
  make \<open>headers\<close> panic; the batch-wise filter delivers exactly the records the record-wise
  specification allows.
\<close>

unbundle bit_operations_syntax

section \<open>Layout\<close>

definition BASE_OFFSET :: nat where "BASE_OFFSET = 0"
definition LENGTH_AT :: nat where "LENGTH_AT = 8"
definition MAGIC :: nat where "MAGIC = 16"
definition CRC :: nat where "CRC = 17"
definition ATTRIBUTES :: nat where "ATTRIBUTES = 21"
definition BASE_TIMESTAMP :: nat where "BASE_TIMESTAMP = 27"
definition PRODUCER_ID :: nat where "PRODUCER_ID = 43"
definition RECORD_COUNT :: nat where "RECORD_COUNT = 57"
definition HEADER_LEN :: nat where "HEADER_LEN = 61"
definition CRC_FROM :: nat where "CRC_FROM = 21"

lemmas field_defs = BASE_OFFSET_def LENGTH_AT_def MAGIC_def CRC_def ATTRIBUTES_def BASE_TIMESTAMP_def
  PRODUCER_ID_def RECORD_COUNT_def HEADER_LEN_def CRC_FROM_def

abbreviation u32_max :: nat where "u32_max \<equiv> 4294967295"

record lean_record =
  lr_offset :: int
  lr_timestamp :: int
  lr_key :: "nat \<times> nat"
  lr_value :: "nat \<times> nat"
  lr_headers :: "nat \<times> nat"
  lr_header_count :: nat

record lean_batch =
  lb_buffer :: bytes
  lb_base_offset :: int
  lb_producer_id :: int
  lb_transactional :: bool
  lb_control :: bool
  lb_records :: "lean_record list"

record codecs =
  crc32c :: "bytes \<Rightarrow> u32"
  gzip :: "bytes \<Rightarrow> string + bytes"
  snap_raw :: "bytes \<Rightarrow> string + bytes"
  lz4 :: "bytes \<Rightarrow> string + bytes"
  zstd :: "bytes \<Rightarrow> string + bytes"

section \<open>Bytes\<close>

text \<open>\<^verbatim>\<open>[u8]::get(range)\<close> and \<^verbatim>\<open>Bytes::slice\<close>.\<close>

definition get_range :: "bytes \<Rightarrow> nat \<Rightarrow> nat \<Rightarrow> bytes option" where
  "get_range b at stop = (if at \<le> stop \<and> stop \<le> length b then Some (take (stop - at) (drop at b)) else None)"

definition bytes_slice :: "bytes \<Rightarrow> nat \<Rightarrow> nat \<Rightarrow> core_error failure + bytes" where
  "bytes_slice b at stop =
     (case get_range b at stop of None \<Rightarrow> Inl Panicked | Some x \<Rightarrow> Inr x)"

definition need :: "string \<Rightarrow> 'a option \<Rightarrow> core_error + 'a" where
  "need msg x = (case x of None \<Rightarrow> Inl (Codec msg) | Some v \<Rightarrow> Inr v)"

definition byte_at :: "bytes \<Rightarrow> nat \<Rightarrow> u8 option" where
  "byte_at b at = (if at < length b then Some (b ! at) else None)"

function varint_loop :: "bytes \<Rightarrow> nat \<Rightarrow> u64 \<Rightarrow> nat \<Rightarrow> (u64 \<times> nat) option" where
  "varint_loop buf pos raw shift =
     (if 63 < shift then None
      else case byte_at buf pos of
             None \<Rightarrow> None
           | Some byte \<Rightarrow>
               (let raw' = raw OR push_bit shift (ucast (byte AND 0x7f))
                in if byte AND 0x80 = 0 then Some (raw', pos + 1)
                   else varint_loop buf (pos + 1) raw' (shift + 7)))"
  by pat_completeness auto
termination by (relation "measure (\<lambda>(buf, pos, raw, shift). 64 - shift)") auto


declare varint_loop.simps [simp del]

text \<open>The zigzag step: the raw value's upper 63 bits, complemented when its lowest bit is set.\<close>

definition unzigzag :: "u64 \<Rightarrow> int" where
  "unzigzag raw = uint (drop_bit 1 raw) XOR (- uint (raw AND 1))"

definition varint :: "bytes \<Rightarrow> nat \<Rightarrow> (int \<times> nat) option" where
  "varint buf pos =
     (case varint_loop buf pos 0 0 of None \<Rightarrow> None | Some (raw, pos') \<Rightarrow> Some (unzigzag raw, pos'))"

definition i16_at :: "bytes \<Rightarrow> nat \<Rightarrow> int option" where
  "i16_at buf at = map_option i16_from_be (get_range buf at (at + 2))"

definition i32_at :: "bytes \<Rightarrow> nat \<Rightarrow> int option" where
  "i32_at buf at = map_option i32_from_be (get_range buf at (at + 4))"

definition i64_at :: "bytes \<Rightarrow> nat \<Rightarrow> int option" where
  "i64_at buf at = map_option i64_from_be (get_range buf at (at + 8))"

section \<open>Reading a batch\<close>

text \<open>\<^verbatim>\<open>LeanBatch::slice\<close>, \<^verbatim>\<open>key\<close>, \<^verbatim>\<open>value\<close>, \<^verbatim>\<open>control_type\<close>, \<^verbatim>\<open>headers\<close>.\<close>

definition lean_slice :: "lean_batch \<Rightarrow> nat \<times> nat \<Rightarrow> core_error failure + bytes option" where
  "lean_slice b rg =
     (case rg of (at, len) \<Rightarrow>
        if at = u32_max then Inr None
        else bind_sum (bytes_slice (lb_buffer b) at (at + len)) (\<lambda>x. Inr (Some x)))"

definition lean_key :: "lean_batch \<Rightarrow> lean_record \<Rightarrow> core_error failure + bytes option" where
  "lean_key b r = lean_slice b (lr_key r)"

definition lean_value :: "lean_batch \<Rightarrow> lean_record \<Rightarrow> core_error failure + bytes option" where
  "lean_value b r = lean_slice b (lr_value r)"

definition lean_control_type :: "lean_batch \<Rightarrow> lean_record \<Rightarrow> core_error failure + int option" where
  "lean_control_type b r =
     bind_sum (lean_slice b (lr_key r)) (\<lambda>k.
       case k of
         None \<Rightarrow> Inr None
       | Some key \<Rightarrow> Inr (if length key < 4 then None else Some (i16_from_be [key ! 2, key ! 3])))"

definition fail_with :: "'e + 'a \<Rightarrow> 'e failure + 'a" where
  "fail_with r = (case r of Inl e \<Rightarrow> Inl (Failed e) | Inr x \<Rightarrow> Inr x)"

fun headers_loop ::
  "bytes \<Rightarrow> bytes \<Rightarrow> nat \<Rightarrow> nat \<Rightarrow> nat \<Rightarrow> core_error failure + (bytes \<times> bytes option) list" where
  "headers_loop buffer block at 0 pos = Inr []"
| "headers_loop buffer block at (Suc n) pos =
     bind_sum (fail_with (need ''header key length'' (varint block pos))) (\<lambda>(key_len, pos1).
       let key_at = at + pos1;
           klen = nat (max key_len 0);
           pos2 = pos1 + klen
       in bind_sum (fail_with (need ''header value length'' (varint block pos2))) (\<lambda>(value_len, pos3).
            bind_sum
              (if 0 \<le> value_len
               then bind_sum (bytes_slice buffer (at + pos3) (at + pos3 + nat value_len)) (\<lambda>v. Inr (Some v))
               else Inr None) (\<lambda>value.
            bind_sum (bytes_slice buffer key_at (key_at + klen)) (\<lambda>key.
            bind_sum (headers_loop buffer block at n
                (if 0 \<le> value_len then pos3 + nat value_len else pos3)) (\<lambda>tail.
              Inr ((key, value) # tail))))))"

definition lean_headers ::
  "lean_batch \<Rightarrow> lean_record \<Rightarrow> core_error failure + (bytes \<times> bytes option) list" where
  "lean_headers b r =
     (if lr_header_count r = 0 then Inr []
      else let at = fst (lr_headers r); stop = at + snd (lr_headers r)
           in bind_sum (fail_with (need ''header block'' (get_range (lb_buffer b) at stop))) (\<lambda>block.
                headers_loop (lb_buffer b) block at (lr_header_count r) 0))"

section \<open>Decompression\<close>

definition SNAPPY_MAGIC :: bytes where
  "SNAPPY_MAGIC = [0x82, 0x53, 0x4e, 0x41, 0x50, 0x50, 0x59, 0, 0, 0, 0, 1, 0, 0, 0, 1]"

definition snap_decode :: "codecs \<Rightarrow> bytes \<Rightarrow> core_error + bytes" where
  "snap_decode cs b = (case snap_raw cs b of Inl e \<Rightarrow> Inl (Codec (''snappy: '' @ e)) | Inr x \<Rightarrow> Inr x)"

function snappy_blocks :: "codecs \<Rightarrow> bytes \<Rightarrow> nat \<Rightarrow> bytes \<Rightarrow> core_error + bytes" where
  "snappy_blocks cs compressed at out =
     (if at < length compressed then
        (case get_range compressed at (at + 4) of
           None \<Rightarrow> Inl (Codec ''snappy block length'')
         | Some lenb \<Rightarrow>
             (let len = nat (be_uint lenb); at' = at + 4
              in case get_range compressed at' (at' + len) of
                   None \<Rightarrow> Inl (Codec ''snappy block overruns'')
                 | Some block \<Rightarrow>
                     (case snap_decode cs block of
                        Inl e \<Rightarrow> Inl e
                      | Inr x \<Rightarrow> snappy_blocks cs compressed (at' + len) (out @ x))))
      else Inr out)"
  by pat_completeness auto
termination by (relation "measure (\<lambda>(cs, compressed, at, out). length compressed - at)") auto

declare snappy_blocks.simps [simp del]

definition snappy :: "codecs \<Rightarrow> bytes \<Rightarrow> core_error + bytes" where
  "snappy cs compressed =
     (if length compressed < length SNAPPY_MAGIC \<or> take (length SNAPPY_MAGIC) compressed \<noteq> SNAPPY_MAGIC
      then snap_decode cs compressed
      else snappy_blocks cs compressed (length SNAPPY_MAGIC) [])"

definition io_decode :: "string \<Rightarrow> string + bytes \<Rightarrow> core_error + bytes" where
  "io_decode what r = (case r of Inl e \<Rightarrow> Inl (Codec (what @ '': '' @ e)) | Inr x \<Rightarrow> Inr x)"

definition decompress :: "codecs \<Rightarrow> int \<Rightarrow> bytes \<Rightarrow> core_error + bytes" where
  "decompress cs codec compressed =
     (if codec = 1 then io_decode ''gzip'' (gzip cs compressed)
      else if codec = 2 then snappy cs compressed
      else if codec = 3 then io_decode ''lz4'' (lz4 cs compressed)
      else if codec = 4 then io_decode ''zstd'' (zstd cs compressed)
      else Inl (Codec (''unknown compression codec '' @ show_int codec)))"

section \<open>Decoding\<close>

text \<open>A length-prefixed field: its range, and the position after it.\<close>

definition field_range :: "int \<Rightarrow> nat \<Rightarrow> (nat \<times> nat) \<times> nat" where
  "field_range len pos =
     (if 0 \<le> len then ((pos mod 2 ^ 32, nat len mod 2 ^ 32), pos + nat len) else ((u32_max, 0), pos))"

text \<open>One turn of the record loop: the record, and \<^verbatim>\<open>record_end\<close>.\<close>

definition decode_record :: "bytes \<Rightarrow> int \<Rightarrow> int \<Rightarrow> nat \<Rightarrow> core_error + lean_record \<times> nat" where
  "decode_record body base_offset base_timestamp pos0 =
     bind_sum (need ''record length'' (varint body pos0)) (\<lambda>(len, pos1).
       let record_end = pos1 + nat (max len 0)
       in if length body < record_end then Inl (Codec ''record overruns its batch'')
          else
            bind_sum (need ''timestamp delta'' (varint body (pos1 + 1))) (\<lambda>(timestamp_delta, pos2).
            bind_sum (need ''offset delta'' (varint body pos2)) (\<lambda>(offset_delta, pos3).
            bind_sum (need ''key length'' (varint body pos3)) (\<lambda>(key_len, pos4).
            case field_range key_len pos4 of (key, pos5) \<Rightarrow>
            bind_sum (need ''value length'' (varint body pos5)) (\<lambda>(value_len, pos6).
            case field_range value_len pos6 of (val, pos7) \<Rightarrow>
            bind_sum (need ''header count'' (varint body pos7)) (\<lambda>(hc, pos8).
            Inr (\<lparr>lr_offset = wrap64 (base_offset + offset_delta),
                  lr_timestamp = wrap64 (base_timestamp + timestamp_delta),
                  lr_key = key, lr_value = val,
                  lr_headers = (pos8 mod 2 ^ 32, (record_end - pos8) mod 2 ^ 32),
                  lr_header_count = nat (max hc 0) mod 2 ^ 32\<rparr>, record_end)))))))"

fun decode_records :: "nat \<Rightarrow> bytes \<Rightarrow> int \<Rightarrow> int \<Rightarrow> nat \<Rightarrow> core_error + lean_record list" where
  "decode_records 0 body base_offset base_timestamp pos = Inr []"
| "decode_records (Suc n) body base_offset base_timestamp pos =
     bind_sum (decode_record body base_offset base_timestamp pos) (\<lambda>(r, pos').
       bind_sum (decode_records n body base_offset base_timestamp pos') (\<lambda>rs. Inr (r # rs)))"

text \<open>One turn of the batch loop, on the bytes of a whole magic-2 batch.\<close>

definition decode_batch :: "codecs \<Rightarrow> bytes \<Rightarrow> core_error + lean_batch" where
  "decode_batch cs batch =
     bind_sum (need ''batch attributes'' (i16_at batch ATTRIBUTES)) (\<lambda>attributes.
     bind_sum (need ''batch crc'' (i32_at batch CRC)) (\<lambda>stored.
     let expected = (word_of_int stored :: u32); actual = crc32c cs (drop CRC_FROM batch)
     in if expected \<noteq> actual
        then Inl (Codec (''record batch crc: expected '' @ show_hex (unat expected) @
                         '', got '' @ show_hex (unat actual)))
        else
          bind_sum (need ''base offset'' (i64_at batch BASE_OFFSET)) (\<lambda>base_offset.
          bind_sum (need ''base timestamp'' (i64_at batch BASE_TIMESTAMP)) (\<lambda>base_timestamp.
          bind_sum (need ''producer id'' (i64_at batch PRODUCER_ID)) (\<lambda>producer_id.
          bind_sum (need ''record count'' (i32_at batch RECORD_COUNT)) (\<lambda>count.
          bind_sum (if attributes AND 0x07 = 0 then Inr (drop HEADER_LEN batch)
                    else decompress cs (attributes AND 0x07) (drop HEADER_LEN batch)) (\<lambda>body.
          bind_sum (decode_records (nat (max count 0)) body base_offset base_timestamp 0) (\<lambda>recs.
          Inr \<lparr>lb_buffer = body, lb_base_offset = base_offset, lb_producer_id = producer_id,
               lb_transactional = (attributes AND 0x10 \<noteq> 0), lb_control = (attributes AND 0x20 \<noteq> 0),
               lb_records = recs\<rparr>))))))))"

function decode_lean_from :: "codecs \<Rightarrow> bytes \<Rightarrow> nat \<Rightarrow> core_error + lean_batch list option" where
  "decode_lean_from cs buffer at =
     (if at < length buffer then
        (case i32_at buffer (at + LENGTH_AT) of
           None \<Rightarrow> Inr (Some [])
         | Some len \<Rightarrow>
             (let stop = at + LENGTH_AT + 4 + nat (max len 0)
              in if len \<le> 0 \<or> length buffer < stop then Inr (Some [])
                 else
                   (let batch = take (stop - at) (drop at buffer)
                    in if length batch < HEADER_LEN then Inr (Some [])
                       else if batch ! MAGIC \<noteq> 2 then Inr None
                       else
                         (case decode_batch cs batch of
                            Inl e \<Rightarrow> Inl e
                          | Inr b \<Rightarrow>
                              (case decode_lean_from cs buffer stop of
                                 Inl e \<Rightarrow> Inl e
                               | Inr None \<Rightarrow> Inr None
                               | Inr (Some bs) \<Rightarrow> Inr (Some (b # bs)))))))
      else Inr (Some []))"
  by pat_completeness auto
termination by (relation "measure (\<lambda>(cs, buffer, at). length buffer - at)") auto

declare decode_lean_from.simps [simp del]

definition decode_lean :: "codecs \<Rightarrow> bytes \<Rightarrow> core_error + lean_batch list option" where
  "decode_lean cs buffer = decode_lean_from cs buffer 0"

section \<open>The integer encoding\<close>

text \<open>Zigzag LEB128 as Kafka's format defines it, to read back against.\<close>

fun leb128 :: "nat \<Rightarrow> bytes" where
  "leb128 n = (if n < 128 then [of_nat n] else of_nat (128 + n mod 128) # leb128 (n div 128))"

declare leb128.simps [simp del]

definition zigzag :: "int \<Rightarrow> nat" where
  "zigzag n = nat (if 0 \<le> n then 2 * n else - 2 * n - 1)"

lemma low7:
  assumes "m < 128"
  shows "(of_nat (128 + m) :: u8) AND 0x7f = of_nat m" and "(of_nat (128 + m) :: u8) AND 0x80 \<noteq> 0"
    and "(of_nat m :: u8) AND 0x7f = of_nat m" and "(of_nat m :: u8) AND 0x80 = 0"
proof -
  have "list_all (\<lambda>m. (of_nat (128 + m) :: u8) AND 0x7f = of_nat m \<and> (of_nat (128 + m) :: u8) AND 0x80 \<noteq> 0
     \<and> (of_nat m :: u8) AND 0x7f = of_nat m \<and> (of_nat m :: u8) AND 0x80 = 0) [0..<128]"
    by code_simp
  with assms show "(of_nat (128 + m) :: u8) AND 0x7f = of_nat m" and "(of_nat (128 + m) :: u8) AND 0x80 \<noteq> 0"
    and "(of_nat m :: u8) AND 0x7f = of_nat m" and "(of_nat m :: u8) AND 0x80 = 0"
    by (simp_all add: list_all_iff)
qed

lemma or_push_bit:
  assumes "r < 2 ^ shift" and "shift \<le> 63" and "m < 128"
  shows "(of_nat r :: u64) OR push_bit shift (ucast (of_nat m :: u8)) = of_nat (r + m * 2 ^ shift)"
proof -
  have r: "take_bit shift (of_nat r :: u64) = of_nat r"
    using assms(1) by (simp add: take_bit_of_nat take_bit_nat_eq_self)
  have "(of_nat r :: u64) AND push_bit shift w = 0" for w
    by (subst r [symmetric]) (auto simp: bit_eq_iff bit_simps)
  then have "(of_nat r :: u64) OR push_bit shift w = of_nat r + push_bit shift w" for w
    by (simp add: disjunctive_add_eq_or)
  moreover have "(ucast (of_nat m :: u8) :: u64) = of_nat m"
    using assms(3) by (simp add: ucast_eq uint_nat unat_of_nat take_bit_eq_mod)
  ultimately show ?thesis by (simp only:) (simp add: push_bit_eq_mult)
qed

lemma varint_loop_leb128:
  assumes "r < 2 ^ shift" and "shift \<le> 63" and "n * 2 ^ shift < 2 ^ 64"
  shows "varint_loop (pre @ leb128 n @ post) (length pre) (of_nat r) shift =
     Some (of_nat (r + n * 2 ^ shift), length pre + length (leb128 n))"
  using assms
proof (induction n arbitrary: pre r shift rule: leb128.induct)
  case (1 n)
  show ?case
  proof (cases "n < 128")
    case True
    with "1.prems" show ?thesis
      by (simp add: varint_loop.simps [of _ "length pre"] leb128.simps [of n] byte_at_def low7 or_push_bit)
  next
    case False
    have dm: "r + n mod 128 * 2 ^ shift + n div 128 * 2 ^ (shift + 7) = r + n * 2 ^ shift"
    proof -
      have "n mod 128 * 2 ^ shift + n div 128 * 2 ^ (shift + 7) = (n mod 128 + n div 128 * 128) * 2 ^ shift"
        by (simp only: distrib_right power_add) (simp add: mult.assoc mult.commute)
      also have "n mod 128 + n div 128 * 128 = n" by (simp only: mod_div_mult_eq)
      finally show ?thesis by simp
    qed
    have sh: "shift + 7 \<le> 63"
    proof (rule ccontr)
      assume "\<not> shift + 7 \<le> 63"
      then have "(2::nat) ^ 64 \<le> 2 ^ (shift + 7)" by (intro power_increasing) auto
      also have "\<dots> = 128 * 2 ^ shift" by (simp add: power_add)
      also have "\<dots> \<le> n * 2 ^ shift" using False by (intro mult_right_mono) auto
      finally have "2 ^ 64 \<le> n * 2 ^ shift" .
      with "1.prems"(3) show False by linarith
    qed
    have "r + n mod 128 * 2 ^ shift < 2 ^ shift + 127 * 2 ^ shift"
      using "1.prems"(1) by (intro add_less_le_mono mult_right_mono) auto
    then have r: "r + n mod 128 * 2 ^ shift < 2 ^ (shift + 7)" by (simp add: power_add)
    have "varint_loop ((pre @ [of_nat (128 + n mod 128)]) @ leb128 (n div 128) @ post)
        (length (pre @ [of_nat (128 + n mod 128)])) (of_nat (r + n mod 128 * 2 ^ shift)) (shift + 7) =
        Some (of_nat (r + n mod 128 * 2 ^ shift + n div 128 * 2 ^ (shift + 7)),
          length (pre @ [of_nat (128 + n mod 128)]) + length (leb128 (n div 128)))"
    proof (rule "1.IH" [OF False r sh])
      have "n div 128 * 2 ^ (shift + 7) \<le> n * 2 ^ shift" using dm by linarith
      with "1.prems"(3) show "n div 128 * 2 ^ (shift + 7) < 2 ^ 64" by linarith
    qed
    then have "varint_loop ((pre @ [of_nat (128 + n mod 128)]) @ leb128 (n div 128) @ post)
        (length (pre @ [of_nat (128 + n mod 128)])) (of_nat (r + n mod 128 * 2 ^ shift)) (shift + 7) =
        Some (of_nat (r + n * 2 ^ shift), length (pre @ [of_nat (128 + n mod 128)]) + length (leb128 (n div 128)))"
      unfolding dm .
    with False "1.prems" show ?thesis
      by (simp add: varint_loop.simps [of _ "length pre"] leb128.simps [of n] byte_at_def low7 or_push_bit
          del: of_nat_add of_nat_mult)
  qed
qed

lemma unzigzag_zigzag: "in_i64 n \<Longrightarrow> unzigzag (of_nat (zigzag n)) = n"
proof -
  assume n: "in_i64 n"
  have z: "zigzag n < 2 ^ 64" using n by (auto simp: zigzag_def in_i64_def)
  then have u: "uint (of_nat (zigzag n) :: u64) = int (zigzag n)"
    by (simp add: uint_nat unat_of_nat take_bit_eq_mod)
  have "unzigzag (of_nat (zigzag n)) = int (zigzag n) div 2 XOR (- (int (zigzag n) mod 2))"
    using u by (simp add: unzigzag_def drop_bit_eq_div uint_div uint_mod and_one_eq)
  also have "\<dots> = n"
  proof (cases "0 \<le> n")
    case True
    then show ?thesis by (simp add: zigzag_def)
  next
    case False
    then have "int (zigzag n) = 2 * (- n - 1) + 1" by (simp add: zigzag_def)
    then have "int (zigzag n) div 2 = - n - 1" "int (zigzag n) mod 2 = 1"
      by presburger+
    then show ?thesis by (simp add: not_int_def)
  qed
  finally show ?thesis .
qed

definition encode_varint :: "int \<Rightarrow> bytes" where
  "encode_varint n = leb128 (zigzag n)"

lemma varint_encode:
  assumes "in_i64 n"
  shows "varint (pre @ encode_varint n @ post) (length pre) = Some (n, length pre + length (encode_varint n))"
proof -
  have "zigzag n < 2 ^ 64" using assms by (auto simp: zigzag_def in_i64_def)
  then have "varint_loop (pre @ leb128 (zigzag n) @ post) (length pre) (of_nat 0) 0 =
      Some (of_nat (0 + zigzag n * 2 ^ 0), length pre + length (leb128 (zigzag n)))"
    by (intro varint_loop_leb128) auto
  then show ?thesis using unzigzag_zigzag [OF assms] by (simp add: varint_def encode_varint_def)
qed

lemma varint_loop_bounds:
  "varint_loop buf pos raw shift = Some (raw', pos') \<Longrightarrow> pos < pos' \<and> pos' \<le> length buf"
proof (induction buf pos raw shift rule: varint_loop.induct)
  case (1 buf pos raw shift)
  from "1.prems" show ?case
    by (subst (asm) varint_loop.simps)
       (auto simp: byte_at_def Let_def split: if_splits dest!: "1.IH")
qed

lemma varint_bounds: "varint buf pos = Some (n, pos') \<Longrightarrow> pos < pos' \<and> pos' \<le> length buf"
  by (auto simp: varint_def split: option.splits dest: varint_loop_bounds)

section \<open>Bounds\<close>

definition range_ok :: "bytes \<Rightarrow> nat \<times> nat \<Rightarrow> bool" where
  "range_ok buf rg \<longleftrightarrow> fst rg = u32_max \<or> fst rg + snd rg \<le> length buf"

definition lean_ok :: "lean_batch \<Rightarrow> lean_record \<Rightarrow> bool" where
  "lean_ok b r \<longleftrightarrow> range_ok (lb_buffer b) (lr_key r) \<and> range_ok (lb_buffer b) (lr_value r) \<and>
     fst (lr_headers r) + snd (lr_headers r) \<le> length (lb_buffer b)"

lemma need_Inr [simp]: "need msg x = Inr v \<longleftrightarrow> x = Some v"
  by (auto simp: need_def split: option.splits)

lemma case_prod_Inr_iff: "(case p of (a, b) \<Rightarrow> f a b) = Inr y \<longleftrightarrow> (\<exists>a b. p = (a, b) \<and> f a b = Inr y)"
  by (cases p) simp

lemma range_ok_slice:
  "range_ok (lb_buffer b) rg \<Longrightarrow> \<exists>x. lean_slice b rg = Inr x"
  by (auto simp: range_ok_def lean_slice_def bytes_slice_def get_range_def split: prod.splits)

lemma mod32_le: "n mod 4294967296 \<le> (n::nat)"
  by simp

lemma field_range_ok:
  assumes "field_range len pos = (rg, pos')" and "varint buf pos' = Some v"
  shows "range_ok buf rg"
proof -
  obtain n p where "v = (n, p)" by fastforce
  with assms(2) varint_bounds have "pos' < length buf" by fastforce
  with assms(1) show ?thesis
    using mod32_le [of pos] mod32_le [of "nat len"]
    by (auto simp: field_range_def range_ok_def split: if_splits simp del: mod_less_eq_dividend intro: order.trans [OF add_mono])
qed

lemma decode_record_ok:
  assumes "decode_record body bo bt pos = Inr (r, pos')"
  shows "range_ok body (lr_key r) \<and> range_ok body (lr_value r) \<and>
     fst (lr_headers r) + snd (lr_headers r) \<le> length body \<and> pos < pos' \<and> pos' \<le> length body"
proof -
  from assms obtain len pos1 ts pos2 od pos3 kl pos4 key pos5 vl pos6 val pos7 hc pos8 where
    v1: "varint body pos = Some (len, pos1)" and v2: "varint body (pos1 + 1) = Some (ts, pos2)"
    and v3: "varint body pos2 = Some (od, pos3)" and v4: "varint body pos3 = Some (kl, pos4)"
    and k: "field_range kl pos4 = (key, pos5)" and v5: "varint body pos5 = Some (vl, pos6)"
    and v: "field_range vl pos6 = (val, pos7)" and v6: "varint body pos7 = Some (hc, pos8)"
    and fin: "pos' = pos1 + nat (max len 0)" "pos' \<le> length body"
    and r: "lr_key r = key" "lr_value r = val"
      "lr_headers r = (pos8 mod 2 ^ 32, (pos' - pos8) mod 2 ^ 32)"
    by (auto simp: decode_record_def bind_sum_Inr_iff case_prod_Inr_iff Let_def split: if_splits)
  have "pos8 mod 2 ^ 32 + (pos' - pos8) mod 2 ^ 32 \<le> pos8 + (pos' - pos8)"
    by (intro add_mono mod_less_eq_dividend)
  moreover have "pos8 \<le> length body" using varint_bounds [OF v6] by simp
  ultimately have "pos8 mod 2 ^ 32 + (pos' - pos8) mod 2 ^ 32 \<le> length body"
    using fin(2) by linarith
  moreover have "pos < pos'" using varint_bounds [OF v1] fin(1) by simp
  ultimately show ?thesis
    using r fin(2) field_range_ok [OF k v5] field_range_ok [OF v v6] by simp
qed

lemma decode_records_ok:
  "decode_records n body bo bt pos = Inr rs \<Longrightarrow>
     length rs = n \<and> (\<forall>r\<in>set rs. range_ok body (lr_key r) \<and> range_ok body (lr_value r) \<and>
       fst (lr_headers r) + snd (lr_headers r) \<le> length body)"
  by (induction n arbitrary: pos rs)
     (fastforce simp: bind_sum_Inr_iff dest: decode_record_ok)+

lemma decode_batch_ok:
  "decode_batch cs batch = Inr b \<Longrightarrow> r \<in> set (lb_records b) \<Longrightarrow> lean_ok b r"
  by (auto simp: decode_batch_def bind_sum_Inr_iff Let_def lean_ok_def split: if_splits dest!: decode_records_ok)

lemma decode_lean_from_ok:
  "decode_lean_from cs buffer at = Inr (Some bs) \<Longrightarrow> b \<in> set bs \<Longrightarrow> r \<in> set (lb_records b) \<Longrightarrow> lean_ok b r"
proof (induction cs buffer at arbitrary: bs rule: decode_lean_from.induct)
  case (1 cs buffer at)
  from "1.prems"(1) consider "bs = []"
    | len stop b' bs' where "at < length buffer" "i32_at buffer (at + LENGTH_AT) = Some len"
      "stop = at + LENGTH_AT + 4 + nat (max len 0)" "\<not> (len \<le> 0 \<or> length buffer < stop)"
      "\<not> length (take (stop - at) (drop at buffer)) < HEADER_LEN"
      "\<not> take (stop - at) (drop at buffer) ! MAGIC \<noteq> 2"
      "decode_batch cs (take (stop - at) (drop at buffer)) = Inr b'"
      "decode_lean_from cs buffer stop = Inr (Some bs')" "bs = b' # bs'"
    by (subst (asm) decode_lean_from.simps)
       (auto simp: Let_def split: if_splits option.splits sum.splits)
  then show ?case
  proof cases
    case 2
    show ?thesis
      using "1.IH" [OF 2(1-4) refl 2(5-8)] "1.prems"(2,3) 2(9) decode_batch_ok [OF 2(7)] by auto
  qed (use "1.prems"(2) in simp)
qed

lemma range_ok_headers:
  "fst (lr_headers r) + snd (lr_headers r) \<le> length (lb_buffer b) \<Longrightarrow> lean_headers b r \<noteq> Inl (Failed (Codec ''header block''))"
proof -
  have loop: "headers_loop buffer block at n pos \<noteq> Inl (Failed (Codec ''header block''))" for buffer block at n pos
    by (induction n arbitrary: pos)
       (auto simp: bind_sum_Inl_iff need_def fail_with_def bytes_slice_def Let_def split: option.splits if_splits)
  assume "fst (lr_headers r) + snd (lr_headers r) \<le> length (lb_buffer b)"
  then show ?thesis using loop by (simp add: lean_headers_def get_range_def need_def fail_with_def Let_def)
qed

text \<open>
  C36: the ranges of a decoded record lie in its buffer.  Whatever bytes \<open>decode_lean\<close> accepts, and whatever its checksum and decompressors are, the
  key, the value and the control type of every record of every batch can be read without a panic, and its header block ends within
  the batch's buffer, so that \<open>headers\<close> always finds the block; only the end of the record is ever compared with the buffer.  (What is inside a
  header block is not checked: see \<open>malformed_headers_panic\<close>.)
\<close>

theorem decoded_records_read_without_panic:
  assumes "decode_lean cs buffer = Inr (Some bs)" and "b \<in> set bs" and "r \<in> set (lb_records b)"
  shows "(\<exists>k. lean_key b r = Inr k) \<and> (\<exists>v. lean_value b r = Inr v) \<and> (\<exists>t. lean_control_type b r = Inr t) \<and>
    fst (lr_headers r) + snd (lr_headers r) \<le> length (lb_buffer b) \<and>
    lean_headers b r \<noteq> Inl (Failed (Codec ''header block''))"
proof -
  have ok: "lean_ok b r"
    using assms by (auto simp: decode_lean_def intro: decode_lean_from_ok)
  then have k: "\<exists>k. lean_key b r = Inr k" and "\<exists>v. lean_value b r = Inr v"
    by (auto simp: lean_ok_def lean_key_def lean_value_def intro: range_ok_slice)
  moreover have "\<exists>t. lean_control_type b r = Inr t"
    using k by (auto simp: lean_control_type_def lean_key_def split: option.splits)
  ultimately show ?thesis using ok range_ok_headers [of r b] by (simp add: lean_ok_def)
qed

text \<open>
  A one-record batch with a header whose value claims ten bytes that are not there, under a
  checksum that accepts everything.
\<close>

definition zero_codecs :: codecs where
  "zero_codecs = \<lparr>crc32c = (\<lambda>_. 0), gzip = Inr, snap_raw = Inr, lz4 = Inr, zstd = Inr\<rparr>"

definition bad_header_records :: bytes where
  "bad_header_records = [16, 0, 0, 0, 1, 1, 2, 0, 20]"

definition bad_header_batch :: bytes where
  "bad_header_batch = replicate 8 0 @ [0, 0, 0, 58] @ replicate 4 0 @ [2] @ replicate 40 0 @ [0, 0, 0, 1] @
     bad_header_records"

lemma bad_header_varints:
  "varint bad_header_records 0 = Some (8, 1)" "varint bad_header_records (Suc (Suc 0)) = Some (0, 3)"
  "varint bad_header_records 3 = Some (0, 4)" "varint bad_header_records 4 = Some (- 1, 5)"
  "varint bad_header_records 5 = Some (- 1, 6)" "varint bad_header_records 6 = Some (1, 7)"
  "varint [0, 20] 0 = Some (0, 1)" "varint [0, 20] 1 = Some (10, 2)"
  by code_simp+

lemma bad_header_records_decode:
  "decode_records 1 bad_header_records 0 0 0 =
     Inr [\<lparr>lr_offset = 0, lr_timestamp = 0, lr_key = (u32_max, 0), lr_value = (u32_max, 0),
            lr_headers = (7, 2), lr_header_count = 1\<rparr>]"
  by (simp add: decode_record_def need_def bad_header_varints field_range_def wrap64_def
      bad_header_records_def [THEN arg_cong [where f = length]])

lemma bad_header_batch_decodes:
  "decode_lean zero_codecs bad_header_batch =
     Inr (Some [\<lparr>lb_buffer = bad_header_records, lb_base_offset = 0, lb_producer_id = 0,
       lb_transactional = False, lb_control = False,
       lb_records = [\<lparr>lr_offset = 0, lr_timestamp = 0, lr_key = (u32_max, 0), lr_value = (u32_max, 0),
         lr_headers = (7, 2), lr_header_count = 1\<rparr>]\<rparr>])"
proof -
  have "i16_at bad_header_batch 21 = Some 0" "i32_at bad_header_batch 17 = Some 0"
    "i64_at bad_header_batch 0 = Some 0" "i64_at bad_header_batch 27 = Some 0"
    "i64_at bad_header_batch 43 = Some 0" "i32_at bad_header_batch 57 = Some 1"
    "drop 61 bad_header_batch = bad_header_records"
    by (simp_all add: i16_at_def i32_at_def i64_at_def get_range_def bad_header_batch_def
        bad_header_records_def i16_from_be_def i32_from_be_def i64_from_be_def numeral_eq_Suc)
  then have batch: "decode_batch zero_codecs bad_header_batch =
      Inr \<lparr>lb_buffer = bad_header_records, lb_base_offset = 0, lb_producer_id = 0,
       lb_transactional = False, lb_control = False,
       lb_records = [\<lparr>lr_offset = 0, lr_timestamp = 0, lr_key = (u32_max, 0), lr_value = (u32_max, 0),
         lr_headers = (7, 2), lr_header_count = 1\<rparr>]\<rparr>"
    using bad_header_records_decode by (simp add: decode_batch_def need_def field_defs zero_codecs_def)
  have "length bad_header_batch = 70" "i32_at bad_header_batch 8 = Some 58" "bad_header_batch ! 16 = 2"
    by (simp_all add: i32_at_def get_range_def bad_header_batch_def bad_header_records_def
        i32_from_be_def nth_append)
  with batch show ?thesis
    by (simp add: decode_lean_def decode_lean_from.simps [of _ _ 0] decode_lean_from.simps [of _ _ 70]
        field_defs)
qed

lemma bad_header_panics:
  "lb_buffer b = bad_header_records \<Longrightarrow> lr_headers r = (7, 2) \<Longrightarrow> lr_header_count r = 1 \<Longrightarrow>
     lean_headers b r = Inl Panicked"
  using bad_header_varints(7,8)
  by (simp add: lean_headers_def need_def get_range_def fail_with_def bad_header_records_def bytes_slice_def)

theorem decoded_records_read_without_panic_witness:
  "\<exists>b r. decode_lean zero_codecs bad_header_batch = Inr (Some [b]) \<and> lb_records b = [r] \<and> (\<exists>k. lean_key b r = Inr k) \<and>
     fst (lr_headers r) + snd (lr_headers r) \<le> length (lb_buffer b)"
  using decoded_records_read_without_panic [OF bad_header_batch_decodes] bad_header_batch_decodes by simp

text \<open>
  A malformed header block panics.  There is a batch that decodes without error, its checksum
  included, and a record of it for which \<open>headers\<close> panics where its documentation promises an
  error: a header's value length is used to slice the buffer unchecked.
\<close>

theorem malformed_headers_panic:
  "\<exists>b r. decode_lean zero_codecs bad_header_batch = Inr (Some [b]) \<and> lb_records b = [r] \<and>
     lean_headers b r = Inl Panicked"
  unfolding bad_header_batch_decodes by (auto intro: bad_header_panics)

section \<open>Reading back what the format writes\<close>

text \<open>The bytes from a position on, and what reading there gives.\<close>

definition here :: "bytes \<Rightarrow> nat \<Rightarrow> bytes \<Rightarrow> bool" where
  "here buf pos rest \<longleftrightarrow> pos \<le> length buf \<and> drop pos buf = rest"

lemma here_skip: "here buf pos (xs @ rest) \<Longrightarrow> here buf (pos + length xs) rest"
proof (unfold here_def, elim conjE, intro conjI)
  assume p: "pos \<le> length buf" and d: "drop pos buf = xs @ rest"
  have "length buf - pos = length xs + length rest" using arg_cong [OF d, of length] by simp
  with p show "pos + length xs \<le> length buf" by linarith
  have "drop (pos + length xs) buf = drop (length xs) (drop pos buf)" by (simp add: add.commute)
  with d show "drop (pos + length xs) buf = rest" by simp
qed

lemma here_length: "here buf pos rest \<Longrightarrow> length buf = pos + length rest"
  by (auto simp: here_def)

lemma here_range:
  assumes "here buf pos (xs @ rest)" and "n = length xs"
  shows "get_range buf pos (pos + n) = Some xs"
  using here_length [OF assms(1)] assms by (simp add: get_range_def here_def)

lemma here_varint:
  assumes "here buf pos (encode_varint n @ rest)" and "in_i64 n"
  shows "varint buf pos = Some (n, pos + length (encode_varint n))"
proof -
  have "buf = take pos buf @ encode_varint n @ rest" and "length (take pos buf) = pos"
    using assms(1) by (auto simp: here_def append_take_drop_id [symmetric] min_def)
       (metis append_take_drop_id)
  with varint_encode [OF assms(2), of "take pos buf" rest] show ?thesis by simp
qed

text \<open>A record as the format has it; the header block is its own bytes.\<close>

record wire_record =
  w_timestamp_delta :: int
  w_offset_delta :: int
  w_key :: "bytes option"
  w_value :: "bytes option"
  w_header_count :: int
  w_header_block :: bytes

fun encode_field :: "bytes option \<Rightarrow> bytes" where
  "encode_field None = encode_varint (- 1)"
| "encode_field (Some b) = encode_varint (int (length b)) @ b"

definition encode_record_body :: "wire_record \<Rightarrow> bytes" where
  "encode_record_body w = [0] @ encode_varint (w_timestamp_delta w) @ encode_varint (w_offset_delta w) @
     encode_field (w_key w) @ encode_field (w_value w) @ encode_varint (w_header_count w) @ w_header_block w"

definition encode_record :: "wire_record \<Rightarrow> bytes" where
  "encode_record w = encode_varint (int (length (encode_record_body w))) @ encode_record_body w"

definition wire_ok :: "wire_record \<Rightarrow> bool" where
  "wire_ok w \<longleftrightarrow> in_i64 (w_timestamp_delta w) \<and> in_i64 (w_offset_delta w) \<and>
     0 \<le> w_header_count w \<and> w_header_count w < 2 ^ 31"

text \<open>A lean record stands for a wire record of a batch.\<close>

definition reads_as :: "bytes \<Rightarrow> int \<Rightarrow> int \<Rightarrow> lean_record \<Rightarrow> wire_record \<Rightarrow> bool" where
  "reads_as buf bo bt r w \<longleftrightarrow>
     lr_offset r = wrap64 (bo + w_offset_delta w) \<and> lr_timestamp r = wrap64 (bt + w_timestamp_delta w) \<and>
     (\<forall>b. lb_buffer b = buf \<longrightarrow> lean_key b r = Inr (w_key w) \<and> lean_value b r = Inr (w_value w)) \<and>
     lr_header_count r = nat (w_header_count w) \<and>
     get_range buf (fst (lr_headers r)) (fst (lr_headers r) + snd (lr_headers r)) = Some (w_header_block w)"

lemma here_field:
  assumes "here buf pos (encode_field f @ rest)" and "length buf < u32_max"
  obtains n pos1 rg where "varint buf pos = Some (n, pos1)"
    and "field_range n pos1 = (rg, pos + length (encode_field f))"
    and "\<And>b. lb_buffer b = buf \<Longrightarrow> lean_slice b rg = Inr f"
proof (cases f)
  case None
  with assms(1) have "varint buf pos = Some (- 1, pos + length (encode_varint (- 1)))"
    by (intro here_varint [where rest = rest]) (auto simp: in_i64_def)
  then show ?thesis
    by (rule that [where rg = "(u32_max, 0)"]) (auto simp: None field_range_def lean_slice_def)
next
  case (Some x)
  have h: "here buf pos (encode_varint (int (length x)) @ (x @ rest))"
    using assms(1) Some by simp
  let ?p = "pos + length (encode_varint (int (length x)))"
  have h2: "here buf ?p (x @ rest)" by (rule here_skip [OF h])
  have len: "?p + length x + length rest = length buf" using here_length [OF h2] by simp
  have i: "in_i64 (int (length x))" using len assms(2) by (auto simp: in_i64_def)
  show ?thesis
  proof (rule that)
    show "varint buf pos = Some (int (length x), ?p)" by (rule here_varint [OF h i])
    show "field_range (int (length x)) ?p = ((?p, length x), pos + length (encode_field f))"
      using len assms(2) by (simp add: field_range_def Some)
    show "lean_slice b (?p, length x) = Inr f" if "lb_buffer b = buf" for b
      using that here_range [OF h2 refl] len assms(2) Some by (simp add: lean_slice_def bytes_slice_def)
  qed
qed

lemma decode_record_reads_back:
  assumes "here buf pos (encode_record w @ rest)" and "wire_ok w" and "length buf < u32_max"
  shows "\<exists>r. decode_record buf bo bt pos = Inr (r, pos + length (encode_record w)) \<and> reads_as buf bo bt r w"
proof -
  let ?body = "encode_record_body w"
  have h0: "here buf pos (encode_varint (int (length ?body)) @ ?body @ rest)"
    using assms(1) by (simp add: encode_record_def)
  define pos1 where "pos1 = pos + length (encode_varint (int (length ?body)))"
  have h1: "here buf pos1 (?body @ rest)" unfolding pos1_def by (rule here_skip [OF h0])
  have len: "length buf = pos1 + length ?body + length rest" using here_length [OF h1] by simp
  have v1: "varint buf pos = Some (int (length ?body), pos1)"
    unfolding pos1_def by (rule here_varint [OF h0]) (use len assms(3) in \<open>auto simp: in_i64_def\<close>)
  let ?t = "encode_varint (w_timestamp_delta w)" and ?o = "encode_varint (w_offset_delta w)"
  let ?hc = "encode_varint (w_header_count w)"
  have h2: "here buf (pos1 + 1) (?t @ ?o @ encode_field (w_key w) @ encode_field (w_value w) @ ?hc @ w_header_block w @ rest)"
    using here_skip [of buf pos1 "[0]"] h1 by (simp add: encode_record_body_def)
  note h3 = here_skip [OF h2] note h4 = here_skip [OF h3]
  note h5 = here_skip [OF h4] note h6 = here_skip [OF h5] note h7 = here_skip [OF h6]
  have in64: "in_i64 (w_timestamp_delta w)" "in_i64 (w_offset_delta w)" "in_i64 (w_header_count w)"
    using assms(2) by (auto simp: wire_ok_def in_i64_def)
  obtain kl p4 key where k: "varint buf (pos1 + 1 + length ?t + length ?o) = Some (kl, p4)"
    "field_range kl p4 = (key, pos1 + 1 + length ?t + length ?o + length (encode_field (w_key w)))"
    "\<And>b. lb_buffer b = buf \<Longrightarrow> lean_slice b key = Inr (w_key w)"
    using here_field [OF h4 assms(3)] by metis
  obtain vl p6 val where v: "varint buf (pos1 + 1 + length ?t + length ?o + length (encode_field (w_key w))) = Some (vl, p6)"
    "field_range vl p6 = (val, pos1 + 1 + length ?t + length ?o + length (encode_field (w_key w)) + length (encode_field (w_value w)))"
    "\<And>b. lb_buffer b = buf \<Longrightarrow> lean_slice b val = Inr (w_value w)"
    using here_field [OF h5 assms(3)] by metis
  define p8 where "p8 = pos1 + 1 + length ?t + length ?o + length (encode_field (w_key w)) + length (encode_field (w_value w)) + length ?hc"
  define stop where "stop = pos1 + length ?body"
  have body: "stop = p8 + length (w_header_block w)"
    by (simp add: stop_def p8_def encode_record_body_def)
  have small: "p8 mod 2 ^ 32 = p8" "(stop - p8) mod 2 ^ 32 = length (w_header_block w)"
    using body len assms(3) by (simp_all add: stop_def)
  have hcs: "nat (w_header_count w) mod 4294967296 = nat (w_header_count w)"
    using assms(2) by (simp add: wire_ok_def nat_less_iff)
  define r where "r = \<lparr>lr_offset = wrap64 (bo + w_offset_delta w), lr_timestamp = wrap64 (bt + w_timestamp_delta w),
    lr_key = key, lr_value = val, lr_headers = (p8, length (w_header_block w)), lr_header_count = nat (w_header_count w)\<rparr>"
  have "decode_record buf bo bt pos = Inr (r, stop)"
    using v1 here_varint [OF h2 in64(1)] here_varint [OF h3 in64(2)] k(1,2) v(1,2) here_varint [OF h6 in64(3)]
      small len assms(2) hcs
    by (simp add: decode_record_def need_def r_def stop_def p8_def wire_ok_def Let_def)
  moreover have "stop = pos + length (encode_record w)"
    by (simp add: stop_def pos1_def encode_record_def)
  moreover have "reads_as buf bo bt r w"
    using k(3) v(3) here_range [OF h7 refl]
    by (simp add: reads_as_def r_def lean_key_def lean_value_def p8_def)
  ultimately show ?thesis by blast
qed

lemma decode_records_read_back:
  assumes "here buf pos (concat (map encode_record ws) @ rest)" and "\<forall>w\<in>set ws. wire_ok w" and "length buf < u32_max"
  shows "\<exists>rs. decode_records (length ws) buf bo bt pos = Inr rs \<and> list_all2 (reads_as buf bo bt) rs ws"
  using assms(1,2)
proof (induction ws arbitrary: pos)
  case Nil
  then show ?case by simp
next
  case (Cons w ws)
  have h: "here buf pos (encode_record w @ concat (map encode_record ws) @ rest)"
    using Cons.prems(1) by simp
  from decode_record_reads_back [OF h _ assms(3)] Cons.prems(2)
  obtain r where r: "decode_record buf bo bt pos = Inr (r, pos + length (encode_record w))" "reads_as buf bo bt r w"
    by (metis list.set_intros(1))
  from Cons.IH [OF here_skip [OF h]] Cons.prems(2) r show ?case by auto
qed

text \<open>A whole uncompressed batch of the format, version 2.\<close>

record wire_batch =
  wb_base_offset :: int
  wb_leader_epoch :: int
  wb_attributes :: int
  wb_last_offset_delta :: int
  wb_base_timestamp :: int
  wb_max_timestamp :: int
  wb_producer_id :: int
  wb_producer_epoch :: int
  wb_base_sequence :: int
  wb_records :: "wire_record list"

definition encode_checked :: "wire_batch \<Rightarrow> bytes" where
  "encode_checked b = be_bytes 2 (wb_attributes b) @ be_bytes 4 (wb_last_offset_delta b) @
     be_bytes 8 (wb_base_timestamp b) @ be_bytes 8 (wb_max_timestamp b) @ be_bytes 8 (wb_producer_id b) @
     be_bytes 2 (wb_producer_epoch b) @ be_bytes 4 (wb_base_sequence b) @
     be_bytes 4 (int (length (wb_records b))) @ concat (map encode_record (wb_records b))"

definition encode_wire_batch :: "codecs \<Rightarrow> wire_batch \<Rightarrow> bytes" where
  "encode_wire_batch cs b = be_bytes 8 (wb_base_offset b) @ be_bytes 4 (int (9 + length (encode_checked b))) @
     be_bytes 4 (wb_leader_epoch b) @ [2] @ be_bytes 4 (uint (crc32c cs (encode_checked b))) @ encode_checked b"

definition wire_batch_ok :: "wire_batch \<Rightarrow> bool" where
  "wire_batch_ok b \<longleftrightarrow> in_i64 (wb_base_offset b) \<and> in_i64 (wb_base_timestamp b) \<and> in_i64 (wb_producer_id b) \<and>
     0 \<le> wb_attributes b \<and> wb_attributes b < 32768 \<and> wb_attributes b AND 7 = 0 \<and>
     (\<forall>w\<in>set (wb_records b). wire_ok w) \<and> length (encode_checked b) < 2147483600"

definition batch_reads_as :: "lean_batch \<Rightarrow> wire_batch \<Rightarrow> bool" where
  "batch_reads_as lb b \<longleftrightarrow> lb_base_offset lb = wb_base_offset b \<and> lb_producer_id lb = wb_producer_id b \<and>
     lb_transactional lb = (wb_attributes b AND 16 \<noteq> 0) \<and> lb_control lb = (wb_attributes b AND 32 \<noteq> 0) \<and>
     list_all2 (reads_as (lb_buffer lb) (wb_base_offset b) (wb_base_timestamp b)) (lb_records lb) (wb_records b)"

lemma here_i16: "here buf pos (be_bytes 2 x @ rest) \<Longrightarrow> - 32768 \<le> x \<Longrightarrow> x < 32768 \<Longrightarrow> i16_at buf pos = Some x"
  using here_range [of buf pos "be_bytes 2 x" rest 2] by (simp add: i16_at_def be_simps)

lemma here_i32: "here buf pos (be_bytes 4 x @ rest) \<Longrightarrow> in_i32 x \<Longrightarrow> i32_at buf pos = Some x"
  using here_range [of buf pos "be_bytes 4 x" rest 4] by (simp add: i32_at_def be_simps)

lemma here_i64: "here buf pos (be_bytes 8 x @ rest) \<Longrightarrow> in_i64 x \<Longrightarrow> i64_at buf pos = Some x"
  using here_range [of buf pos "be_bytes 8 x" rest 8] by (simp add: i64_at_def be_simps)

lemma length_encode_checked:
  "length (encode_checked b) = 40 + length (concat (map encode_record (wb_records b)))"
  by (simp add: encode_checked_def)

lemma length_encode_wire_batch: "length (encode_wire_batch cs b) = 21 + length (encode_checked b)"
  by (simp add: encode_wire_batch_def)

lemma length_encode_record: "1 \<le> length (encode_record w)"
  by (simp add: encode_record_def encode_record_body_def)

lemma length_records_le: "length ws \<le> length (concat (map encode_record ws))"
proof (induction ws)
  case (Cons w ws)
  then show ?case using length_encode_record [of w] by simp
qed simp

lemma decode_batch_reads_back:
  assumes "wire_batch_ok b"
  shows "\<exists>lb. decode_batch cs (encode_wire_batch cs b) = Inr lb \<and> batch_reads_as lb b"
proof -
  let ?buf = "encode_wire_batch cs b" and ?recs = "concat (map encode_record (wb_records b))"
  let ?crc = "crc32c cs (encode_checked b)"
  have count: "in_i32 (int (length (wb_records b)))"
    using length_records_le [of "wb_records b"] assms by (simp add: wire_batch_ok_def length_encode_checked in_i32_def)
  have h: "here ?buf 0 ?buf" by (simp add: here_def)
  have at: "here ?buf 0 (be_bytes 8 (wb_base_offset b) @ drop 8 ?buf)"
    "here ?buf 17 (be_bytes 4 (uint ?crc) @ encode_checked b)"
    "here ?buf 21 (be_bytes 2 (wb_attributes b) @ drop 2 (encode_checked b))"
    "here ?buf 27 (be_bytes 8 (wb_base_timestamp b) @ drop 14 (encode_checked b))"
    "here ?buf 43 (be_bytes 8 (wb_producer_id b) @ drop 30 (encode_checked b))"
    "here ?buf 57 (be_bytes 4 (int (length (wb_records b))) @ ?recs)"
    by (simp_all add: here_def length_encode_wire_batch length_encode_checked) (simp_all add: encode_wire_batch_def encode_checked_def)
  have stored: "\<exists>st. i32_at ?buf 17 = Some st \<and> (word_of_int st :: u32) = ?crc"
  proof -
    have "i32_at ?buf 17 = Some (i32_from_be (be_bytes 4 (uint ?crc)))"
      using here_range [OF at(2), of 4] by (simp add: i32_at_def)
    moreover have "(word_of_int (i32_from_be (be_bytes 4 (uint ?crc))) :: u32) = ?crc"
    proof -
      have "(word_of_int (signed_take_bit 31 (uint ?crc)) :: u32) = word_of_int (uint ?crc)"
        by (simp only: word_of_int_eq_iff) (simp add: take_bit_signed_take_bit)
      then show ?thesis using signed_take_bit_mod [of 31 "uint ?crc"] by (simp add: i32_from_be_def be_simps)
    qed
    ultimately show ?thesis by blast
  qed
  obtain rs where rs: "decode_records (length (wb_records b)) ?recs (wb_base_offset b) (wb_base_timestamp b) 0 = Inr rs"
    "list_all2 (reads_as ?recs (wb_base_offset b) (wb_base_timestamp b)) rs (wb_records b)"
    using decode_records_read_back [of ?recs 0 "wb_records b" "[]" "wb_base_offset b" "wb_base_timestamp b"] assms
    by (auto simp: here_def wire_batch_ok_def length_encode_checked)
  have "drop 21 ?buf = encode_checked b" "drop 61 ?buf = ?recs"
    by (simp_all add: encode_wire_batch_def encode_checked_def)
  then show ?thesis
    using stored here_i16 [OF at(3)] here_i64 [OF at(1)] here_i64 [OF at(4)] here_i64 [OF at(5)]
      here_i32 [OF at(6) count] assms rs
    by (auto simp: decode_batch_def need_def wire_batch_ok_def batch_reads_as_def ATTRIBUTES_def CRC_def CRC_FROM_def
        BASE_OFFSET_def BASE_TIMESTAMP_def PRODUCER_ID_def RECORD_COUNT_def HEADER_LEN_def)
qed
lemma get_range_past: "length buf < stop \<Longrightarrow> get_range buf at stop = None"
  by (simp add: get_range_def)

lemma decode_lean_from_cut:
  assumes "here buf pos (take k (encode_wire_batch cs b))" and "k < length (encode_wire_batch cs b)"
    and "wire_batch_ok b"
  shows "decode_lean_from cs buf pos = Inr (Some [])"
proof (cases "k < 12")
  case True
  then have "length buf < pos + 12" using here_length [OF assms(1)] by simp
  then show ?thesis
    by (simp add: decode_lean_from.simps [of cs buf pos] i32_at_def LENGTH_AT_def get_range_past)
next
  case False
  let ?len = "int (9 + length (encode_checked b))"
  let ?rest = "take (k - 12) (drop 12 (encode_wire_batch cs b))"
  have "take k (encode_wire_batch cs b) = be_bytes 8 (wb_base_offset b) @ be_bytes 4 ?len @ ?rest"
    using False by (simp add: encode_wire_batch_def take_Cons' )
  then have h: "here buf pos (be_bytes 8 (wb_base_offset b) @ be_bytes 4 ?len @ ?rest)" using assms(1) by simp
  have "in_i32 ?len" using assms(3) by (simp add: in_i32_def wire_batch_ok_def)
  from here_i32 [OF here_skip [OF h] this] here_length [OF assms(1)] assms(2) show ?thesis
    by (simp add: decode_lean_from.simps [of cs buf pos] LENGTH_AT_def length_encode_wire_batch nat_add_distrib)
qed

lemma decode_lean_from_step:
  assumes "here buf pos (encode_wire_batch cs b @ rest)" and "wire_batch_ok b"
    and "decode_batch cs (encode_wire_batch cs b) = Inr lb"
  shows "decode_lean_from cs buf pos =
    (case decode_lean_from cs buf (pos + length (encode_wire_batch cs b)) of
       Inl e \<Rightarrow> Inl e | Inr None \<Rightarrow> Inr None | Inr (Some bs) \<Rightarrow> Inr (Some (lb # bs)))"
proof -
  let ?len = "int (9 + length (encode_checked b))"
  have h: "here buf pos (be_bytes 8 (wb_base_offset b) @ be_bytes 4 ?len @ drop 12 (encode_wire_batch cs b) @ rest)"
    using assms(1) by (simp add: encode_wire_batch_def)
  have "in_i32 ?len" using assms(2) by (simp add: in_i32_def wire_batch_ok_def)
  then have len: "i32_at buf (pos + 8) = Some ?len" using here_i32 [OF here_skip [OF h]] by simp
  have stop: "nat ?len + 12 = length (encode_wire_batch cs b)" by (simp add: length_encode_wire_batch)
  have "take (length (encode_wire_batch cs b)) (drop pos buf) = encode_wire_batch cs b"
    using assms(1) by (simp add: here_def)
  moreover have "encode_wire_batch cs b ! 16 = 2" by (simp add: encode_wire_batch_def nth_append)
  ultimately show ?thesis
    using len stop assms(3) here_length [OF assms(1)]
    by (simp add: decode_lean_from.simps [of cs buf pos] LENGTH_AT_def length_encode_wire_batch length_encode_checked
        HEADER_LEN_def MAGIC_def Let_def add.commute add.left_commute)
qed

lemma decode_lean_from_reads_back:
  assumes "here buf pos (concat (map (encode_wire_batch cs) bs) @ take k (encode_wire_batch cs cut_off))"
    and "\<forall>b\<in>set bs. wire_batch_ok b" and "k < length (encode_wire_batch cs cut_off)" and "wire_batch_ok cut_off"
  shows "\<exists>lbs. decode_lean_from cs buf pos = Inr (Some lbs) \<and> list_all2 batch_reads_as lbs bs"
  using assms(1,2)
proof (induction bs arbitrary: pos)
  case Nil
  then show ?case using decode_lean_from_cut [OF _ assms(3,4)] by simp
next
  case (Cons b bs)
  have h: "here buf pos (encode_wire_batch cs b @ concat (map (encode_wire_batch cs) bs) @ take k (encode_wire_batch cs cut_off))"
    using Cons.prems(1) by simp
  obtain lb where lb: "decode_batch cs (encode_wire_batch cs b) = Inr lb" "batch_reads_as lb b"
    using decode_batch_reads_back Cons.prems(2) by (meson list.set_intros(1))
  from Cons.IH [OF here_skip [OF h]] Cons.prems(2)
  obtain lbs where "decode_lean_from cs buf (pos + length (encode_wire_batch cs b)) = Inr (Some lbs)"
    "list_all2 batch_reads_as lbs bs" by auto
  with decode_lean_from_step [OF h _ lb(1)] lb(2) Cons.prems(2) show ?case by simp
qed

text \<open>
  C37: what the format writes is read back.  A response holding any number of uncompressed version-2
  batches, followed by any cut-off beginning of another (the broker fills a response up to its size
  limit), decodes to exactly the whole batches, in order: base offset, producer, the transactional
  and control flags, and every record with its offset, timestamp, key, value (null distinguished from empty) and
  header block; the fragment is dropped without an error.
\<close>
theorem decode_lean_reads_back:
  assumes "\<forall>b\<in>set bs. wire_batch_ok b" and "wire_batch_ok cut_off"
    and "k < length (encode_wire_batch cs cut_off)"
  shows "\<exists>lbs. decode_lean cs (concat (map (encode_wire_batch cs) bs) @ take k (encode_wire_batch cs cut_off)) =
      Inr (Some lbs) \<and> list_all2 batch_reads_as lbs bs"
  unfolding decode_lean_def
  by (rule decode_lean_from_reads_back [where k = k and cut_off = cut_off]) (use assms in \<open>auto simp: here_def\<close>)

definition demo_batch :: wire_batch where
  "demo_batch = \<lparr>wb_base_offset = 41, wb_leader_epoch = 0, wb_attributes = 16, wb_last_offset_delta = 1,
     wb_base_timestamp = 1000, wb_max_timestamp = 1005, wb_producer_id = 7, wb_producer_epoch = 0,
     wb_base_sequence = 3,
     wb_records = [\<lparr>w_timestamp_delta = 0, w_offset_delta = 0, w_key = Some [1, 2], w_value = None,
                     w_header_count = 0, w_header_block = []\<rparr>,
                   \<lparr>w_timestamp_delta = 5, w_offset_delta = 1, w_key = None, w_value = Some [],
                     w_header_count = 1, w_header_block = [2, 9, 1]\<rparr>]\<rparr>"

lemma demo_batch_ok: "wire_batch_ok demo_batch"
  by (simp add: wire_batch_ok_def demo_batch_def wire_ok_def in_i64_def length_encode_checked encode_record_def
      encode_record_body_def encode_varint_def zigzag_def leb128.simps)

theorem decode_lean_reads_back_witness:
  "\<exists>lbs. decode_lean \<lparr>crc32c = (\<lambda>_. 5), gzip = Inr, snap_raw = Inr, lz4 = Inr, zstd = Inr\<rparr>
      (concat (map (encode_wire_batch \<lparr>crc32c = (\<lambda>_. 5), gzip = Inr, snap_raw = Inr, lz4 = Inr, zstd = Inr\<rparr>)
         [demo_batch, demo_batch]) @
       take 60 (encode_wire_batch \<lparr>crc32c = (\<lambda>_. 5), gzip = Inr, snap_raw = Inr, lz4 = Inr, zstd = Inr\<rparr> demo_batch)) =
      Inr (Some lbs) \<and> list_all2 batch_reads_as lbs [demo_batch, demo_batch]"
  by (rule decode_lean_reads_back) (simp_all add: demo_batch_ok length_encode_wire_batch length_encode_checked)

end
