(* ===== verification/Batch_Filter.thy ===== *)
theory Batch_Filter
  imports Records
begin

text \<open>
  The batch-wise READ_COMMITTED filter, \<^verbatim>\<open>filter_batches\<close> of \<^verbatim>\<open>barnabas-core/src/records.rs\<close>.
  Its control-marker lookup slices the batch buffer and so may panic on batches that did not come
  from the decoder; the model returns that panic.

  Shown: on batches the decoder produced, and when no aborted transaction begins inside a batch,
  it delivers exactly the records the record-wise specification allows; its positions satisfy the
  same fetch contract; and how a batch that straddles the last stable offset is handled.
\<close>

section \<open>The filter\<close>

fun clear_markers :: "lean_batch \<Rightarrow> lean_record list \<Rightarrow> int set \<Rightarrow> core_error failure + int set" where
  "clear_markers b [] opened = Inr opened"
| "clear_markers b (r # rs) opened =
     bind_sum (lean_control_type b r) (\<lambda>t.
       clear_markers b rs (if t = Some CONTROL_ABORT then opened - {lb_producer_id b} else opened))"

fun filter_batches_loop ::
  "bool \<Rightarrow> int \<Rightarrow> int \<Rightarrow> lean_batch list \<Rightarrow> aborted_transaction list \<Rightarrow> int set \<Rightarrow>
   lean_batch list \<Rightarrow> int \<Rightarrow> core_error failure + lean_batch list \<times> int" where
  "filter_batches_loop rc lso fetch_offset [] pend opened kept nxt = Inr (kept, nxt)"
| "filter_batches_loop rc lso fetch_offset (b # bs) pend opened kept nxt =
     (case lb_records b of
        [] \<Rightarrow> filter_batches_loop rc lso fetch_offset bs pend opened kept nxt
      | r # rs \<Rightarrow>
          if rc \<and> lso \<le> lr_offset r then Inr (kept, nxt)
          else
            (case open_aborted (lr_offset r) pend opened of (pend', opened') \<Rightarrow>
               let nxt' = wrap64 (lr_offset (last (r # rs)) + 1)
               in if lb_control b
                  then bind_sum (clear_markers b (r # rs) opened') (\<lambda>opened''.
                         filter_batches_loop rc lso fetch_offset bs pend' opened'' kept nxt')
                  else if rc \<and> lb_transactional b \<and> lb_producer_id b \<in> opened'
                  then filter_batches_loop rc lso fetch_offset bs pend' opened' kept nxt'
                  else
                    (let recs1 = (if lr_offset r < fetch_offset
                                  then filter (\<lambda>x. fetch_offset \<le> lr_offset x) (r # rs) else r # rs);
                         recs2 = (if rc then filter (\<lambda>x. lr_offset x < lso) recs1 else recs1)
                     in filter_batches_loop rc lso fetch_offset bs pend' opened'
                          (if recs2 = [] then kept else kept @ [b\<lparr>lb_records := recs2\<rparr>]) nxt')))"

definition filter_batches ::
  "lean_batch list \<Rightarrow> aborted_transaction list \<Rightarrow> int \<Rightarrow> isolation_level \<Rightarrow> int \<Rightarrow>
   core_error failure + lean_batch list \<times> int" where
  "filter_batches batches aborted lso isolation fetch_offset =
     filter_batches_loop (isolation = ReadCommitted) lso fetch_offset batches
       (sort_key first_offset aborted) {} [] fetch_offset"

section \<open>Batches as records\<close>

definition as_record :: "lean_batch \<Rightarrow> lean_record \<Rightarrow> krecord" where
  "as_record b r = \<lparr>rec_offset = lr_offset r, rec_producer_id = lb_producer_id b,
     rec_transactional = lb_transactional b, rec_control = lb_control b,
     rec_key = (case lean_key b r of Inr k \<Rightarrow> k | Inl _ \<Rightarrow> None),
     rec_value = (case lean_value b r of Inr v \<Rightarrow> v | Inl _ \<Rightarrow> None)\<rparr>"

definition batch_records :: "lean_batch \<Rightarrow> krecord list" where
  "batch_records b = map (as_record b) (lb_records b)"

definition flatten :: "lean_batch list \<Rightarrow> krecord list" where
  "flatten bs = concat (map batch_records bs)"

definition batch_readable :: "lean_batch \<Rightarrow> bool" where
  "batch_readable b \<longleftrightarrow> list_all (lean_ok b) (lb_records b)"

text \<open>No transaction of the list begins after a batch's first record and at or before its last.\<close>

definition aligned :: "aborted_transaction list \<Rightarrow> lean_batch \<Rightarrow> bool" where
  "aligned aborted b \<longleftrightarrow>
     list_all (\<lambda>a. \<forall>r\<in>set (lb_records b). lr_offset (hd (lb_records b)) < first_offset a \<longrightarrow>
        lr_offset r < first_offset a) aborted"

lemma as_record_sel [simp]:
  "rec_offset (as_record b r) = lr_offset r" "rec_producer_id (as_record b r) = lb_producer_id b"
  "rec_transactional (as_record b r) = lb_transactional b" "rec_control (as_record b r) = lb_control b"
  by (simp_all add: as_record_def)

lemma as_record_update [simp]: "as_record (b\<lparr>lb_records := rs\<rparr>) = as_record b"
  by (rule ext) (simp add: as_record_def lean_key_def lean_value_def lean_slice_def split: prod.splits)

lemma flatten_simps [simp]:
  "flatten [] = []" "flatten (b # bs) = batch_records b @ flatten bs"
  "flatten (bs @ cs) = flatten bs @ flatten cs"
  by (simp_all add: flatten_def)

lemma control_type_as_record:
  "lean_ok b r \<Longrightarrow> lean_control_type b r = Inr (control_type (as_record b r))"
  using range_ok_slice [of b "lr_key r"]
  by (auto simp: lean_ok_def lean_control_type_def control_type_def as_record_def lean_key_def split: option.splits)

lemma clear_markers_eq:
  assumes "list_all (lean_ok b) rs" and "lb_control b"
  shows "clear_markers b rs opened =
     Inr (if list_ex is_abort_marker (map (as_record b) rs) then opened - {lb_producer_id b} else opened)"
  using assms
  by (induction rs arbitrary: opened)
     (auto simp: control_type_as_record is_abort_marker_def)

lemma visible_after_append:
  "visible_after P prev (xs @ ys) = visible_after P prev xs @ visible_after P (prev @ xs) ys"
  by (induction xs arbitrary: prev) auto

lemma visible_after_none: "(\<And>p r. r \<in> set rs \<Longrightarrow> \<not> P p r) \<Longrightarrow> visible_after P prev rs = []"
  by (induction rs arbitrary: prev) auto

lemma visible_after_data:
  assumes "\<forall>r\<in>set rs. \<not> rec_control r \<and> rec_producer_id r = pid \<and> rec_transactional r = tx \<and>
      open_after aborted prev (rec_offset r) = opened"
  shows "visible_after (visible rc aborted lso fo) prev rs =
     (if rc \<and> tx \<and> pid \<in> opened then []
      else filter (\<lambda>r. fo \<le> rec_offset r \<and> (rc \<longrightarrow> rec_offset r < lso)) rs)"
  using assms
proof (induction rs arbitrary: prev)
  case Nil
  then show ?case by simp
next
  case (Cons r rs)
  have "\<not> is_abort_marker r" using Cons.prems by (simp add: is_abort_marker_def)
  then have "open_after aborted (prev @ [r]) off = open_after aborted prev off" for off
    by (simp add: open_after_snoc)
  then have IH: "visible_after (visible rc aborted lso fo) (prev @ [r]) rs =
      (if rc \<and> tx \<and> pid \<in> opened then []
       else filter (\<lambda>r. fo \<le> rec_offset r \<and> (rc \<longrightarrow> rec_offset r < lso)) rs)"
    using Cons.prems by (intro Cons.IH) auto
  have "visible rc aborted lso fo prev r \<longleftrightarrow>
      \<not> (rc \<and> tx \<and> pid \<in> opened) \<and> fo \<le> rec_offset r \<and> (rc \<longrightarrow> rec_offset r < lso)"
    using Cons.prems by (auto simp: visible_def in_aborted_open)
  with IH show ?case by auto
qed

lemma closed_by_append: "closed_by (xs @ ys) a \<longleftrightarrow> closed_by xs a \<or> closed_by ys a"
  by (simp add: closed_by_def)

text \<open>One batch moves the loop's knowledge to the batch's last record.\<close>

lemma aligned_open_after:
  assumes "aligned aborted b" and "r \<in> set (lb_records b)" and "lr_offset (hd (lb_records b)) \<le> lr_offset r"
  shows "open_after aborted prev (lr_offset r) = open_after aborted prev (lr_offset (hd (lb_records b)))"
  using assms by (force simp: aligned_def open_after_def list_all_iff)

lemma aligned_pending:
  assumes "aligned aborted b" and "r \<in> set (lb_records b)" and "lr_offset (hd (lb_records b)) \<le> lr_offset r"
  shows "filter (\<lambda>a. lr_offset (hd (lb_records b)) < first_offset a) aborted =
     filter (\<lambda>a. lr_offset r < first_offset a) aborted"
  using assms by (intro filter_cong) (auto simp: aligned_def list_all_iff)

lemma open_after_batch:
  assumes "list_all (\<lambda>r. first \<le> lr_offset r) (lb_records b)"
  shows "open_after aborted (prev @ batch_records b) first =
     (if lb_control b \<and> list_ex is_abort_marker (batch_records b)
      then open_after aborted prev first - {lb_producer_id b} else open_after aborted prev first)"
proof -
  have "closed_by (batch_records b) a \<longleftrightarrow>
      lb_control b \<and> list_ex is_abort_marker (batch_records b) \<and> lb_producer_id b = ab_producer_id a"
    if "first_offset a \<le> first" for a
    using assms that
    by (force simp: closed_by_def batch_records_def list_ex_iff list_all_iff is_abort_marker_def)
  then show ?thesis
    by (auto simp: open_after_def closed_by_append)
qed


lemma loop_inv_batch:
  assumes inv: "loop_inv aborted prev lo pend opened" and srt: "sorted (lo # map rec_offset (batch_records b))"
    and recs: "lb_records b = r # rs" and al: "aligned aborted b"
  shows "loop_inv aborted (prev @ batch_records b) (lr_offset (last (r # rs)))
     (filter (\<lambda>a. lr_offset r < first_offset a) aborted)
     (if lb_control b \<and> list_ex is_abort_marker (batch_records b)
      then open_after aborted prev (lr_offset r) - {lb_producer_id b} else open_after aborted prev (lr_offset r))"
proof -
  let ?l = "last (r # rs)"
  have offs: "sorted (map lr_offset (r # rs))" and lo: "lo \<le> lr_offset r"
    using srt recs by (auto simp: batch_records_def comp_def)
  have all: "list_all (\<lambda>x. lr_offset r \<le> lr_offset x) (lb_records b)"
    using offs recs by (auto simp: list_all_iff)
  have lst: "?l \<in> set (lb_records b)" "lr_offset (hd (lb_records b)) \<le> lr_offset ?l"
    using all recs last_in_set [of "r # rs"] by (auto simp: list_all_iff simp del: last.simps)
  have below: "lr_offset x \<le> lr_offset ?l" if "x \<in> set (r # rs)" for x
    using sorted_last_ge [OF offs, of "lr_offset x"] that
    by (simp only: last_map list.simps(3) set_map image_eqI simp_thms)
  have "list_all (\<lambda>m. rec_offset m \<le> lr_offset ?l) (prev @ batch_records b)"
    using inv lo below all recs lst(2)
    by (fastforce simp: loop_inv_def list_all_iff batch_records_def simp del: last.simps)
  moreover have "open_after aborted (prev @ batch_records b) (lr_offset ?l) =
      open_after aborted (prev @ batch_records b) (lr_offset r)"
    using aligned_open_after [OF al lst] recs by simp
  ultimately show ?thesis
    using aligned_pending [OF al lst] open_after_batch [OF all, of aborted prev] recs
    by (simp add: loop_inv_def del: last.simps)
qed

definition next_of_batches :: "bool \<Rightarrow> int \<Rightarrow> lean_batch list \<Rightarrow> int \<Rightarrow> int" where
  "next_of_batches rc lso bs nxt =
     (let seen = takeWhile (\<lambda>b. \<not> (rc \<and> lso \<le> lr_offset (hd (lb_records b))))
                   (filter (\<lambda>b. lb_records b \<noteq> []) bs)
      in if seen = [] then nxt else wrap64 (lr_offset (last (lb_records (last seen))) + 1))"

lemma next_of_batches_Cons:
  "next_of_batches rc lso (b # bs) nxt =
     (case lb_records b of
        [] \<Rightarrow> next_of_batches rc lso bs nxt
      | r # rs \<Rightarrow> if rc \<and> lso \<le> lr_offset r then nxt
                  else next_of_batches rc lso bs (wrap64 (lr_offset (last (r # rs)) + 1)))"
  by (auto simp: next_of_batches_def Let_def split: list.splits)

lemma visible_batch:
  assumes data: "\<not> lb_control b" and recs: "lb_records b = r # rs" and al: "aligned aborted b"
    and above: "\<forall>x\<in>set (lb_records b). lr_offset r \<le> lr_offset x"
  shows "visible_after (visible rc aborted lso fo) prev (batch_records b) =
     (if rc \<and> lb_transactional b \<and> lb_producer_id b \<in> open_after aborted prev (lr_offset r) then []
      else filter (\<lambda>x. fo \<le> rec_offset x \<and> (rc \<longrightarrow> rec_offset x < lso)) (batch_records b))"
proof (rule visible_after_data)
  have "open_after aborted prev (lr_offset x) = open_after aborted prev (lr_offset r)"
    if "x \<in> set (lb_records b)" for x
    using aligned_open_after [OF al that, of prev] that above recs by auto
  with data show "\<forall>x\<in>set (batch_records b). \<not> rec_control x \<and> rec_producer_id x = lb_producer_id b \<and>
      rec_transactional x = lb_transactional b \<and>
      open_after aborted prev (rec_offset x) = open_after aborted prev (lr_offset r)"
    by (auto simp: batch_records_def)
qed

lemma retained:
  assumes "\<forall>x\<in>set (r # rs). lr_offset r \<le> lr_offset x"
  shows "(let recs1 = (if lr_offset r < fo then filter (\<lambda>x. fo \<le> lr_offset x) (r # rs) else r # rs)
     in if rc then filter (\<lambda>x. lr_offset x < lso) recs1 else recs1) =
     filter (\<lambda>x. fo \<le> lr_offset x \<and> (rc \<longrightarrow> lr_offset x < lso)) (r # rs)"
proof (cases "lr_offset r < fo")
  case True
  then show ?thesis by (cases rc) (simp_all add: Let_def filter_filter conj_commute)
next
  case False
  with assms have "\<forall>x\<in>set (r # rs). fo \<le> lr_offset x" by force
  then show ?thesis using False by (simp add: Let_def cong: filter_cong)
qed

text \<open>One turn of the loop on a batch with records that are not all withheld.\<close>

lemma filter_batches_step:
  assumes inv: "loop_inv aborted prev lo pend opened" and srt: "sorted (map first_offset aborted)"
    and srtb: "sorted (lo # map rec_offset (batch_records b))" and recs: "lb_records b = r # rs"
    and rd: "batch_readable b" and al: "aligned aborted b" and low: "\<not> (rc \<and> lso \<le> lr_offset r)"
  shows "\<exists>kb pend' opened'.
     filter_batches_loop rc lso fo (b # bs) pend opened kept nxt =
       filter_batches_loop rc lso fo bs pend' opened' (kept @ kb) (wrap64 (lr_offset (last (r # rs)) + 1)) \<and>
     flatten kb = visible_after (visible rc aborted lso fo) prev (batch_records b) \<and>
     loop_inv aborted (prev @ batch_records b) (lr_offset (last (r # rs))) pend' opened'"
proof -
  let ?pend = "filter (\<lambda>a. lr_offset r < first_offset a) aborted" and ?open = "open_after aborted prev (lr_offset r)"
  have above: "\<forall>x\<in>set (r # rs). lr_offset r \<le> lr_offset x" and lo: "lo \<le> lr_offset r"
    using srtb recs by (auto simp: batch_records_def)
  have op: "open_aborted (lr_offset r) pend opened = (?pend, ?open)"
    by (rule loop_inv_open [OF inv srt lo])
  note inv' = loop_inv_batch [OF inv srtb recs al]
  show ?thesis
  proof (cases "lb_control b")
    case True
    have none: "visible_after (visible rc aborted lso fo) prev (batch_records b) = []"
      using True by (intro visible_after_none) (auto simp: visible_def batch_records_def)
    have "clear_markers b (r # rs) ?open =
        Inr (if lb_control b \<and> list_ex is_abort_marker (batch_records b) then ?open - {lb_producer_id b} else ?open)"
      using clear_markers_eq [of b "r # rs"] rd recs True by (simp add: batch_readable_def batch_records_def)
    then have "filter_batches_loop rc lso fo (b # bs) pend opened kept nxt =
        filter_batches_loop rc lso fo bs ?pend
          (if lb_control b \<and> list_ex is_abort_marker (batch_records b) then ?open - {lb_producer_id b} else ?open)
          (kept @ []) (wrap64 (lr_offset (last (r # rs)) + 1))"
      using low op recs True by (auto simp del: last.simps clear_markers.simps)
    moreover have "flatten [] = visible_after (visible rc aborted lso fo) prev (batch_records b)"
      by (simp add: none)
    ultimately show ?thesis using inv' by blast
  next
    case data: False
    note vis = visible_batch [OF data recs al, of rc lso fo prev]
    let ?drop = "rc \<and> lb_transactional b \<and> lb_producer_id b \<in> ?open"
    let ?k = "filter (\<lambda>x. fo \<le> lr_offset x \<and> (rc \<longrightarrow> lr_offset x < lso)) (r # rs)"
    let ?kb = "if ?drop \<or> ?k = [] then [] else [b\<lparr>lb_records := ?k\<rparr>]"
    have "filter_batches_loop rc lso fo (b # bs) pend opened kept nxt =
        filter_batches_loop rc lso fo bs ?pend ?open (kept @ ?kb) (wrap64 (lr_offset (last (r # rs)) + 1))"
      using op recs data retained [OF above, of fo rc lso]
      by (simp add: Let_def if_not_P [OF low] del: last.simps filter.simps)
    moreover have "flatten ?kb = visible_after (visible rc aborted lso fo) prev (batch_records b)"
    proof -
      let ?Q = "\<lambda>x. fo \<le> rec_offset x \<and> (rc \<longrightarrow> rec_offset x < lso)"
      have k: "batch_records (b\<lparr>lb_records := ?k\<rparr>) = filter ?Q (batch_records b)"
        by (simp add: batch_records_def filter_map comp_def recs del: filter.simps list.map)
      then have "?k = [] \<longleftrightarrow> filter ?Q (batch_records b) = []"
        by (metis (no_types, lifting) batch_records_def lean_batch.select_convs(6) lean_batch.surjective
            lean_batch.update_convs(6) map_is_Nil_conv)
      with k vis recs above show ?thesis by (simp del: filter.simps)
    qed
    ultimately show ?thesis
      using inv' data by (intro exI conjI) (assumption | simp)+
  qed
qed

lemma filter_batches_loop_spec:
  assumes "loop_inv aborted prev lo pend opened" and "sorted (map first_offset aborted)"
    and "sorted (lo # map rec_offset (flatten bs))" and "list_all batch_readable bs" and "list_all (aligned aborted) bs"
  shows "\<exists>ks. filter_batches_loop rc lso fo bs pend opened kept nxt = Inr (kept @ ks, next_of_batches rc lso bs nxt) \<and>
     flatten ks = visible_after (visible rc aborted lso fo) prev (flatten bs)"
  using assms
proof (induction bs arbitrary: prev lo pend opened kept nxt)
  case Nil
  then show ?case by (simp add: next_of_batches_def)
next
  case (Cons b bs)
  show ?case
  proof (cases "lb_records b")
    case Nil
    with Cons.IH [OF Cons.prems(1,2)] Cons.prems(3-5) show ?thesis
      by (simp add: next_of_batches_Cons batch_records_def)
  next
    case recs: (Cons r rs)
    show ?thesis
    proof (cases "rc \<and> lso \<le> lr_offset r")
      case True
      have "\<forall>x\<in>set (batch_records b @ flatten bs). lr_offset r \<le> rec_offset x"
        using Cons.prems(3) recs by (auto simp: batch_records_def)
      with True have "visible_after (visible rc aborted lso fo) prev (batch_records b @ flatten bs) = []"
        by (intro visible_after_none) (fastforce simp: visible_def)
      with True recs show ?thesis by (simp add: next_of_batches_Cons)
    next
      case False
      let ?nxt = "wrap64 (lr_offset (last (r # rs)) + 1)"
      have srtb: "sorted (lo # map rec_offset (batch_records b))"
        using Cons.prems(3) by (auto simp: sorted_append)
      obtain kb pend' opened' where st: "filter_batches_loop rc lso fo (b # bs) pend opened kept nxt =
           filter_batches_loop rc lso fo bs pend' opened' (kept @ kb) ?nxt"
        "flatten kb = visible_after (visible rc aborted lso fo) prev (batch_records b)"
        "loop_inv aborted (prev @ batch_records b) (lr_offset (last (r # rs))) pend' opened'"
        using filter_batches_step [OF Cons.prems(1,2) srtb recs _ _ False] Cons.prems(4,5) by fastforce
      have "lr_offset (last (r # rs)) \<in> rec_offset ` set (batch_records b)"
        using recs last_in_set [of "r # rs"] by (force simp: batch_records_def simp del: last.simps)
      then have "sorted (lr_offset (last (r # rs)) # map rec_offset (flatten bs))"
        using Cons.prems(3) by (auto simp: sorted_append simp del: last.simps)
      from Cons.IH [OF st(3) Cons.prems(2) this, of "kept @ kb" ?nxt] Cons.prems(4,5)
      obtain ks where ks: "filter_batches_loop rc lso fo bs pend' opened' (kept @ kb) ?nxt =
          Inr ((kept @ kb) @ ks, next_of_batches rc lso bs ?nxt)"
        "flatten ks = visible_after (visible rc aborted lso fo) (prev @ batch_records b) (flatten bs)"
        by auto
      show ?thesis
        using st ks recs
        by (intro exI [of _ "kb @ ks"])
           (simp add: next_of_batches_Cons visible_after_append if_not_P [OF False]
             del: last.simps filter_batches_loop.simps)
    qed
  qed
qed

section \<open>What it delivers\<close>

lemma filter_batches_spec:
  assumes "sorted (map rec_offset (flatten bs))" and "list_all batch_readable bs" and "list_all (aligned aborted) bs"
  shows "\<exists>ks. filter_batches bs aborted lso isolation fo =
       Inr (ks, next_of_batches (isolation = ReadCommitted) lso bs fo) \<and>
     flatten ks = visible_after (visible (isolation = ReadCommitted) aborted lso fo) [] (flatten bs)"
proof -
  let ?rc = "isolation = ReadCommitted"
  define ab where "ab = sort_key first_offset aborted"
  define lo where "lo = Min (insert 0 (first_offset ` set ab \<union> rec_offset ` set (flatten bs))) - 1"
  have lt: "lo < x" if "x \<in> first_offset ` set ab \<union> rec_offset ` set (flatten bs)" for x
  proof -
    have "Min (insert 0 (first_offset ` set ab \<union> rec_offset ` set (flatten bs))) \<le> x"
      by (rule Min_le) (use that in auto)
    then show ?thesis by (simp add: lo_def)
  qed
  have "loop_inv ab [] lo ab {}"
    using lt by (force simp: loop_inv_def open_after_def intro: filter_True [symmetric])
  moreover have "sorted (map first_offset ab)" by (simp add: ab_def)
  moreover have "sorted (lo # map rec_offset (flatten bs))"
    using assms(1) lt by (auto intro: less_imp_le)
  moreover have "list_all (aligned ab) bs"
    using assms(3) by (simp add: aligned_def ab_def list_all_iff)
  ultimately obtain ks where "filter_batches_loop ?rc lso fo bs ab {} [] fo =
      Inr ([] @ ks, next_of_batches ?rc lso bs fo)"
    "flatten ks = visible_after (visible ?rc ab lso fo) [] (flatten bs)"
    using filter_batches_loop_spec [of ab "[]" lo ab "{}" bs ?rc lso fo "[]" fo] assms(2) by blast
  moreover have "visible ?rc ab lso fo = visible ?rc aborted lso fo"
    by (rule visible_set_cong) (simp add: ab_def)
  ultimately show ?thesis by (simp add: filter_batches_def ab_def)
qed

lemma decoded_readable:
  "decode_lean cs buffer = Inr (Some bs) \<Longrightarrow> list_all batch_readable bs"
  by (auto simp: list_all_iff batch_readable_def decode_lean_def dest: decode_lean_from_ok)

text \<open>
  C35: the two filters agree.  On the batches of any response \<open>decode_lean\<close> accepts, with offsets
  in order and no listed transaction beginning in the middle of a batch, the batch-wise filter
  does not panic and hands on, batch by batch, exactly the records the record-wise \<open>filter\<close>
  delivers from the same records laid out one after the other.
\<close>

theorem filter_batches_agrees_with_filter:
  assumes "decode_lean cs buffer = Inr (Some bs)" and "sorted (map rec_offset (flatten bs))"
    and "list_all (aligned aborted) bs"
  shows "\<exists>ks nxt. filter_batches bs aborted lso isolation fetch_offset = Inr (ks, nxt) \<and>
     flatten ks = f_records (filter_records (flatten bs) aborted lso isolation fetch_offset)"
  using filter_batches_spec [OF assms(2) decoded_readable [OF assms(1)] assms(3), of lso isolation fetch_offset]
  by (auto simp: filter_records_spec [OF assms(2)])

theorem filter_batches_agrees_with_filter_witness:
  "\<exists>bs ks nxt. decode_lean zero_codecs bad_header_batch = Inr (Some bs) \<and>
     filter_batches bs [\<lparr>ab_producer_id = 5, first_offset = 0\<rparr>] 10 ReadCommitted 0 = Inr (ks, nxt) \<and>
     flatten ks = f_records (filter_records (flatten bs) [\<lparr>ab_producer_id = 5, first_offset = 0\<rparr>] 10 ReadCommitted 0)"
  using filter_batches_agrees_with_filter [OF bad_header_batch_decodes,
      of "[\<lparr>ab_producer_id = 5, first_offset = 0\<rparr>]" 10 ReadCommitted 0] bad_header_batch_decodes
  by (simp add: batch_records_def aligned_def)

text \<open>
  A batch across the last stable offset.  When one undecided, non-transactional or
  not-aborted batch begins below the last stable offset and ends at or past it, the records at or
  past it are withheld, but the position moves past the whole batch, so the next fetch does not ask for
  them again; the record-wise filter stays at the first withheld record.
\<close>

theorem straddling_batch_skips_withheld:
  assumes "lb_records b = [r1, r2]" and "\<not> lb_control b" and "\<not> lb_transactional b"
    and "fetch_offset \<le> lr_offset r1" and "lr_offset r1 < lso" and "lso \<le> lr_offset r2"
    and "0 \<le> lr_offset r1" and "lr_offset r2 < 2 ^ 62"
  shows "filter_batches [b] [] lso ReadCommitted fetch_offset =
       Inr ([b\<lparr>lb_records := [r1]\<rparr>], lr_offset r2 + 1) \<and>
     f_records (filter_records (flatten [b]) [] lso ReadCommitted fetch_offset) = [as_record b r1] \<and>
     f_next_offset (filter_records (flatten [b]) [] lso ReadCommitted fetch_offset) = lr_offset r1 + 1"
proof -
  have "in_i64 (lr_offset r1 + 1)" "in_i64 (lr_offset r2 + 1)" using assms(5-8) by (auto simp: in_i64_def)
  then show ?thesis
    using assms by (simp add: filter_batches_def filter_records_def batch_records_def wrap64_id)
qed

definition straddling_batch :: lean_batch where
  "straddling_batch = \<lparr>lb_buffer = [], lb_base_offset = 4, lb_producer_id = 0, lb_transactional = False,
     lb_control = False,
     lb_records = map (\<lambda>i. \<lparr>lr_offset = i, lr_timestamp = 0, lr_key = (u32_max, 0), lr_value = (u32_max, 0),
       lr_headers = (0, 0), lr_header_count = 0\<rparr>) [4, 5]\<rparr>"

theorem straddling_batch_skips_withheld_witness:
  "\<exists>ks. filter_batches [straddling_batch] [] 5 ReadCommitted 4 = Inr (ks, 6)"
  using straddling_batch_skips_withheld [of straddling_batch _ _ 4 5]
  by (simp add: straddling_batch_def)

section \<open>Positions\<close>

text \<open>The batch-wise filter as a fetch of offsets.\<close>

record batch_response =
  br_batches :: "lean_batch list"
  br_aborted :: "aborted_transaction list"
  br_lso :: int

definition fetch_batch_offsets :: "isolation_level \<Rightarrow> int \<Rightarrow> batch_response \<Rightarrow> int list \<times> int" where
  "fetch_batch_offsets isolation pos x =
     (case filter_batches (br_batches x) (br_aborted x) (br_lso x) isolation pos of
        Inl _ \<Rightarrow> ([], pos)
      | Inr (ks, nxt) \<Rightarrow> (map rec_offset (flatten ks), nxt))"

text \<open>
  A response to a fetch at \<open>pos\<close>: readable batches in strict offset order, each reaching \<open>pos - 1\<close> at least, offsets
  below 2^63 - 1, and no listed transaction that begins in the middle of one.
\<close>

definition covers_batches :: "int \<Rightarrow> batch_response \<Rightarrow> bool" where
  "covers_batches pos x \<longleftrightarrow>
     list_all batch_readable (br_batches x) \<and> list_all (aligned (br_aborted x)) (br_batches x) \<and>
     sorted_wrt (<) (map rec_offset (flatten (br_batches x))) \<and>
     list_all (\<lambda>r. 0 \<le> rec_offset r \<and> rec_offset r < 2 ^ 63 - 1) (flatten (br_batches x)) \<and>
     list_all (\<lambda>b. lb_records b \<noteq> [] \<longrightarrow> pos \<le> lr_offset (last (lb_records b)) + 1) (br_batches x)"

definition seen_batches :: "bool \<Rightarrow> int \<Rightarrow> lean_batch list \<Rightarrow> lean_batch list" where
  "seen_batches rc lso bs = takeWhile (\<lambda>b. \<not> (rc \<and> lso \<le> lr_offset (hd (lb_records b))))
     (filter (\<lambda>b. lb_records b \<noteq> []) bs)"

lemma next_of_batches_seen:
  "next_of_batches rc lso bs nxt =
     (if seen_batches rc lso bs = [] then nxt
      else wrap64 (lr_offset (last (lb_records (last (seen_batches rc lso bs)))) + 1))"
  by (simp add: next_of_batches_def seen_batches_def Let_def)

lemma flatten_nonempty: "flatten (filter (\<lambda>b. lb_records b \<noteq> []) bs) = flatten bs"
  by (induction bs) (auto simp: batch_records_def)

lemma flatten_mem: "b \<in> set bs \<Longrightarrow> r \<in> set (lb_records b) \<Longrightarrow> as_record b r \<in> set (flatten bs)"
  by (induction bs) (auto simp: batch_records_def)

lemma flatten_seen_prefix: "\<exists>ys. flatten bs = flatten (seen_batches rc lso bs) @ ys"
proof -
  let ?xs = "filter (\<lambda>b. lb_records b \<noteq> []) bs" and ?P = "\<lambda>b. \<not> (rc \<and> lso \<le> lr_offset (hd (lb_records b)))"
  have "flatten bs = flatten (takeWhile ?P ?xs @ dropWhile ?P ?xs)"
    by (simp only: takeWhile_dropWhile_id flatten_nonempty)
  then show ?thesis unfolding seen_batches_def flatten_simps(3) by blast
qed

lemma visible_in_seen:
  assumes "sorted (map rec_offset (flatten bs))" and "x \<in> set (flatten bs)" and "rc \<longrightarrow> rec_offset x < lso"
  shows "x \<in> set (flatten (seen_batches rc lso bs))"
proof -
  let ?xs = "filter (\<lambda>b. lb_records b \<noteq> []) bs"
  obtain b where b: "b \<in> set ?xs" "x \<in> set (batch_records b)"
    using assms(2) by (subst (asm) flatten_nonempty [symmetric]) (auto simp: flatten_def)
  then obtain ys zs where xs: "?xs = ys @ b # zs" by (meson split_list)
  have ne: "\<forall>c\<in>set ?xs. lb_records c \<noteq> []" by simp
  have srt: "sorted (map rec_offset (flatten ys @ batch_records b))"
    using assms(1) unfolding flatten_nonempty [of bs, symmetric] xs by (auto simp: sorted_append)
  have "lr_offset (hd (lb_records c)) \<le> rec_offset x" if "c \<in> set ys" for c
  proof -
    have "lb_records c \<noteq> []" using ne that xs by simp
    then have "as_record c (hd (lb_records c)) \<in> set (flatten ys)"
      using that by (intro flatten_mem) auto
    then show ?thesis using srt b(2) by (auto simp: sorted_append)
  qed
  moreover have "lr_offset (hd (lb_records b)) \<le> rec_offset x"
    using srt b(2) by (cases "lb_records b") (auto simp: sorted_append batch_records_def)
  ultimately have "b \<in> set (seen_batches rc lso bs)"
    unfolding seen_batches_def xs using assms(3) by (subst takeWhile_append2) (fastforce, fastforce)
  with b(2) show ?thesis by (auto simp: flatten_def)
qed

lemma seen_batches_mem: "b \<in> set (seen_batches rc lso bs) \<Longrightarrow> b \<in> set bs \<and> lb_records b \<noteq> []"
  unfolding seen_batches_def by (drule set_takeWhileD) simp

lemma last_seen:
  assumes "sorted (map rec_offset (flatten bs))" and "x \<in> set (flatten (seen_batches rc lso bs))"
  shows "rec_offset x \<le> lr_offset (last (lb_records (last (seen_batches rc lso bs))))"
proof -
  let ?s = "seen_batches rc lso bs"
  obtain ys where "flatten bs = flatten ?s @ ys" using flatten_seen_prefix by blast
  then have srt: "sorted (map rec_offset (flatten ?s))" using assms(1) by (simp add: sorted_append)
  have ne: "?s \<noteq> []" using assms(2) by auto
  then have "lb_records (last ?s) \<noteq> []"
    using seen_batches_mem last_in_set by blast
  moreover have "flatten ?s = flatten (butlast ?s) @ batch_records (last ?s)"
    by (subst append_butlast_last_id [OF ne, symmetric]) (simp only: flatten_simps append_Nil2)
  ultimately have "last (map rec_offset (flatten ?s)) = lr_offset (last (lb_records (last ?s)))"
    by (simp add: batch_records_def last_map)
  with sorted_last_ge [OF srt, of "rec_offset x"] assms(2) show ?thesis by simp
qed

interpretation fbo: offset_fetch "fetch_batch_offsets isolation" covers_batches
proof
  fix pos x offs pos' off
  assume ok: "covers_batches pos x" and f: "fetch_batch_offsets isolation pos x = (offs, pos')"
  let ?rc = "isolation = ReadCommitted" and ?bs = "br_batches x"
  let ?seen = "seen_batches ?rc (br_lso x) ?bs"
  have strict: "sorted_wrt (<) (map rec_offset (flatten ?bs))" using ok by (simp add: covers_batches_def)
  then have srt: "sorted (map rec_offset (flatten ?bs))" by (simp add: strict_sorted_iff)
  have offs: "offs = map rec_offset (visible_after (visible ?rc (br_aborted x) (br_lso x) pos) [] (flatten ?bs))"
    and nxt: "pos' = next_of_batches ?rc (br_lso x) ?bs pos"
    using filter_batches_spec [OF srt, of "br_aborted x" "br_lso x" isolation pos] ok f
    by (auto simp: covers_batches_def fetch_batch_offsets_def)
  show "sorted_wrt (<) offs" unfolding offs by (rule visible_after_subseq [OF strict])
  have last: "pos' = lr_offset (last (lb_records (last ?seen))) + 1 \<and> pos \<le> pos'" if ne: "?seen \<noteq> []"
  proof -
    have l: "last ?seen \<in> set ?bs" "lb_records (last ?seen) \<noteq> []"
      using seen_batches_mem last_in_set ne by blast+
    then have "as_record (last ?seen) (last (lb_records (last ?seen))) \<in> set (flatten ?bs)"
      by (intro flatten_mem) auto
    then have "in_i64 (lr_offset (last (lb_records (last ?seen))) + 1)"
      using ok by (fastforce simp: covers_batches_def list_all_iff in_i64_def)
    then show ?thesis using nxt ne l ok by (auto simp: next_of_batches_seen wrap64_id covers_batches_def list_all_iff)
  qed
  show "pos \<le> pos'" using last nxt by (cases "?seen = []") (simp_all add: next_of_batches_seen)
  assume "off \<in> set offs"
  then obtain r p where r: "r \<in> set (flatten ?bs)" "off = rec_offset r"
    and v: "visible ?rc (br_aborted x) (br_lso x) pos p r"
    unfolding offs by (auto dest!: visible_after_sat)
  have seen: "r \<in> set (flatten ?seen)"
    by (rule visible_in_seen [OF srt r(1)]) (use v in \<open>auto simp: visible_def\<close>)
  then have "?seen \<noteq> []" by auto
  then have "pos' = lr_offset (last (lb_records (last ?seen))) + 1" using last by blast
  with last_seen [OF srt seen] v r(2) show "pos \<le> off \<and> off < pos'"
    by (auto simp: visible_def)
qed

text \<open>
  No record twice, batch-wise.  Over any number of fetches through the batch-wise filter, each
  asked at the position the previous one returned, the offsets delivered are strictly increasing
  and the position never moves back, under the same proviso as for the record-wise filter.
\<close>

theorem filter_batches_never_redelivers:
  assumes "polls_ok (fetch_batch_offsets isolation) covers_batches pos responses"
    and "poll_all (fetch_batch_offsets isolation) pos responses = (offs, pos')"
  shows "sorted_wrt (<) offs \<and> (\<forall>off\<in>set offs. pos \<le> off \<and> off < pos') \<and> pos \<le> pos'"
  by (rule fbo.polls_increasing [OF assms])

theorem filter_batches_never_redelivers_witness:
  "sorted_wrt (<) (fst (poll_all (fetch_batch_offsets ReadCommitted) 4
     [\<lparr>br_batches = [straddling_batch], br_aborted = [], br_lso = 9\<rparr>]))"
proof -
  let ?xs = "[\<lparr>br_batches = [straddling_batch], br_aborted = [], br_lso = 9\<rparr>]"
  have "polls_ok (fetch_batch_offsets ReadCommitted) covers_batches 4 ?xs"
    by (simp add: covers_batches_def straddling_batch_def batch_readable_def lean_ok_def range_ok_def
        aligned_def batch_records_def next_of_batches_def wrap64_def)
  from filter_batches_never_redelivers [OF this surjective_pairing] show ?thesis by blast
qed

section \<open>Reading a broker's log\<close>

text \<open>
  The batches of a partition's log as the broker holds them, none of them empty, and its answer to a fetch: whole batches of the log in order,
  from the one that holds the position on, as many as it likes.
\<close>

definition log_ok :: "lean_batch list \<Rightarrow> bool" where
  "log_ok log \<longleftrightarrow> list_all (\<lambda>b. lb_records b \<noteq> []) log \<and> sorted_wrt (<) (map rec_offset (flatten log)) \<and>
     list_all (\<lambda>r. 0 \<le> rec_offset r \<and> rec_offset r < 2 ^ 63 - 1) (flatten log)"

definition serves :: "lean_batch list \<Rightarrow> int \<Rightarrow> batch_response \<Rightarrow> bool" where
  "serves log pos x \<longleftrightarrow>
     (\<exists>n. br_batches x = take n (dropWhile (\<lambda>b. lr_offset (last (lb_records b)) < pos) log)) \<and>
     list_all (aligned (br_aborted x)) (br_batches x)"

text \<open>The offsets of the log's records that are not control markers.\<close>

definition data_offsets :: "lean_batch list \<Rightarrow> int list" where
  "data_offsets bs = map rec_offset (filter (\<lambda>r. \<not> rec_control r) (flatten bs))"

lemma data_offsets_append [simp]: "data_offsets (xs @ ys) = data_offsets xs @ data_offsets ys"
  by (simp add: data_offsets_def)

lemma data_offsets_subset: "set (data_offsets bs) \<subseteq> rec_offset ` set (flatten bs)"
  by (auto simp: data_offsets_def)

lemma servesE:
  assumes "serves log pos x"
  obtains ys zs where "log = ys @ br_batches x @ zs" "\<And>b. b \<in> set ys \<Longrightarrow> lr_offset (last (lb_records b)) < pos"
    "br_batches x \<noteq> [] \<Longrightarrow> pos \<le> lr_offset (last (lb_records (hd (br_batches x))))"
proof -
  let ?P = "\<lambda>b. lr_offset (last (lb_records b)) < pos"
  obtain n where n: "br_batches x = take n (dropWhile ?P log)" using assms by (auto simp: serves_def)
  show thesis
  proof (rule that)
    show "log = takeWhile ?P log @ br_batches x @ drop n (dropWhile ?P log)" by (simp add: n)
    show "\<And>b. b \<in> set (takeWhile ?P log) \<Longrightarrow> ?P b" by (rule set_takeWhileD [THEN conjunct2])
    assume "br_batches x \<noteq> []"
    then have "hd (br_batches x) = hd (dropWhile ?P log)" "dropWhile ?P log \<noteq> []" by (auto simp: n)
    then show "pos \<le> lr_offset (last (lb_records (hd (br_batches x))))" using hd_dropWhile [of ?P log] by simp
  qed
qed

lemma batch_last_ge:
  assumes "sorted_wrt (<) (map rec_offset (flatten (xs @ b # ys)))" and "lb_records b \<noteq> []" and "r \<in> set (flatten xs) \<union> set (batch_records b)"
  shows "rec_offset r \<le> lr_offset (last (lb_records b))"
proof -
  have "sorted_wrt (<) (map rec_offset (flatten xs @ batch_records b))" using assms(1) by (auto simp: sorted_wrt_append)
  then have "sorted (map rec_offset (flatten xs @ batch_records b))" by (rule strict_sorted_imp_sorted)
  moreover have "last (map rec_offset (flatten xs @ batch_records b)) = lr_offset (last (lb_records b))"
    using assms(2) by (simp add: batch_records_def last_map)
  ultimately show ?thesis using sorted_last_ge [of "map rec_offset (flatten xs @ batch_records b)" "rec_offset r"] assms(3) by auto
qed

lemma serves_covers:
  assumes "log_ok log" and "serves log pos x" and "list_all batch_readable (br_batches x)"
  shows "covers_batches pos x"
proof -
  obtain ys zs where l: "log = ys @ br_batches x @ zs"
    "br_batches x \<noteq> [] \<Longrightarrow> pos \<le> lr_offset (last (lb_records (hd (br_batches x))))" using servesE [OF assms(2)] by metis
  have s: "sorted_wrt (<) (map rec_offset (flatten (br_batches x)))" "list_all (\<lambda>b. lb_records b \<noteq> []) (br_batches x)"
    "list_all (\<lambda>r. 0 \<le> rec_offset r \<and> rec_offset r < 2 ^ 63 - 1) (flatten (br_batches x))"
    using assms(1) l(1) by (simp_all add: log_ok_def sorted_wrt_append)
  have "pos \<le> lr_offset (last (lb_records b)) + 1" if b: "b \<in> set (br_batches x)" for b
  proof -
    obtain us vs where u: "br_batches x = us @ b # vs" using b by (meson split_list)
    have ne: "lb_records b \<noteq> []" "lb_records (hd (br_batches x)) \<noteq> []" using s(2) u by (cases us; simp)+
    let ?h = "as_record (hd (br_batches x)) (last (lb_records (hd (br_batches x))))"
    have "?h \<in> set (flatten us) \<union> set (batch_records b)"
      using ne(2) by (cases us) (auto simp: u batch_records_def)
    from batch_last_ge [OF s(1) [unfolded u] ne(1) this] l(2) u show ?thesis by simp
  qed
  then show ?thesis using assms(2,3) s by (simp add: covers_batches_def serves_def list_all_iff)
qed

lemma filter_interval:
  assumes "sorted_wrt (<) ds" and "a \<le> b" and "b \<le> (c :: int)"
  shows "filter (\<lambda>d. a \<le> d \<and> d < b) ds @ filter (\<lambda>d. b \<le> d \<and> d < c) ds = filter (\<lambda>d. a \<le> d \<and> d < c) ds"
  using assms(1)
proof (induction ds)
  case (Cons d ds)
  show ?case
  proof (cases "d < b")
    case True
    with Cons assms(2,3) show ?thesis by auto
  next
    case False
    with Cons.prems have "filter (\<lambda>d. a \<le> d \<and> d < b) ds = []" by (auto simp: filter_empty_conv)
    moreover from this Cons have "filter (\<lambda>d. b \<le> d \<and> d < c) ds = filter (\<lambda>d. a \<le> d \<and> d < c) ds" by simp
    ultimately show ?thesis using False assms(2) by auto
  qed
qed simp

lemma visible_after_filter: "visible_after (\<lambda>_. Q) prev rs = filter Q rs"
  by (induction rs arbitrary: prev) simp_all

lemma serves_exact:
  assumes "log_ok log" and "serves log pos x" and "list_all batch_readable (br_batches x)"
    and "fetch_batch_offsets ReadUncommitted pos x = (offs, pos')"
  shows "offs = filter (\<lambda>off. pos \<le> off \<and> off < pos') (data_offsets log)"
proof -
  let ?bs = "br_batches x"
  obtain ys zs where l: "log = ys @ ?bs @ zs" and before: "\<And>b. b \<in> set ys \<Longrightarrow> lr_offset (last (lb_records b)) < pos"
    using servesE [OF assms(2)] by metis
  have strict: "sorted_wrt (<) (map rec_offset (flatten ys @ flatten ?bs @ flatten zs))" and ne: "list_all (\<lambda>b. lb_records b \<noteq> []) log"
    and small: "list_all (\<lambda>r. 0 \<le> rec_offset r \<and> rec_offset r < 2 ^ 63 - 1) (flatten log)"
    using assms(1) by (simp_all add: log_ok_def l)
  then have srt: "sorted (map rec_offset (flatten ?bs))" by (simp add: sorted_wrt_append strict_sorted_imp_sorted)
  have "visible False (br_aborted x) (br_lso x) pos = (\<lambda>_ r. \<not> rec_control r \<and> pos \<le> rec_offset r)"
    by (intro ext) (simp add: visible_def)
  then have offs: "offs = filter (\<lambda>off. pos \<le> off) (data_offsets ?bs)" and nxt: "pos' = next_of_batches False (br_lso x) ?bs pos"
    using filter_batches_spec [OF srt assms(3), of "br_aborted x" "br_lso x" ReadUncommitted pos] assms(2,4)
    by (auto simp: serves_def fetch_batch_offsets_def visible_after_filter data_offsets_def filter_map comp_def conj_commute)
  have low: "rec_offset r < pos" if r: "r \<in> set (flatten ys)" for r
  proof -
    obtain b where b: "b \<in> set ys" "r \<in> set (batch_records b)" using r by (auto simp: flatten_def)
    then obtain us vs where u: "ys = us @ b # vs" by (meson split_list)
    have "lb_records b \<noteq> []" using ne l b(1) by (simp add: list_all_iff)
    moreover have "sorted_wrt (<) (map rec_offset (flatten (us @ b # vs)))"
      using strict unfolding u [symmetric] map_append sorted_wrt_append by blast
    ultimately show ?thesis using batch_last_ge [of us b vs r] b before [OF b(1)] by fastforce
  qed
  have high: "(\<forall>r\<in>set (flatten ?bs). rec_offset r < pos') \<and> (\<forall>r\<in>set (flatten zs). pos' \<le> rec_offset r)" if "?bs \<noteq> []"
  proof -
    let ?b = "last ?bs"
    have u: "?bs = butlast ?bs @ ?b # []" using that by simp
    have nb: "lb_records ?b \<noteq> []" "?b \<in> set log" using ne l that by (auto simp: list_all_iff)
    let ?r = "as_record ?b (last (lb_records ?b))"
    have m: "?r \<in> set (flatten ?bs)" using nb(1) that by (intro flatten_mem) auto
    then have "?r \<in> set (flatten log)" by (simp add: l)
    then have "0 \<le> rec_offset ?r \<and> rec_offset ?r < 2 ^ 63 - 1" using small unfolding list_all_iff by blast
    then have "in_i64 (lr_offset (last (lb_records ?b)) + 1)" by (simp add: in_i64_def)
    moreover have "seen_batches False (br_lso x) ?bs = ?bs" using ne l by (simp add: seen_batches_def list_all_iff filter_id_conv)
    ultimately have p: "pos' = lr_offset (last (lb_records ?b)) + 1" using nxt that by (simp add: next_of_batches_seen wrap64_id)
    have "sorted_wrt (<) (map rec_offset (flatten (butlast ?bs @ ?b # [])))"
      using strict unfolding u [symmetric] map_append sorted_wrt_append by blast
    from batch_last_ge [OF this nb(1)] have "\<forall>r\<in>set (flatten ?bs). rec_offset r \<le> lr_offset (last (lb_records ?b))"
      by (subst u) auto
    moreover have "\<forall>r\<in>set (flatten zs). lr_offset (last (lb_records ?b)) < rec_offset r"
      using strict m by (fastforce simp: sorted_wrt_append)
    ultimately show ?thesis by (auto simp: p)
  qed
  have "filter (\<lambda>off. pos \<le> off \<and> off < pos') (data_offsets ys) = []"
    using low data_offsets_subset [of ys] by (fastforce simp: filter_empty_conv)
  moreover have "filter (\<lambda>off. pos \<le> off \<and> off < pos') (data_offsets ?bs) = offs \<and> filter (\<lambda>off. pos \<le> off \<and> off < pos') (data_offsets zs) = []"
  proof (cases "?bs = []")
    case True
    then have "pos' = pos" "offs = []" using nxt offs by (simp_all add: next_of_batches_def data_offsets_def)
    then show ?thesis by (simp add: True data_offsets_def filter_empty_conv)
  next
    case False
    from high [OF this] data_offsets_subset [of ?bs] data_offsets_subset [of zs] show ?thesis
      unfolding offs by (fastforce intro!: filter_cong simp: filter_empty_conv)
  qed
  ultimately show ?thesis by (simp add: l)
qed

lemma polls_serve_covers:
  "log_ok log \<Longrightarrow> polls_ok (fetch_batch_offsets isolation) (serves log) pos xs \<Longrightarrow> list_all (\<lambda>x. list_all batch_readable (br_batches x)) xs \<Longrightarrow>
   polls_ok (fetch_batch_offsets isolation) covers_batches pos xs"
  by (induction xs arbitrary: pos) (auto intro: serves_covers)

text \<open>Over any number of answers, what is delivered without READ_COMMITTED is the log between the two positions.\<close>

lemma polls_serve_exact:
  assumes "log_ok log" and "polls_ok (fetch_batch_offsets ReadUncommitted) (serves log) pos xs"
    and "list_all (\<lambda>x. list_all batch_readable (br_batches x)) xs" and "poll_all (fetch_batch_offsets ReadUncommitted) pos xs = (offs, pos')"
  shows "offs = filter (\<lambda>off. pos \<le> off \<and> off < pos') (data_offsets log)"
  using assms(2-4)
proof (induction xs arbitrary: pos offs)
  case Nil
  then show ?case by (simp add: filter_empty_conv)
next
  case (Cons x xs)
  obtain o1 p1 where f: "fetch_batch_offsets ReadUncommitted pos x = (o1, p1)" by force
  obtain o2 where r: "poll_all (fetch_batch_offsets ReadUncommitted) p1 xs = (o2, pos')" and offs: "offs = o1 @ o2"
    using Cons.prems(3) f by (auto split: prod.splits)
  have ok: "serves log pos x" "polls_ok (fetch_batch_offsets ReadUncommitted) (serves log) p1 xs" "list_all batch_readable (br_batches x)"
    "list_all (\<lambda>x. list_all batch_readable (br_batches x)) xs" using Cons.prems(1,2) f by auto
  have "pos \<le> p1" using fbo.forward [OF serves_covers [OF assms(1) ok(1,3)] f] .
  moreover have "p1 \<le> pos'" using fbo.polls_increasing [OF polls_serve_covers [OF assms(1) ok(2,4)] r] by blast
  moreover have "sorted_wrt (<) (data_offsets log)"
    using assms(1) by (simp add: data_offsets_def log_ok_def sorted_wrt_map sorted_wrt_filter)
  ultimately show ?case
    using filter_interval [of "data_offsets log" pos p1 pos'] serves_exact [OF assms(1) ok(1,3) f] Cons.IH [OF ok(2,4) r] offs by simp
qed

end
