(* ===== verification/Consumer_Client.thy ===== *)
theory Consumer_Client
  imports Group_Client Batch_Filter
begin

text \<open>
  The consumer, \<^verbatim>\<open>barnabas-client/src/consumer.rs\<close>: positions, pausing, fetch sessions, one fetch per broker with
  the next one kept in flight, offset lookups, and group membership driven from \<open>poll\<close>.

  What it calls of the cluster layer is the record \<open>'w consumer_ops\<close>, its state \<open>'w\<close> threaded through; it holds the
  \<open>group_ops\<close> of \<open>Group_Client\<close> as well, since both use the same cluster.  A rebalance listener is the list
  of the calls it has received.  \<^verbatim>\<open>RecordBatchDecoder::decode\<close> of the \<^verbatim>\<open>kafka-protocol\<close> crate is
  a parameter that says how many bytes past the twelve of the length prefix it consumed.
  The generation is a \<^verbatim>\<open>u64\<close> counted up once per call, a \<open>nat\<close> here.  Durations are in milliseconds.

  Shown in \<open>Consumer_Laws\<close>.
\<close>

section \<open>Messages\<close>

record list_offsets_part =
  lp_index :: int
  lp_error_code :: int
  lp_timestamp :: int
  lp_offset :: int

record list_offsets_request =
  lq_isolation :: int
  lq_topics :: "(string \<times> (int \<times> int) list) list"

type_synonym list_offsets_response = "(string \<times> list_offsets_part list) list"

record fetch_part =
  fq_partition :: int
  fq_fetch_offset :: int
  fq_max_bytes :: int
  fq_current_leader_epoch :: int
  fq_log_start_offset :: int

record fetch_request =
  fr_max_wait_ms :: int
  fr_min_bytes :: int
  fr_max_bytes :: int
  fr_isolation :: int
  fr_session_id :: int
  fr_session_epoch :: int
  fr_topics :: "(string \<times> fetch_part list) list"

record partition_data =
  pa_index :: int
  pa_error_code :: int
  pa_last_stable_offset :: int
  pa_aborted :: "aborted_transaction list option"
  pa_records :: "bytes option"

record fetch_reply =
  fs_error_code :: int
  fs_session_id :: int
  fs_responses :: "(string \<times> partition_data list) list"

record 'w consumer_ops =
  co_leader_addr :: "'w \<Rightarrow> string \<Rightarrow> int \<Rightarrow> (client_error + string) \<times> 'w"
  co_refresh_metadata :: "'w \<Rightarrow> string \<Rightarrow> (client_error + unit) \<times> 'w"
  co_is_stale :: "'w \<Rightarrow> string \<Rightarrow> bool"
  co_refresh_if_stale :: "'w \<Rightarrow> string \<Rightarrow> (client_error + (int \<times> int) option) \<times> 'w"
  co_invalidate :: "'w \<Rightarrow> string \<Rightarrow> int \<Rightarrow> 'w"
  co_list_offsets :: "'w \<Rightarrow> string \<Rightarrow> list_offsets_request \<Rightarrow> (client_error + list_offsets_response) \<times> 'w"
  co_send_fetch :: "'w \<Rightarrow> string \<Rightarrow> fetch_request \<Rightarrow> (client_error + unit) \<times> 'w"
  co_recv_fetches :: "'w \<Rightarrow> string list \<Rightarrow> (client_error + fetch_reply) list \<times> 'w"
  co_discard :: "'w \<Rightarrow> string list \<Rightarrow> 'w"
  co_sleep :: "'w \<Rightarrow> nat \<Rightarrow> 'w"
  co_now :: "'w \<Rightarrow> nat"
  co_codecs :: codecs
  co_decode_set :: "bytes \<Rightarrow> string + krecord list \<times> nat"
  co_group :: "'w group_ops"

section \<open>State\<close>

definition EARLIEST :: int where "EARLIEST = - 2"
definition LATEST :: int where "LATEST = - 1"
definition MAX_LEADER_RETRIES :: nat where "MAX_LEADER_RETRIES = 5"
definition LEADER_BACKOFF :: nat where "LEADER_BACKOFF = 100"
definition FETCH_SESSION_ID_NOT_FOUND :: int where "FETCH_SESSION_ID_NOT_FOUND = 70"
definition INVALID_FETCH_SESSION_EPOCH :: int where "INVALID_FETCH_SESSION_EPOCH = 71"

record fetch_session =
  ss_id :: int
  ss_epoch :: int
  ss_known :: "(partition_key, int) btree"

definition session_reset :: "fetch_session \<Rightarrow> fetch_session" where
  "session_reset s = s\<lparr>ss_id := 0, ss_epoch := 0, ss_known := []\<rparr>"

definition default_session :: fetch_session where
  "default_session = \<lparr>ss_id = 0, ss_epoch = 0, ss_known = []\<rparr>"

record consumer_records =
  cr_topic :: string
  cr_partition :: int
  cr_batches :: "lean_batch list"
  cr_fallback :: "krecord list"

datatype record_ref = LeanRef lean_batch lean_record | FullRef krecord

definition records_iter :: "consumer_records \<Rightarrow> record_ref list" where
  "records_iter cr = concat (map (\<lambda>b. map (LeanRef b) (lb_records b)) (cr_batches cr)) @ map FullRef (cr_fallback cr)"

definition records_len :: "consumer_records \<Rightarrow> nat" where
  "records_len cr = sum_list (map (\<lambda>b. length (lb_records b)) (cr_batches cr)) + length (cr_fallback cr)"

definition records_is_empty :: "consumer_records \<Rightarrow> bool" where
  "records_is_empty cr \<longleftrightarrow> records_len cr = 0"

fun ref_offset :: "record_ref \<Rightarrow> int" where
  "ref_offset (LeanRef b r) = lr_offset r"
| "ref_offset (FullRef r) = rec_offset r"

fun ref_key :: "record_ref \<Rightarrow> core_error failure + bytes option" where
  "ref_key (LeanRef b r) = lean_key b r"
| "ref_key (FullRef r) = Inr (rec_key r)"

fun ref_value :: "record_ref \<Rightarrow> core_error failure + bytes option" where
  "ref_value (LeanRef b r) = lean_value b r"
| "ref_value (FullRef r) = Inr (rec_value r)"

datatype rebalance_event = OnRevoked "topic_partition list" | OnAssigned "topic_partition list"

record outstanding_fetch =
  ot_groups :: "(string \<times> partition_key list) list"
  ot_generation :: nat

record consumer =
  cs_positions :: "(partition_key, int) btree"
  cs_isolation :: isolation_level
  cs_max_wait :: nat
  cs_max_bytes :: int
  cs_max_response_bytes :: int
  cs_sessions :: "(string, fetch_session) btree"
  cs_incremental :: bool
  cs_outstanding :: "outstanding_fetch option"
  cs_prefetch :: bool
  cs_group :: "classic_protocol option"
  cs_reset :: int
  cs_auto_commit :: "nat option"
  cs_last_auto_commit :: "nat option"
  cs_listener :: "rebalance_event list option"
  cs_group_timeouts :: "(nat \<times> nat) option"
  cs_paused :: "(partition_key, unit) btree"
  cs_expansions :: "(string, int \<times> int) btree"
  cs_generation :: nat

definition new_consumer :: "isolation_level \<Rightarrow> consumer" where
  "new_consumer isolation =
     \<lparr>cs_positions = [], cs_isolation = isolation, cs_max_wait = 500, cs_max_bytes = 10 * 1024 * 1024,
      cs_max_response_bytes = 64 * 1024 * 1024, cs_sessions = [], cs_incremental = True, cs_outstanding = None,
      cs_prefetch = True, cs_group = None, cs_reset = EARLIEST, cs_auto_commit = None, cs_last_auto_commit = None,
      cs_listener = None, cs_group_timeouts = None, cs_paused = [], cs_expansions = [], cs_generation = 0\<rparr>"

text \<open>\<^verbatim>\<open>i32::try_from(d.as_millis()).unwrap_or(i32::MAX)\<close>.\<close>

definition millis_i32 :: "nat \<Rightarrow> int" where
  "millis_i32 d = (if int d \<le> i32_max then int d else i32_max)"

definition key_of :: "topic_partition \<Rightarrow> partition_key" where
  "key_of tp = (tp_topic tp, tp_partition tp)"

definition reset_sessions :: "consumer \<Rightarrow> consumer" where
  "reset_sessions c = c\<lparr>cs_sessions := map (\<lambda>(a, s). (a, session_reset s)) (cs_sessions c)\<rparr>"

definition bump :: "consumer \<Rightarrow> consumer" where
  "bump c = c\<lparr>cs_generation := cs_generation c + 1\<rparr>"

section \<open>Settings and accessors\<close>

definition set_auto_commit :: "consumer \<Rightarrow> nat option \<Rightarrow> consumer" where
  "set_auto_commit c interval = c\<lparr>cs_auto_commit := interval, cs_last_auto_commit := None\<rparr>"

definition set_rebalance_listener :: "consumer \<Rightarrow> consumer" where
  "set_rebalance_listener c = c\<lparr>cs_listener := Some []\<rparr>"

definition set_group_timeouts :: "consumer \<Rightarrow> nat \<Rightarrow> nat \<Rightarrow> consumer" where
  "set_group_timeouts c s r = c\<lparr>cs_group_timeouts := Some (s, r)\<rparr>"

definition set_incremental_fetch :: "consumer \<Rightarrow> bool \<Rightarrow> consumer" where
  "set_incremental_fetch c inc =
     bump (let c1 = c\<lparr>cs_incremental := inc\<rparr> in if inc then c1 else c1\<lparr>cs_sessions := []\<rparr>)"

definition set_prefetch :: "consumer \<Rightarrow> bool \<Rightarrow> consumer" where
  "set_prefetch c p = bump (c\<lparr>cs_prefetch := p\<rparr>)"

definition set_max_wait :: "consumer \<Rightarrow> nat \<Rightarrow> consumer" where
  "set_max_wait c d = bump (c\<lparr>cs_max_wait := d\<rparr>)"

definition take_expansions :: "consumer \<Rightarrow> (string \<times> int \<times> int) list \<times> consumer" where
  "take_expansions c = (cs_expansions c, c\<lparr>cs_expansions := []\<rparr>)"

definition positions_of :: "consumer \<Rightarrow> (topic_partition, int) btree" where
  "positions_of c = bt_collect (map (\<lambda>((t, p), off). (TopicPartition t p, off)) (cs_positions c))"

definition consumer_group_metadata :: "consumer \<Rightarrow> group_metadata option" where
  "consumer_group_metadata c = (case cs_group c of None \<Rightarrow> None | Some g \<Rightarrow> classic_group_metadata g)"

definition on_fetch_set_changed :: "consumer \<Rightarrow> consumer" where
  "on_fetch_set_changed c = reset_sessions (bump c)"

definition remove_partition :: "consumer \<Rightarrow> string \<Rightarrow> int \<Rightarrow> consumer" where
  "remove_partition c t p =
     reset_sessions (bump (c\<lparr>cs_positions := bt_remove (t, p) (cs_positions c), cs_paused := bt_remove (t, p) (cs_paused c)\<rparr>))"

definition pause_partitions :: "consumer \<Rightarrow> topic_partition list \<Rightarrow> consumer" where
  "pause_partitions c tps = on_fetch_set_changed (c\<lparr>cs_paused := fold (\<lambda>tp. bt_insert (key_of tp) ()) tps (cs_paused c)\<rparr>)"

definition resume_partitions :: "consumer \<Rightarrow> topic_partition list \<Rightarrow> consumer" where
  "resume_partitions c tps = on_fetch_set_changed (c\<lparr>cs_paused := fold (\<lambda>tp. bt_remove (key_of tp)) tps (cs_paused c)\<rparr>)"

definition is_paused :: "consumer \<Rightarrow> string \<Rightarrow> int \<Rightarrow> bool" where
  "is_paused c t p \<longleftrightarrow> bt_get (cs_paused c) (t, p) \<noteq> None"

definition fetchable :: "consumer \<Rightarrow> partition_key list" where
  "fetchable c = filter (\<lambda>k. bt_get (cs_paused c) k = None) (bt_keys (cs_positions c))"

definition position_of :: "consumer \<Rightarrow> string \<Rightarrow> int \<Rightarrow> int option" where
  "position_of c t p = bt_get (cs_positions c) (t, p)"

text \<open>The two that need exactly one assignment, and panic otherwise.\<close>

definition sole_position :: "consumer \<Rightarrow> unit failure + int" where
  "sole_position c = (case cs_positions c of [(_, off)] \<Rightarrow> Inr off | _ \<Rightarrow> Inl Panicked)"

definition seek_to :: "consumer \<Rightarrow> string \<Rightarrow> int \<Rightarrow> int \<Rightarrow> consumer" where
  "seek_to c t p off = bump (c\<lparr>cs_positions := bt_insert (t, p) off (cs_positions c)\<rparr>)"

definition seek :: "consumer \<Rightarrow> int \<Rightarrow> unit failure + consumer" where
  "seek c off =
     (case cs_positions c of
        [(key, _)] \<Rightarrow> Inr (bump (c\<lparr>cs_positions := bt_insert key off (cs_positions c)\<rparr>))
      | _ \<Rightarrow> Inl Panicked)"

section \<open>Fetching\<close>

definition discard_outstanding :: "'w consumer_ops \<Rightarrow> consumer \<Rightarrow> 'w \<Rightarrow> consumer \<times> 'w" where
  "discard_outstanding ops c w =
     (case cs_outstanding c of
        None \<Rightarrow> (c, w)
      | Some ot \<Rightarrow> (reset_sessions (c\<lparr>cs_outstanding := None\<rparr>), co_discard ops w (map fst (ot_groups ot))))"

text \<open>Whether the broker's session already has this partition where the consumer is.\<close>

definition already_known :: "consumer \<Rightarrow> string \<Rightarrow> partition_key \<Rightarrow> bool" where
  "already_known c a key \<longleftrightarrow>
     (case bt_get (cs_sessions c) a of
        None \<Rightarrow> False
      | Some s \<Rightarrow> cs_incremental c \<and> ss_id s \<noteq> 0 \<and> bt_get (ss_known s) key = bt_get (cs_positions c) key)"

definition build_fetch_request :: "consumer \<Rightarrow> string \<Rightarrow> partition_key list \<Rightarrow> fetch_request" where
  "build_fetch_request c a keys =
     (let by_topic = bt_group fst snd (filter (\<lambda>key. \<not> already_known c a key) keys)
      in \<lparr>fr_max_wait_ms = millis_i32 (cs_max_wait c), fr_min_bytes = 1, fr_max_bytes = cs_max_response_bytes c,
          fr_isolation = as_i8 (cs_isolation c),
          fr_session_id = (if cs_incremental c then (case bt_get (cs_sessions c) a of None \<Rightarrow> 0 | Some s \<Rightarrow> ss_id s) else 0),
          fr_session_epoch = (if cs_incremental c then (case bt_get (cs_sessions c) a of None \<Rightarrow> 0 | Some s \<Rightarrow> ss_epoch s) else - 1),
          fr_topics = map (\<lambda>(t, ps). (t, map (\<lambda>p.
            \<lparr>fq_partition = p, fq_fetch_offset = (case bt_get (cs_positions c) (t, p) of None \<Rightarrow> 0 | Some off \<Rightarrow> off),
             fq_max_bytes = cs_max_bytes c, fq_current_leader_epoch = - 1, fq_log_start_offset = - 1\<rparr>) ps)) by_topic\<rparr>)"

text \<open>The partitions by the broker that leads them; the first address that cannot be had ends it.\<close>

fun plan_fetches ::
  "'w consumer_ops \<Rightarrow> partition_key list \<Rightarrow> (string, partition_key list) btree \<Rightarrow> 'w \<Rightarrow>
   (client_error + (string, partition_key list) btree) \<times> 'w" where
  "plan_fetches ops [] m w = (Inr m, w)"
| "plan_fetches ops ((t, p) # keys) m w =
     (case co_leader_addr ops w t p of
        (Inl e, w1) \<Rightarrow> (Inl e, w1)
      | (Inr a, w1) \<Rightarrow> plan_fetches ops keys (bt_entry a [] (\<lambda>ks. ks @ [(t, p)]) m) w1)"

fun send_fetches ::
  "'w consumer_ops \<Rightarrow> (string \<times> partition_key list \<times> fetch_request) list \<Rightarrow> 'w \<Rightarrow>
   (string \<times> partition_key list) list \<times> client_error option \<times> 'w" where
  "send_fetches ops [] w = ([], None, w)"
| "send_fetches ops ((a, keys, rq) # planned) w =
     (case co_send_fetch ops w a rq of
        (Inl e, w1) \<Rightarrow> ([], Some e, w1)
      | (Inr _, w1) \<Rightarrow> (case send_fetches ops planned w1 of (sent, failure, w2) \<Rightarrow> ((a, keys) # sent, failure, w2)))"

definition issue_fetch :: "'w consumer_ops \<Rightarrow> consumer \<Rightarrow> 'w \<Rightarrow> (client_error + unit) \<times> consumer \<times> 'w" where
  "issue_fetch ops c w =
     (case plan_fetches ops (fetchable c) [] w of
        (Inl e, w1) \<Rightarrow> (Inl e, c, w1)
      | (Inr by_broker, w1) \<Rightarrow>
          (case send_fetches ops (map (\<lambda>(a, keys). (a, keys, build_fetch_request c a keys)) by_broker) w1 of
             (sent, failure, w2) \<Rightarrow>
               (case failure of None \<Rightarrow> Inr () | Some e \<Rightarrow> Inl e,
                if sent = [] then c else c\<lparr>cs_outstanding := Some \<lparr>ot_groups = sent, ot_generation = cs_generation c\<rparr>\<rparr>,
                w2)))"

definition start_prefetch :: "'w consumer_ops \<Rightarrow> consumer \<Rightarrow> 'w \<Rightarrow> consumer \<times> 'w" where
  "start_prefetch ops c w = (if cs_prefetch c \<and> fetchable c \<noteq> [] then snd (issue_fetch ops c w) else (c, w))"

section \<open>Offset lookups\<close>

definition find_offset_part :: "int \<Rightarrow> list_offsets_response \<Rightarrow> list_offsets_part option" where
  "find_offset_part part resp = find (\<lambda>p. lp_index p = part) (concat (map snd resp))"

text \<open>The attempts of \<^verbatim>\<open>0..=MAX_LEADER_RETRIES\<close>: \<open>left\<close> is how many remain after this one.\<close>

fun list_offset_loop ::
  "'w consumer_ops \<Rightarrow> string \<Rightarrow> int \<Rightarrow> list_offsets_request \<Rightarrow> nat \<Rightarrow> 'w \<Rightarrow> (client_error + int) \<times> 'w" where
  "list_offset_loop ops topic part rq left w =
     (case co_leader_addr ops w topic part of
        (Inl (NoLeader t p), w1) \<Rightarrow>
          (case left of
             0 \<Rightarrow> (Inl (NoLeader t p), w1)
           | Suc left' \<Rightarrow> list_offset_loop ops topic part rq left' (co_sleep ops w1 LEADER_BACKOFF))
      | (Inl e, w1) \<Rightarrow> (Inl e, w1)
      | (Inr a, w1) \<Rightarrow>
          (case co_list_offsets ops w1 a rq of
             (Inl e, w2) \<Rightarrow> (Inl e, w2)
           | (Inr resp, w2) \<Rightarrow>
               (case find_offset_part part resp of
                  None \<Rightarrow> (Inl (Missing ''partition''), w2)
                | Some found \<Rightarrow>
                    if disposition_of (ErrorCode (lp_error_code found)) = RefreshMetadata
                    then (let w3 = co_invalidate ops w2 topic part
                          in case left of
                               0 \<Rightarrow> (Inl (Broker ''ListOffsets'' (lp_error_code found) RefreshMetadata), w3)
                             | Suc left' \<Rightarrow>
                                 (case co_refresh_metadata ops w3 topic of
                                    (Inl e, w4) \<Rightarrow> (Inl e, w4)
                                  | (Inr _, w4) \<Rightarrow> list_offset_loop ops topic part rq left' (co_sleep ops w4 LEADER_BACKOFF)))
                    else (case check ''ListOffsets'' (lp_error_code found) of
                            Inl e \<Rightarrow> (Inl e, w2)
                          | Inr _ \<Rightarrow> (Inr (lp_offset found), w2)))))"

declare list_offset_loop.simps [simp del]

definition list_offset ::
  "'w consumer_ops \<Rightarrow> string \<Rightarrow> int \<Rightarrow> int \<Rightarrow> consumer \<Rightarrow> 'w \<Rightarrow> (client_error + int) \<times> consumer \<times> 'w" where
  "list_offset ops topic part timestamp c w =
     (case discard_outstanding ops c w of (c1, w1) \<Rightarrow>
      case list_offset_loop ops topic part
             \<lparr>lq_isolation = as_i8 (cs_isolation c1), lq_topics = [(topic, [(part, timestamp)])]\<rparr> MAX_LEADER_RETRIES w1 of
        (r, w2) \<Rightarrow> (r, c1, w2))"

text \<open>Lookups for many partitions: the leaders of what remains, asked afresh in each attempt.\<close>

type_synonym wanted_offsets = "(topic_partition \<times> int) list"

fun group_by_leader ::
  "'w consumer_ops \<Rightarrow> wanted_offsets \<Rightarrow> (string, wanted_offsets) btree \<Rightarrow> client_error option \<Rightarrow> 'w \<Rightarrow>
   (client_error + (string, wanted_offsets) btree \<times> client_error option) \<times> 'w" where
  "group_by_leader ops [] m no_leader w = (Inr (m, no_leader), w)"
| "group_by_leader ops ((tp, ts) # rest) m no_leader w =
     (case co_leader_addr ops w (tp_topic tp) (tp_partition tp) of
        (Inr a, w1) \<Rightarrow> group_by_leader ops rest (bt_entry a [] (\<lambda>xs. xs @ [(tp, ts)]) m) no_leader w1
      | (Inl (NoLeader t p), w1) \<Rightarrow> group_by_leader ops rest m (Some (NoLeader t p)) w1
      | (Inl e, w1) \<Rightarrow> (Inl e, w1))"

record lookup_state =
  lk_found :: "(topic_partition, int \<times> int) btree"
  lk_retry :: wanted_offsets
  lk_refresh :: "string list"

fun note_offsets ::
  "'w consumer_ops \<Rightarrow> wanted_offsets \<Rightarrow> (string \<times> list_offsets_part) list \<Rightarrow> lookup_state \<Rightarrow> 'w \<Rightarrow>
   (client_error + lookup_state) \<times> 'w" where
  "note_offsets ops grp [] lk w = (Inr lk, w)"
| "note_offsets ops grp ((t, part) # parts) lk w =
     (let tp = TopicPartition t (lp_index part); code = ErrorCode (lp_error_code part)
      in if is_ok code
         then note_offsets ops grp parts
                (if 0 \<le> lp_offset part
                 then lk\<lparr>lk_found := bt_insert tp (lp_offset part, lp_timestamp part) (lk_found lk)\<rparr> else lk) w
         else if disposition_of code = RefreshMetadata
         then note_offsets ops grp parts
                (lk\<lparr>lk_refresh := lk_refresh lk @ [t],
                    lk_retry := lk_retry lk @ [(tp, case map_of grp tp of None \<Rightarrow> LATEST | Some ts \<Rightarrow> ts)]\<rparr>)
                (co_invalidate ops w t (lp_index part))
         else (case check ''ListOffsets'' (lp_error_code part) of
                 Inl e \<Rightarrow> (Inl e, w)
               | Inr _ \<Rightarrow> note_offsets ops grp parts lk w))"

fun ask_leaders ::
  "'w consumer_ops \<Rightarrow> isolation_level \<Rightarrow> (string \<times> wanted_offsets) list \<Rightarrow> lookup_state \<Rightarrow> 'w \<Rightarrow>
   (client_error + lookup_state) \<times> 'w" where
  "ask_leaders ops isol [] lk w = (Inr lk, w)"
| "ask_leaders ops isol ((a, grp) # rest) lk w =
     (case co_list_offsets ops w a
             \<lparr>lq_isolation = as_i8 isol,
              lq_topics = bt_group (\<lambda>(tp, _). tp_topic tp) (\<lambda>(tp, ts). (tp_partition tp, ts)) grp\<rparr> of
        (Inl e, w1) \<Rightarrow> (Inl e, w1)
      | (Inr resp, w1) \<Rightarrow>
          (case note_offsets ops grp (concat (map (\<lambda>(t, ps). map (Pair t) ps) resp)) lk w1 of
             (Inl e, w2) \<Rightarrow> (Inl e, w2)
           | (Inr lk', w2) \<Rightarrow> ask_leaders ops isol rest lk' w2))"

fun refresh_all :: "'w consumer_ops \<Rightarrow> string list \<Rightarrow> 'w \<Rightarrow> (client_error + unit) \<times> 'w" where
  "refresh_all ops [] w = (Inr (), w)"
| "refresh_all ops (t # ts) w =
     (case co_refresh_metadata ops w t of (Inl e, w1) \<Rightarrow> (Inl e, w1) | (Inr _, w1) \<Rightarrow> refresh_all ops ts w1)"

text \<open>Partitions with no leader yet are asked again, unless they were answered or are retried already.\<close>

definition still_waiting :: "wanted_offsets \<Rightarrow> lookup_state \<Rightarrow> lookup_state" where
  "still_waiting remaining lk =
     fold (\<lambda>(tp, ts) lk.
       if bt_get (lk_found lk) tp = None \<and> tp \<notin> fst ` set (lk_retry lk) then lk\<lparr>lk_retry := lk_retry lk @ [(tp, ts)]\<rparr> else lk)
       remaining lk"

fun lookup_loop ::
  "'w consumer_ops \<Rightarrow> isolation_level \<Rightarrow> nat \<Rightarrow> wanted_offsets \<Rightarrow> (topic_partition, int \<times> int) btree \<Rightarrow> 'w \<Rightarrow>
   (client_error + (topic_partition, int \<times> int) btree) \<times> 'w" where
  "lookup_loop ops isol left remaining found w =
     (case group_by_leader ops remaining [] None w of
        (Inl e, w1) \<Rightarrow> (Inl e, w1)
      | (Inr (by_leader, no_leader), w1) \<Rightarrow>
          (case ask_leaders ops isol by_leader \<lparr>lk_found = found, lk_retry = [], lk_refresh = []\<rparr> w1 of
             (Inl e, w2) \<Rightarrow> (Inl e, w2)
           | (Inr lk, w2) \<Rightarrow>
               if no_leader \<noteq> None \<and> lk_retry lk = [] \<and> left = 0 then (Inl (the no_leader), w2)
               else
                 (let lk' = (if no_leader = None then lk else still_waiting remaining lk)
                  in if lk_retry lk' = [] then (Inr (lk_found lk'), w2)
                     else case left of
                            0 \<Rightarrow> (Inl (Broker ''ListOffsets'' (code_of NOT_LEADER_OR_FOLLOWER) RefreshMetadata), w2)
                          | Suc left' \<Rightarrow>
                              (case refresh_all ops (remdups_adj (sort (lk_refresh lk'))) w2 of
                                 (Inl e, w3) \<Rightarrow> (Inl e, w3)
                               | (Inr _, w3) \<Rightarrow>
                                   lookup_loop ops isol left' (lk_retry lk') (lk_found lk') (co_sleep ops w3 LEADER_BACKOFF)))))"

declare lookup_loop.simps [simp del]

definition list_offsets_many ::
  "'w consumer_ops \<Rightarrow> wanted_offsets \<Rightarrow> consumer \<Rightarrow> 'w \<Rightarrow>
   (client_error + (topic_partition, int \<times> int) btree) \<times> consumer \<times> 'w" where
  "list_offsets_many ops want c w =
     (case discard_outstanding ops c w of (c1, w1) \<Rightarrow>
        if want = [] then (Inr [], c1, w1)
        else case lookup_loop ops (cs_isolation c1) MAX_LEADER_RETRIES want [] w1 of (r, w2) \<Rightarrow> (r, c1, w2))"

definition just_offsets :: "client_error + (topic_partition, int \<times> int) btree \<Rightarrow> client_error + (topic_partition, int) btree" where
  "just_offsets r = (case r of Inl e \<Rightarrow> Inl e | Inr m \<Rightarrow> Inr (map (\<lambda>(tp, off, _). (tp, off)) m))"

definition end_offsets ::
  "'w consumer_ops \<Rightarrow> topic_partition list \<Rightarrow> consumer \<Rightarrow> 'w \<Rightarrow> (client_error + (topic_partition, int) btree) \<times> consumer \<times> 'w" where
  "end_offsets ops tps c w = (case list_offsets_many ops (map (\<lambda>tp. (tp, LATEST)) tps) c w of (r, s) \<Rightarrow> (just_offsets r, s))"

definition beginning_offsets ::
  "'w consumer_ops \<Rightarrow> topic_partition list \<Rightarrow> consumer \<Rightarrow> 'w \<Rightarrow> (client_error + (topic_partition, int) btree) \<times> consumer \<times> 'w" where
  "beginning_offsets ops tps c w = (case list_offsets_many ops (map (\<lambda>tp. (tp, EARLIEST)) tps) c w of (r, s) \<Rightarrow> (just_offsets r, s))"

definition offsets_for_times ::
  "'w consumer_ops \<Rightarrow> wanted_offsets \<Rightarrow> consumer \<Rightarrow> 'w \<Rightarrow> (client_error + (topic_partition, int \<times> int) btree) \<times> consumer \<times> 'w" where
  "offsets_for_times ops want c w = list_offsets_many ops want c w"

definition lag ::
  "'w consumer_ops \<Rightarrow> consumer \<Rightarrow> 'w \<Rightarrow> (client_error + (topic_partition, int) btree) \<times> consumer \<times> 'w" where
  "lag ops c w =
     (let ps = positions_of c
      in case end_offsets ops (bt_keys ps) c w of
           (Inl e, s) \<Rightarrow> (Inl e, s)
         | (Inr ends, s) \<Rightarrow>
             (Inr (List.map_filter (\<lambda>(tp, at). map_option (\<lambda>e. (tp, max (wrap64 (e - at)) 0)) (bt_get ends tp)) ps), s))"

section \<open>Assigning and subscribing\<close>

definition assign_partition ::
  "'w consumer_ops \<Rightarrow> string \<Rightarrow> int \<Rightarrow> int \<Rightarrow> consumer \<Rightarrow> 'w \<Rightarrow> (client_error + unit) \<times> consumer \<times> 'w" where
  "assign_partition ops topic part off c w =
     (case discard_outstanding ops c w of (c1, w1) \<Rightarrow>
      (case co_refresh_metadata ops w1 topic of
        (Inl e, w2) \<Rightarrow> (Inl e, c1, w2)
      | (Inr _, w2) \<Rightarrow>
          (let c2 = c1\<lparr>cs_positions := bt_insert (topic, part) off (cs_positions c1)\<rparr>
           in if off = EARLIEST \<or> off = LATEST
              then (case list_offset ops topic part off c2 w2 of
                      (Inl e, c3, w3) \<Rightarrow> (Inl e, c3, w3)
                    | (Inr resolved, c3, w3) \<Rightarrow>
                        (Inr (), bump (reset_sessions (c3\<lparr>cs_positions := bt_insert (topic, part) resolved (cs_positions c3)\<rparr>)), w3))
              else (Inr (), bump (reset_sessions c2), w2))))"

definition subscribe ::
  "'w consumer_ops \<Rightarrow> string \<Rightarrow> string list \<Rightarrow> strategy \<Rightarrow> int \<Rightarrow> consumer \<Rightarrow> 'w \<Rightarrow> consumer \<times> 'w" where
  "subscribe ops group_id ts strat reset c w =
     (case discard_outstanding ops c w of (c1, w1) \<Rightarrow>
        let protocol = new_classic group_id ts strat;
            protocol' = (case cs_group_timeouts c1 of
                           None \<Rightarrow> protocol
                         | Some (s, r) \<Rightarrow> set_rebalance_timeout (set_session_timeout protocol (millis_i32 s)) (millis_i32 r))
        in (bump (c1\<lparr>cs_positions := [], cs_paused := [], cs_reset := reset, cs_group := Some protocol'\<rparr>), w1))"

definition unsubscribe :: "'w consumer_ops \<Rightarrow> consumer \<Rightarrow> 'w \<Rightarrow> (client_error + unit) \<times> consumer \<times> 'w" where
  "unsubscribe ops c w =
     (case discard_outstanding ops c w of (c1, w1) \<Rightarrow>
        let c2 = bump (c1\<lparr>cs_positions := []\<rparr>)
        in (case cs_group c2 of
              None \<Rightarrow> (Inr (), c2, w1)
            | Some g \<Rightarrow> (case classic_leave (co_group ops) g w1 of (r, _, w2) \<Rightarrow> (r, c2\<lparr>cs_group := None\<rparr>, w2))))"

definition consumer_commit :: "'w consumer_ops \<Rightarrow> consumer \<Rightarrow> 'w \<Rightarrow> (client_error + unit) \<times> consumer \<times> 'w" where
  "consumer_commit ops c w =
     (case discard_outstanding ops c w of (c1, w1) \<Rightarrow>
      (case cs_group c1 of
        None \<Rightarrow> (Inl (Missing ''a group to commit to''), c1, w1)
      | Some g \<Rightarrow> (case commit_offsets (co_group ops) (positions_of c1) g w1 of
                     (r, g', w2) \<Rightarrow> (r, c1\<lparr>cs_group := Some g'\<rparr>, w2))))"

definition consumer_committed ::
  "'w consumer_ops \<Rightarrow> topic_partition list \<Rightarrow> consumer \<Rightarrow> 'w \<Rightarrow> (client_error + (topic_partition, int) btree) \<times> consumer \<times> 'w" where
  "consumer_committed ops tps c w =
     (case discard_outstanding ops c w of (c1, w1) \<Rightarrow>
      (case cs_group c1 of
        None \<Rightarrow> (Inl (Missing ''a group to read commits from''), c1, w1)
      | Some g \<Rightarrow> (case classic_fetch_offsets (co_group ops) tps g w1 of (r, g', w2) \<Rightarrow> (r, c1\<lparr>cs_group := Some g'\<rparr>, w2))))"

definition maybe_auto_commit :: "'w consumer_ops \<Rightarrow> consumer \<Rightarrow> 'w \<Rightarrow> (client_error + unit) \<times> consumer \<times> 'w" where
  "maybe_auto_commit ops c w =
     (case cs_auto_commit c of
        None \<Rightarrow> (Inr (), c, w)
      | Some interval \<Rightarrow>
          if (case cs_last_auto_commit c of None \<Rightarrow> False | Some at \<Rightarrow> co_now ops w - at < interval) \<or> cs_positions c = []
          then (Inr (), c, w)
          else
            (case consumer_commit ops c w of (r, c1, w1) \<Rightarrow>
               let ok = (Inr (), c1\<lparr>cs_last_auto_commit := Some (co_now ops w1)\<rparr>, w1)
               in (case r of
                     Inr _ \<Rightarrow> ok
                   | Inl (Broker op code d) \<Rightarrow> if op = ''OffsetCommit'' then ok else (Inl (Broker op code d), c1, w1)
                   | Inl e \<Rightarrow> (Inl e, c1, w1))))"

section \<open>Membership\<close>

definition notify :: "rebalance_event \<Rightarrow> consumer \<Rightarrow> consumer" where
  "notify ev c = c\<lparr>cs_listener := map_option (\<lambda>evs. evs @ [ev]) (cs_listener c)\<rparr>"

definition same_assignment :: "topic_partition list \<Rightarrow> consumer \<Rightarrow> bool" where
  "same_assignment tps c \<longleftrightarrow>
     (let wanted = bt_collect (map (\<lambda>tp. (key_of tp, ())) tps)
      in length wanted = length (cs_positions c) \<and> list_all (\<lambda>k. bt_get (cs_positions c) k \<noteq> None) (bt_keys wanted))"

definition start_at :: "(topic_partition, int) btree \<Rightarrow> int \<Rightarrow> topic_partition list \<Rightarrow> (partition_key, int) btree" where
  "start_at committed reset tps =
     fold (\<lambda>tp. bt_insert (key_of tp) (case bt_get committed tp of None \<Rightarrow> reset | Some off \<Rightarrow> off)) tps []"

definition give_up :: "topic_partition list \<Rightarrow> consumer \<Rightarrow> consumer" where
  "give_up lost c =
     c\<lparr>cs_positions := fold (\<lambda>tp. bt_remove (key_of tp)) lost (cs_positions c),
       cs_paused := fold (\<lambda>tp. bt_remove (key_of tp)) lost (cs_paused c)\<rparr>"

definition MAX_STEPS :: nat where "MAX_STEPS = 20"

text \<open>
  The loop of \<^verbatim>\<open>advance_group\<close>: whether the assignment changed.  The group is taken out of the consumer while it
  advances; a failure of the offset lookup returns before it is put back.
\<close>

fun advance_steps ::
  "'w consumer_ops \<Rightarrow> nat \<Rightarrow> bool \<Rightarrow> consumer \<Rightarrow> 'w \<Rightarrow> (client_error failure + bool) \<times> consumer \<times> 'w" where
  "advance_steps ops 0 changed c w = (Inr changed, c, w)"
| "advance_steps ops (Suc n) changed c w =
     (case cs_group c of
        None \<Rightarrow> (Inr changed, c, w)
      | Some g \<Rightarrow>
          (case advance (co_group ops) g w of
             (Inl e, g1, w1) \<Rightarrow> (Inl e, c\<lparr>cs_group := Some g1\<rparr>, w1)
           | (Inr (Assigned tps), g1, w1) \<Rightarrow>
               if same_assignment tps c then (Inr changed, c\<lparr>cs_group := Some g1\<rparr>, w1)
               else
                 (case classic_fetch_offsets (co_group ops) tps g1 w1 of
                    (Inl e, g2, w2) \<Rightarrow> (Inl (Failed e), c\<lparr>cs_group := None\<rparr>, w2)
                  | (Inr committed, g2, w2) \<Rightarrow>
                      (Inr True,
                       (notify (OnAssigned tps) (c\<lparr>cs_positions := start_at committed (cs_reset c) tps\<rparr>))\<lparr>cs_group := Some g2\<rparr>,
                       w2))
           | (Inr (Revoked lost), g1, w1) \<Rightarrow>
               advance_steps ops n (changed \<or> lost \<noteq> []) ((give_up lost (notify (OnRevoked lost) c))\<lparr>cs_group := Some g1\<rparr>) w1
           | (Inr InProgress, g1, w1) \<Rightarrow> advance_steps ops n changed (c\<lparr>cs_group := Some g1\<rparr>) w1))"

fun resolve_each ::
  "'w consumer_ops \<Rightarrow> (partition_key \<times> int) list \<Rightarrow> consumer \<Rightarrow> 'w \<Rightarrow> (client_error + unit) \<times> consumer \<times> 'w" where
  "resolve_each ops [] c w = (Inr (), c, w)"
| "resolve_each ops (((t, p), off) # rest) c w =
     (case list_offset ops t p off c w of
        (Inl e, c1, w1) \<Rightarrow> (Inl e, c1, w1)
      | (Inr resolved, c1, w1) \<Rightarrow>
          resolve_each ops rest (c1\<lparr>cs_positions := bt_insert (t, p) resolved (cs_positions c1)\<rparr>) w1)"

definition advance_group ::
  "'w consumer_ops \<Rightarrow> consumer \<Rightarrow> 'w \<Rightarrow> (client_error failure + bool) \<times> consumer \<times> 'w" where
  "advance_group ops c w =
     (case cs_group c of
        None \<Rightarrow> (Inr False, c, w)
      | Some _ \<Rightarrow>
          (case advance_steps ops MAX_STEPS False c w of
             (Inl e, s) \<Rightarrow> (Inl e, s)
           | (Inr False, s) \<Rightarrow> (Inr False, s)
           | (Inr True, c1, w1) \<Rightarrow>
               (let c2 = reset_sessions (bump c1)
                in case resolve_each ops (filter (\<lambda>(_, off). off = EARLIEST \<or> off = LATEST) (cs_positions c2)) c2 w1 of
                     (Inl e, s) \<Rightarrow> (Inl (Failed e), s)
                   | (Inr _, s) \<Rightarrow> (Inr True, s))))"

definition consumer_heartbeat ::
  "'w consumer_ops \<Rightarrow> consumer \<Rightarrow> 'w \<Rightarrow> (client_error failure + bool) \<times> consumer \<times> 'w" where
  "consumer_heartbeat ops c w = (if cs_group c = None then (Inr False, c, w) else advance_group ops c w)"

text \<open>Topics that grew: noted for an assigned consumer, a reason to rejoin for a subscribed one.\<close>

fun refresh_stale ::
  "'w consumer_ops \<Rightarrow> string list \<Rightarrow> bool \<Rightarrow> consumer \<Rightarrow> 'w \<Rightarrow> bool \<times> consumer \<times> 'w" where
  "refresh_stale ops [] grew c w = (grew, c, w)"
| "refresh_stale ops (t # ts) grew c w =
     (case co_refresh_if_stale ops w t of
        (Inr (Some (before, after)), w1) \<Rightarrow>
          if cs_group c \<noteq> None then refresh_stale ops ts True c w1
          else refresh_stale ops ts grew (c\<lparr>cs_expansions := bt_insert t (before, after) (cs_expansions c)\<rparr>) w1
      | (_, w1) \<Rightarrow> refresh_stale ops ts grew c w1)"

definition watched_topics :: "'w consumer_ops \<Rightarrow> consumer \<Rightarrow> 'w \<Rightarrow> string list" where
  "watched_topics ops c w =
     filter (co_is_stale ops w) (remdups_adj (sort
       (case cs_group c of Some g \<Rightarrow> classic_topics g | None \<Rightarrow> map fst (bt_keys (cs_positions c)))))"

definition check_for_expansion :: "'w consumer_ops \<Rightarrow> consumer \<Rightarrow> 'w \<Rightarrow> consumer \<times> 'w" where
  "check_for_expansion ops c w =
     (if watched_topics ops c w = [] then (c, w)
      else case discard_outstanding ops c w of (c1, w1) \<Rightarrow>
           case refresh_stale ops (watched_topics ops c w) False c1 w1 of (grew, c2, w2) \<Rightarrow>
             (if grew then c2\<lparr>cs_group := map_option classic_request_rejoin (cs_group c2)\<rparr> else c2, w2))"

section \<open>Polling\<close>

text \<open>The decoder of old batches: a truncated last one is left for the next fetch.\<close>

function decode_record_sets :: "'w consumer_ops \<Rightarrow> bytes \<Rightarrow> client_error + krecord list" where
  "decode_record_sets ops bs =
     (if 12 \<le> length bs then
        (let batch_length = i32_from_be [bs ! 8, bs ! 9, bs ! 10, bs ! 11]
         in if batch_length < 0
            then Inl (Core (Codec (''record batch declares a negative length: '' @ show_int batch_length)))
            else if length bs < 12 + nat batch_length then Inr []
            else
              (case co_decode_set ops bs of
                 Inl e \<Rightarrow> Inl (Core (Codec (''decode record batch: '' @ e)))
               | Inr (recs, extra) \<Rightarrow> bind_sum (decode_record_sets ops (drop (12 + extra) bs)) (\<lambda>rest. Inr (recs @ rest))))
      else Inr [])"
  by pat_completeness auto
termination
  by (relation "measure (\<lambda>(_, bs). length bs)") auto

declare decode_record_sets.simps [simp del]

definition aborted_of :: "partition_data \<Rightarrow> aborted_transaction list" where
  "aborted_of part = (case pa_aborted part of None \<Rightarrow> [] | Some xs \<Rightarrow> xs)"

definition core_fails :: "core_error failure + 'a \<Rightarrow> client_error failure + 'a" where
  "core_fails r = (case r of Inl Panicked \<Rightarrow> Inl Panicked | Inl (Failed e) \<Rightarrow> Inl (Failed (Core e)) | Inr x \<Rightarrow> Inr x)"

text \<open>What one partition's data yields, and the next offset; \<open>None\<close> when there is nothing to read.\<close>

definition read_data ::
  "'w consumer_ops \<Rightarrow> isolation_level \<Rightarrow> int \<Rightarrow> partition_data \<Rightarrow> bytes \<Rightarrow>
   client_error failure + (lean_batch list \<times> krecord list) \<times> int" where
  "read_data ops isol fetch_offset part bs =
     bind_sum (case decode_lean (co_codecs ops) bs of Inl e \<Rightarrow> Inl (Failed (Core e)) | Inr x \<Rightarrow> Inr x) (\<lambda>decoded.
       case decoded of
         None \<Rightarrow>
           bind_sum (fails (decode_record_sets ops bs)) (\<lambda>recs.
             let f = filter_records recs (aborted_of part) (pa_last_stable_offset part) isol fetch_offset
             in Inr (([], f_records f), f_next_offset f))
       | Some batches \<Rightarrow>
           bind_sum (core_fails (filter_batches batches (aborted_of part) (pa_last_stable_offset part) isol fetch_offset))
             (\<lambda>(kept, nxt). Inr ((kept, []), nxt)))"

definition read_partition ::
  "'w consumer_ops \<Rightarrow> string \<Rightarrow> partition_data \<Rightarrow> consumer \<Rightarrow> (client_error failure + consumer_records list) \<times> consumer" where
  "read_partition ops topic part c =
     (case check ''Fetch partition'' (pa_error_code part) of
        Inl e \<Rightarrow> (Inl (Failed e), c)
      | Inr _ \<Rightarrow>
          (case (bt_get (cs_positions c) (topic, pa_index part), pa_records part) of
             (Some fetch_offset, Some bs) \<Rightarrow>
               if bs = [] then (Inr [], c)
               else
                 (case read_data ops (cs_isolation c) fetch_offset part bs of
                    Inl e \<Rightarrow> (Inl e, c)
                  | Inr ((batches, recs), next_offset) \<Rightarrow>
                      (Inr (if batches = [] \<and> recs = [] then []
                            else [\<lparr>cr_topic = topic, cr_partition = pa_index part, cr_batches = batches, cr_fallback = recs\<rparr>]),
                       c\<lparr>cs_positions := bt_insert (topic, pa_index part) next_offset (cs_positions c)\<rparr>))
           | _ \<Rightarrow> (Inr [], c)))"

text \<open>The partitions of a response in order; an error ends the poll and what was read before it is not returned.\<close>

fun read_partitions ::
  "'w consumer_ops \<Rightarrow> (string \<times> partition_data) list \<Rightarrow> consumer_records list \<Rightarrow> consumer \<Rightarrow>
   (client_error failure + consumer_records list) \<times> consumer" where
  "read_partitions ops [] out c = (Inr out, c)"
| "read_partitions ops ((t, part) # rest) out c =
     (case read_partition ops t part c of
        (Inl e, c1) \<Rightarrow> (Inl e, c1)
      | (Inr recs, c1) \<Rightarrow> read_partitions ops rest (out @ recs) c1)"

definition accept_session :: "string \<Rightarrow> partition_key list \<Rightarrow> fetch_reply \<Rightarrow> consumer \<Rightarrow> consumer" where
  "accept_session a keys resp c =
     (if \<not> cs_incremental c then c
      else let s = (case bt_get (cs_sessions c) a of None \<Rightarrow> default_session | Some s \<Rightarrow> s)
           in c\<lparr>cs_sessions := bt_insert a
                  (s\<lparr>ss_id := fs_session_id resp, ss_epoch := max (wrap32 (ss_epoch s + 1)) 1,
                     ss_known := fold (\<lambda>key known.
                       case bt_get (cs_positions c) key of None \<Rightarrow> known | Some off \<Rightarrow> bt_insert key off known) keys (ss_known s)\<rparr>)
                  (cs_sessions c)\<rparr>)"

definition flat_parts :: "fetch_reply \<Rightarrow> (string \<times> partition_data) list" where
  "flat_parts resp = concat (map (\<lambda>(t, parts). map (Pair t) parts) (fs_responses resp))"

fun collect_replies ::
  "'w consumer_ops \<Rightarrow> ((string \<times> partition_key list) \<times> (client_error + fetch_reply)) list \<Rightarrow> consumer_records list \<Rightarrow>
   consumer \<Rightarrow> (client_error failure + consumer_records list) \<times> consumer" where
  "collect_replies ops [] out c = (Inr out, c)"
| "collect_replies ops (((a, keys), reply) # rest) out c =
     (case reply of
        Inl e \<Rightarrow> (Inl (Failed e), c)
      | Inr resp \<Rightarrow>
          if fs_error_code resp = FETCH_SESSION_ID_NOT_FOUND \<or> fs_error_code resp = INVALID_FETCH_SESSION_EPOCH
          then collect_replies ops rest out (c\<lparr>cs_sessions := bt_entry a default_session session_reset (cs_sessions c)\<rparr>)
          else
            (case check ''Fetch'' (fs_error_code resp) of
               Inl e \<Rightarrow> (Inl (Failed e), c)
             | Inr _ \<Rightarrow>
                 (case read_partitions ops (flat_parts resp) out (accept_session a keys resp c) of
                    (Inl e, c1) \<Rightarrow> (Inl e, c1)
                  | (Inr out', c1) \<Rightarrow> collect_replies ops rest out' c1)))"

text \<open>Collecting the outstanding fetch, one issued first if there is none that still applies.\<close>

definition collect_fetch ::
  "'w consumer_ops \<Rightarrow> consumer \<Rightarrow> 'w \<Rightarrow> (client_error failure + consumer_records list) \<times> consumer \<times> 'w" where
  "collect_fetch ops c w =
     (case cs_outstanding c of
        None \<Rightarrow> (Inl Panicked, c, w)
      | Some ot \<Rightarrow>
          (case co_recv_fetches ops w (map fst (ot_groups ot)) of
             (replies, w1) \<Rightarrow>
               (case collect_replies ops (zip (ot_groups ot) replies) [] (c\<lparr>cs_outstanding := None\<rparr>) of
                  (Inl e, c1) \<Rightarrow> (Inl e, c1, w1)
                | (Inr out, c1) \<Rightarrow> (case start_prefetch ops c1 w1 of (c2, w2) \<Rightarrow> (Inr out, c2, w2)))))"

definition poll_fetch ::
  "'w consumer_ops \<Rightarrow> consumer \<Rightarrow> 'w \<Rightarrow> (client_error failure + consumer_records list) \<times> consumer \<times> 'w" where
  "poll_fetch ops c w =
     (if fetchable c = [] then (Inr [], c, w)
      else
        (case (case cs_outstanding c of
                 Some ot \<Rightarrow> if ot_generation ot \<noteq> cs_generation c then discard_outstanding ops c w else (c, w)
               | None \<Rightarrow> (c, w)) of
           (c1, w1) \<Rightarrow>
             (case (if cs_outstanding c1 = None then issue_fetch ops c1 w1 else (Inr (), c1, w1)) of
                (Inl e, c2, w2) \<Rightarrow> (Inl (Failed e), c2, w2)
              | (Inr _, c2, w2) \<Rightarrow> collect_fetch ops c2 w2)))"

text \<open>Keeping the membership up before fetching.\<close>

definition poll_membership ::
  "'w consumer_ops \<Rightarrow> consumer \<Rightarrow> 'w \<Rightarrow> (client_error failure + unit) \<times> consumer \<times> 'w" where
  "poll_membership ops c w =
     (if cs_group c = None then (Inr (), c, w)
      else
        (case maybe_auto_commit ops c w of
           (Inl e, c1, w1) \<Rightarrow> (Inl (Failed e), c1, w1)
         | (Inr _, c1, w1) \<Rightarrow>
             (case advance_group ops c1 w1 of
                (Inl e, c2, w2) \<Rightarrow> (Inl e, c2, w2)
              | (Inr changed, c2, w2) \<Rightarrow> (Inr (), if changed then discard_outstanding ops c2 w2 else (c2, w2)))))"

definition consumer_poll ::
  "'w consumer_ops \<Rightarrow> consumer \<Rightarrow> 'w \<Rightarrow> (client_error failure + consumer_records list) \<times> consumer \<times> 'w" where
  "consumer_poll ops c w =
     (case check_for_expansion ops c w of
        (c1, w1) \<Rightarrow>
          (case poll_membership ops c1 w1 of
             (Inl e, c2, w2) \<Rightarrow> (Inl e, c2, w2)
           | (Inr _, c2, w2) \<Rightarrow> poll_fetch ops c2 w2))"

end
