(* ===== verification/Map_Items.thy ===== *)
theory Map_Items
  imports Prelude "HOL-Library.Multiset"
begin

text \<open>
  Ordered maps of lists, the shape of the client's grouping loops (\<^verbatim>\<open>entry(k).or_default().push(y)\<close>):
  their items are counted, so that a grouping is shown to lose and to double nothing.
\<close>

lemma mset_insert_items:
  "bt_wf m \<Longrightarrow>
   mset (concat (map (\<lambda>(k, ys). map (h k) ys) (bt_insert k v m))) + mset (map (h k) (case bt_get m k of None \<Rightarrow> [] | Some ys \<Rightarrow> ys)) =
   mset (concat (map (\<lambda>(k, ys). map (h k) ys) m)) + mset (map (h k) v)"
proof (induction m)
  case Nil
  then show ?case by simp
next
  case (Cons p m)
  obtain k' ys where p: "p = (k', ys)" by force
  have fresh: "bt_get m k = None" if "k \<le> k'"
    using Cons.prems that p by (force simp: bt_wf_Cons bt_get_def map_of_eq_None_iff)
  show ?case
  proof (cases k k' rule: linorder_cases)
    case less
    then show ?thesis using p fresh by (auto simp: bt_get_def)
  next
    case equal
    then show ?thesis using p by (simp add: bt_get_def)
  next
    case greater
    then have "\<not> k < k'" and "k \<noteq> k'" by auto
    with Cons p show ?thesis by (simp add: bt_wf_Cons bt_get_def)
  qed
qed

lemma mset_push_items:
  assumes "bt_wf m"
  shows "mset (concat (map (\<lambda>(k, ys). map (h k) ys) (bt_entry k [] (\<lambda>ys. ys @ [y]) m))) =
         mset (concat (map (\<lambda>(k, ys). map (h k) ys) m)) + {#h k y#}"
  using mset_insert_items [OF assms, of h k "(case bt_get m k of None \<Rightarrow> [] | Some ys \<Rightarrow> ys) @ [y]"]
  by (simp add: bt_entry_def)

lemma mset_values_push:
  assumes "bt_wf m"
  shows "mset (concat (bt_values (bt_entry k [] (\<lambda>ys. ys @ [y]) m))) = mset (concat (bt_values m)) + {#y#}"
  using mset_push_items [OF assms, of "\<lambda>_ y. y"] by (simp add: bt_values_def case_prod_beta')

end
