(* ===== verification/Group_Laws.thy ===== *)
theory Group_Laws
  imports Group_Client Map_Items
begin

text \<open>
  What the group client promises over \<open>Group_Client\<close>: the subscription and assignment blobs
  survive the wire; the leader sends every member its share of a sound assignment; an eager member announces all it
  held in the step that stops it; the cooperative announcement is lost; commits are guarded; a
  partition never committed is absent from what \<open>classic_fetch_offsets\<close> returns; a
  coordinator that died is never looked for again.
\<close>

section \<open>Blobs\<close>

text \<open>What the \<^verbatim>\<open>kafka-protocol\<close> crate promises of the two bodies: they are read back as they were written.\<close>

definition blobs_faithful :: "blob_codec \<Rightarrow> bool" where
  "blobs_faithful bc \<longleftrightarrow>
     (\<forall>b bs. enc_subscription bc b PROTOCOL_VERSION = Inr bs \<longrightarrow> dec_subscription bc bs PROTOCOL_VERSION = Inr b) \<and>
     (\<forall>b bs. enc_assignment bc b PROTOCOL_VERSION = Inr bs \<longrightarrow> dec_assignment bc bs PROTOCOL_VERSION = Inr b)"

lemma flat_topics_simps [simp]:
  "flat_topics [] = []"
  "flat_topics ((t, ps) # m) = map (TopicPartition t) ps @ flat_topics m"
  by (simp_all add: flat_topics_def)

lemma mset_flat_group_step:
  "bt_wf m \<Longrightarrow>
   mset (flat_topics (fold (\<lambda>x. bt_entry (tp_topic x) [] (\<lambda>ys. ys @ [tp_partition x])) tps m)) = mset (flat_topics m) + mset tps"
proof (induction tps arbitrary: m)
  case Nil
  then show ?case by simp
next
  case (Cons tp tps)
  let ?m = "bt_entry (tp_topic tp) [] (\<lambda>ys. ys @ [tp_partition tp]) m"
  have "mset (flat_topics ?m) = mset (flat_topics m) + {#tp#}"
    using mset_push_items [OF Cons.prems, of TopicPartition] by (cases tp) (simp add: flat_topics_def)
  moreover have "bt_wf ?m" using Cons.prems by simp
  ultimately show ?case using Cons.IH [of ?m] by simp
qed

lemma mset_flat_by_topic: "mset (flat_topics (by_topic tps)) = mset tps"
  using mset_flat_group_step [OF bt_wf_Nil, of tps] by (simp add: by_topic_def bt_group_def)

lemma sort_flat_by_topic: "sort (flat_topics (by_topic tps)) = sort tps"
  by (rule properties_for_sort) (simp_all add: mset_flat_by_topic)

lemma with_version_read:
  assumes "with_version what r = Inr bs"
  shows "\<exists>body. r = Inr body \<and> read_version bs = Inr (PROTOCOL_VERSION, body)"
  using assms i16_be_roundtrip [of PROTOCOL_VERSION]
  by (auto simp: with_version_def read_version_def PROTOCOL_VERSION_def split: sum.splits)

lemma assignment_roundtrip:
  assumes "blobs_faithful bc" and "encode_assignment bc tps = Inr bs"
  shows "decode_assignment bc bs = Inr (sort tps)"
proof -
  obtain body where "enc_assignment bc (by_topic tps) PROTOCOL_VERSION = Inr body"
    and "read_version bs = Inr (PROTOCOL_VERSION, body)"
    using assms(2) with_version_read unfolding encode_assignment_def by blast
  with assms(1) show ?thesis
    by (simp add: blobs_faithful_def decode_assignment_def sort_flat_by_topic)
qed

lemma subscription_roundtrip:
  assumes "blobs_faithful bc" and "encode_subscription bc s = Inr bs"
  shows "\<exists>s'. decode_subscription bc mid bs = Inr s' \<and> member_id s' = mid \<and> topics s' = topics s \<and>
           generation s' = generation s \<and> mset (owned s') = mset (owned s)"
proof -
  obtain body where "enc_subscription bc \<lparr>sb_topics = topics s, sb_generation_id = generation s, sb_owned = by_topic (owned s)\<rparr>
      PROTOCOL_VERSION = Inr body" and "read_version bs = Inr (PROTOCOL_VERSION, body)"
    using assms(2) with_version_read unfolding encode_subscription_def by blast
  with assms(1) show ?thesis
    by (simp add: blobs_faithful_def decode_subscription_def mset_flat_by_topic PROTOCOL_VERSION_def)
qed

section \<open>A codec to evaluate with\<close>

definition toy_nat :: "nat \<Rightarrow> bytes" where
  "toy_nat n = replicate n 1 @ [0]"

definition take_toy_nat :: "bytes \<Rightarrow> nat \<times> bytes" where
  "take_toy_nat bs = (length (takeWhile (\<lambda>b. b = 1) bs), tl (dropWhile (\<lambda>b. b = 1) bs))"

definition toy_int :: "int \<Rightarrow> bytes" where
  "toy_int i = toy_nat (if 0 \<le> i then 2 * nat i else 2 * nat (- i) + 1)"

definition take_toy_int :: "bytes \<Rightarrow> int \<times> bytes" where
  "take_toy_int bs = (case take_toy_nat bs of (n, r) \<Rightarrow> (if even n then int (n div 2) else - int (n div 2), r))"

definition toy_char :: "char \<Rightarrow> bytes" where
  "toy_char c = toy_nat (of_char c)"

definition take_toy_char :: "bytes \<Rightarrow> char \<times> bytes" where
  "take_toy_char bs = (case take_toy_nat bs of (n, r) \<Rightarrow> (char_of n, r))"

definition toy_many :: "('a \<Rightarrow> bytes) \<Rightarrow> 'a list \<Rightarrow> bytes" where
  "toy_many f xs = toy_nat (length xs) @ concat (map f xs)"

primrec take_times :: "nat \<Rightarrow> (bytes \<Rightarrow> 'a \<times> bytes) \<Rightarrow> bytes \<Rightarrow> 'a list \<times> bytes" where
  "take_times 0 d bs = ([], bs)"
| "take_times (Suc n) d bs = (case d bs of (x, r) \<Rightarrow> case take_times n d r of (xs, r') \<Rightarrow> (x # xs, r'))"

definition take_toy_many :: "(bytes \<Rightarrow> 'a \<times> bytes) \<Rightarrow> bytes \<Rightarrow> 'a list \<times> bytes" where
  "take_toy_many d bs = (case take_toy_nat bs of (n, r) \<Rightarrow> take_times n d r)"

definition toy_topics :: "(string \<times> int list) list \<Rightarrow> bytes" where
  "toy_topics = toy_many (\<lambda>(t, ps). toy_many toy_char t @ toy_many toy_int ps)"

definition take_toy_topics :: "bytes \<Rightarrow> (string \<times> int list) list \<times> bytes" where
  "take_toy_topics = take_toy_many (\<lambda>bs. case take_toy_many take_toy_char bs of (t, r) \<Rightarrow>
     case take_toy_many take_toy_int r of (ps, r') \<Rightarrow> ((t, ps), r'))"

definition toy_blobs :: blob_codec where
  "toy_blobs =
     \<lparr>enc_subscription = (\<lambda>b _. Inr (toy_many (toy_many toy_char) (sb_topics b) @ toy_int (sb_generation_id b) @ toy_topics (sb_owned b))),
      dec_subscription = (\<lambda>bs _. case take_toy_many (take_toy_many take_toy_char) bs of (ts, r) \<Rightarrow>
        case take_toy_int r of (g, r1) \<Rightarrow> Inr \<lparr>sb_topics = ts, sb_generation_id = g, sb_owned = fst (take_toy_topics r1)\<rparr>),
      enc_assignment = (\<lambda>b _. Inr (toy_topics b)),
      dec_assignment = (\<lambda>bs _. Inr (fst (take_toy_topics bs)))\<rparr>"

definition reads_back :: "('a \<Rightarrow> bytes) \<Rightarrow> (bytes \<Rightarrow> 'a \<times> bytes) \<Rightarrow> bool" where
  "reads_back f d \<longleftrightarrow> (\<forall>x rest. d (f x @ rest) = (x, rest))"

lemma reads_backD: "reads_back f d \<Longrightarrow> d (f x @ rest) = (x, rest)"
  by (simp add: reads_back_def)

lemma toy_nat_reads_back: "reads_back toy_nat take_toy_nat"
proof -
  have "takeWhile (\<lambda>b. b = 1) (replicate n 1 @ 0 # rest) = replicate n (1 :: 8 word)"
    and "dropWhile (\<lambda>b. b = 1) (replicate n 1 @ 0 # rest) = (0 :: 8 word) # rest" for n rest
    by (induction n) auto
  then show ?thesis by (simp add: reads_back_def toy_nat_def take_toy_nat_def)
qed

lemma toy_int_reads_back: "reads_back toy_int take_toy_int"
  using toy_nat_reads_back by (simp add: reads_back_def toy_int_def take_toy_int_def)

lemma toy_char_reads_back: "reads_back toy_char take_toy_char"
  using toy_nat_reads_back by (simp add: reads_back_def toy_char_def take_toy_char_def)

lemma toy_many_reads_back:
  assumes "reads_back f d"
  shows "reads_back (toy_many f) (take_toy_many d)"
proof -
  have "take_times (length xs) d (concat (map f xs) @ rest) = (xs, rest)" for xs rest
    by (induction xs) (simp_all add: reads_backD [OF assms])
  then show ?thesis
    using toy_nat_reads_back by (simp add: reads_back_def toy_many_def take_toy_many_def)
qed

lemma toy_topics_reads_back: "reads_back toy_topics take_toy_topics"
  unfolding toy_topics_def take_toy_topics_def
  by (rule toy_many_reads_back)
     (simp add: reads_back_def reads_backD [OF toy_many_reads_back [OF toy_char_reads_back]]
       reads_backD [OF toy_many_reads_back [OF toy_int_reads_back]] split: prod.split)

lemma toy_blobs_faithful: "blobs_faithful toy_blobs"
  using reads_backD [OF toy_topics_reads_back, of _ "[]"]
  by (simp add: blobs_faithful_def toy_blobs_def reads_backD [OF toy_int_reads_back]
      reads_backD [OF toy_many_reads_back [OF toy_many_reads_back [OF toy_char_reads_back]]])


text \<open>
  C18: the blobs survive the wire.  When the body codec reads back what it wrote, the assignment a leader encodes is
  decoded by the member as the same partitions, sorted; and the subscription a member encodes is decoded by the
  leader under the member's id with the same topics, the same generation and the same owned partitions, counted.
\<close>

theorem blobs_survive_the_wire:
  assumes "blobs_faithful bc" and "encode_assignment bc tps = Inr as" and "encode_subscription bc s = Inr ss"
  shows "decode_assignment bc as = Inr (sort tps) \<and>
    (\<exists>s'. decode_subscription bc mid ss = Inr s' \<and> member_id s' = mid \<and> topics s' = topics s \<and>
       generation s' = generation s \<and> mset (owned s') = mset (owned s))"
  using assignment_roundtrip [OF assms(1,2)] subscription_roundtrip [OF assms(1,3)] by blast

definition sample_tps :: "topic_partition list" where
  "sample_tps = [TopicPartition ''b'' 7, TopicPartition ''a'' 1, TopicPartition ''a'' 0]"

theorem blobs_survive_the_wire_witness:
  "\<exists>as. encode_assignment toy_blobs sample_tps = Inr as \<and>
     decode_assignment toy_blobs as = Inr [TopicPartition ''a'' 0, TopicPartition ''a'' 1, TopicPartition ''b'' 7]"
proof -
  obtain as where as: "encode_assignment toy_blobs sample_tps = Inr as"
    by (simp add: encode_assignment_def with_version_def toy_blobs_def)
  obtain ss where ss: "encode_subscription toy_blobs (hd sample_members) = Inr ss"
    by (simp add: encode_subscription_def with_version_def toy_blobs_def)
  have "sort sample_tps = [TopicPartition ''a'' 0, TopicPartition ''a'' 1, TopicPartition ''b'' 7]"
    by (simp add: sample_tps_def insort_key.simps less_eq_topic_partition_def)
  with blobs_survive_the_wire [OF toy_blobs_faithful as ss] as show ?thesis by simp
qed

section \<open>A coordinator to evaluate with\<close>

text \<open>
  It grants \<open>share\<close> to whoever follows, and every topic has two partitions; its state is the list of the
  codes the coming heartbeats are answered with.
\<close>

definition sample_group_ops :: "topic_partition list \<Rightarrow> int list group_ops" where
  "sample_group_ops share =
     \<lparr>go_find_coordinator = (\<lambda>w key kind. (Inr \<lparr>ci_error_code = 0, ci_host = ''h'', ci_port = 1\<rparr>, w)),
      go_join = (\<lambda>w a rq t. (Inr \<lparr>jr_error_code = 0, jr_generation_id = 4, jr_leader = ''l'', jr_member_id = ''m'', jr_members = []\<rparr>, w)),
      go_sync = (\<lambda>w a rq t. (Inr \<lparr>sr_error_code = 0, sr_assignment = (case encode_assignment toy_blobs share of Inl _ \<Rightarrow> [] | Inr bs \<Rightarrow> bs)\<rparr>, w)),
      go_heartbeat = (\<lambda>w a rq t. (Inr (hd w), tl w)),
      go_leave = (\<lambda>w a rq t. (Inr (), w)),
      go_commit = (\<lambda>w a rq t. (Inr [(''t'', [(0, 0)])], w)),
      go_fetch_offsets = (\<lambda>w a rq t. (Inr \<lparr>of_error_code = 0, of_topics = [(''t'', [(0, 42, 0), (1, - 1, 0)])]\<rparr>, w)),
      go_partition_count = (\<lambda>w t. (Inr 2, w)),
      go_sleep = (\<lambda>w n. w),
      go_blobs = toy_blobs\<rparr>"

text \<open>A stable member that holds both partitions of a topic.\<close>

definition sample_classic :: "strategy \<Rightarrow> classic_protocol" where
  "sample_classic strat = (new_classic ''g'' [''t''] strat)
     \<lparr>cp_coordinator := Some ''h:1'', cp_ever_assigned := True,
      cp_member := (with_protocol (new_member ''g'' [''t''])
          (if strategy_name strat = ''cooperative-sticky'' then Cooperative else Eager))
        \<lparr>gm_member_id := ''m'', gm_generation := 3, gm_state := Stable,
         gm_assignment := [TopicPartition ''t'' 0, TopicPartition ''t'' 1]\<rparr>\<rparr>"

lemmas sample_group_defs = sample_group_ops_def sample_classic_def new_classic_def with_protocol_def new_member_def

lemmas advance_unfolds = advance_def take_step_def member_next_step_def classic_heartbeat_def classic_join_def classic_sync_def
  at_coordinator_def group_coordinator_addr_def fails_def report_def on_join_def on_heartbeat_def on_group_error_def
  revoke_and_rejoin_def member_codes sample_group_defs Let_def

section \<open>The leader\<close>

lemma collect_results_all:
  "(\<And>x. x \<in> set xs \<Longrightarrow> f x = Inr (g x)) \<Longrightarrow> collect_results f xs = Inr (map g xs)"
  by (induction xs) simp_all

lemma count_topics_wf:
  "bt_wf m \<Longrightarrow> count_topics ops ts m w = (Inr totals, w1) \<Longrightarrow>
   bt_wf totals \<and> set (bt_keys totals) = set (bt_keys m) \<union> set ts"
proof (induction ts arbitrary: m w)
  case Nil
  then show ?case by simp
next
  case (Cons t ts)
  show ?case
  proof (cases "bt_get m t = None")
    case True
    then obtain n w2 where "go_partition_count ops w t = (Inr n, w2)"
      using Cons.prems(2) by (auto split: prod.splits sum.splits)
    with True Cons.prems Cons.IH [of "bt_insert t n m" w2] show ?thesis
      by (auto simp: bt.keys_ins)
  next
    case False
    then have "t \<in> set (bt_keys m)" by (simp add: bt_keys_get)
    with False Cons.prems Cons.IH [of m w] show ?thesis by auto
  qed
qed

lemma strategy_sound:
  assumes "group_ok members ppt"
  shows "\<exists>a. assign_with strat members ppt = Inr a \<and> sound_assignment members ppt a"
  using range.sound [OF assms] roundrobin.sound [OF assms] sticky.sound [OF assms] cooperative.sound [OF assms]
  by (cases strat) (simp_all only: assign_with.simps)

lemma encode_entries_all:
  assumes "blobs_faithful bc" and "\<forall>b. \<exists>bs. enc_assignment bc b PROTOCOL_VERSION = Inr bs"
  shows "\<exists>blob. encode_entries bc a = Inr (map (\<lambda>(m, tps). (m, blob tps)) a) \<and>
           (\<forall>tps. decode_assignment bc (blob tps) = Inr (sort tps))"
proof -
  have "\<exists>bs. encode_assignment bc tps = Inr bs" for tps
    using assms(2) [rule_format, of "by_topic tps"] by (auto simp: encode_assignment_def with_version_def)
  then obtain blob where blob: "encode_assignment bc tps = Inr (blob tps)" for tps by metis
  have "encode_entries bc a = Inr (map (\<lambda>(m, tps). (m, blob tps)) a)"
    unfolding encode_entries_def by (rule collect_results_all) (auto simp: blob)
  with assignment_roundtrip [OF assms(1) blob] show ?thesis by blast
qed

text \<open>
  C15: the leader tells every member its share.  When the group's member ids are distinct and the partition counts
  could be fetched, the leader's step does not panic: it computes an assignment that is sound for exactly the
  topics the members named, and sends \<open>SyncGroup\<close> with one entry per member, whose blob
  that member decodes to its share, in order.
\<close>

theorem leader_tells_every_member:
  assumes "blobs_faithful (go_blobs ops)" and "\<forall>b. \<exists>bs. enc_assignment (go_blobs ops) b PROTOCOL_VERSION = Inr bs"
    and "distinct (map member_id members)" and "int (length members) \<le> i32_max"
    and "count_topics ops (concat (map topics members)) [] w = (Inr totals, w1)"
    and "list_all (\<lambda>(_, n). in_i32 n) totals"
  shows "set (bt_keys totals) = set (concat (map topics members)) \<and>
    (\<exists>a blobs. sound_assignment members totals a \<and> assign_with (cp_assignor cp) members totals = Inr a \<and>
       assign_and_sync ops members cp w = map_prod fails id (classic_sync ops blobs cp w1) \<and>
       map fst blobs = bt_keys a \<and>
       (\<forall>m tps. bt_get a m = Some tps \<longrightarrow>
          (\<exists>blob. map_of blobs m = Some blob \<and> decode_assignment (go_blobs ops) blob = Inr (sort tps))))"
proof -
  have totals: "bt_wf totals" "set (bt_keys totals) = set (concat (map topics members))"
    using count_topics_wf [OF bt_wf_Nil assms(5)] by (simp_all add: bt_keys_def)
  with assms(3,4,6) have "group_ok members totals" by (simp add: group_ok_def)
  then obtain a where a: "assign_with (cp_assignor cp) members totals = Inr a" "sound_assignment members totals a"
    using strategy_sound by blast
  obtain blob where blob: "encode_entries (go_blobs ops) a = Inr (map (\<lambda>(m, tps). (m, blob tps)) a)"
    "\<And>tps. decode_assignment (go_blobs ops) (blob tps) = Inr (sort tps)"
    using encode_entries_all [OF assms(1,2), of a] by blast
  let ?blobs = "map (\<lambda>(m, tps). (m, blob tps)) a"
  have "assign_and_sync ops members cp w = map_prod fails id (classic_sync ops ?blobs cp w1)"
    by (simp add: assign_and_sync_def assms(5) a(1) blob(1) map_prod_def case_prod_beta')
  moreover have "map fst ?blobs = bt_keys a" by (simp add: bt_keys_def case_prod_beta' comp_def)
  moreover have "map_of ?blobs m = map_option blob (bt_get a m)" for m
    unfolding bt_get_def by (induction a) auto
  ultimately show ?thesis using a blob(2) totals(2) by (intro conjI exI [of _ a] exI [of _ ?blobs]) auto
qed

theorem leader_tells_every_member_witness:
  "\<exists>a blobs. sound_assignment sample_members [(''t'', 2)] a \<and>
     assign_and_sync (sample_group_ops []) sample_members (sample_classic StickyAssignor) [] =
       map_prod fails id (classic_sync (sample_group_ops []) blobs (sample_classic StickyAssignor) []) \<and>
     map fst blobs = bt_keys a"
proof -
  have enc: "\<forall>b. \<exists>bs. enc_assignment (go_blobs (sample_group_ops [])) b PROTOCOL_VERSION = Inr bs"
    by (simp add: sample_group_ops_def toy_blobs_def)
  have totals: "count_topics (sample_group_ops []) (concat (map topics sample_members)) [] [] = (Inr [(''t'', 2)], [])"
    by (simp add: sample_members_def sample_group_ops_def bt_get_def)
  have "blobs_faithful (go_blobs (sample_group_ops []))"
    by (simp add: sample_group_ops_def toy_blobs_faithful)
  from leader_tells_every_member [OF this enc _ _ totals, of "sample_classic StickyAssignor"]
  show ?thesis by (fastforce simp: sample_members_def in_i32_def)
qed

section \<open>Announcing\<close>

lemma report_cases:
  assumes "report cp = (m, cp')"
  shows "cp_member cp' = cp_member cp" and "cp_coordinator cp' = cp_coordinator cp"
    and "m = Assigned tps \<Longrightarrow> gm_state (cp_member cp) = Stable \<and> gm_assignment (cp_member cp) = tps \<and>
           cp_ever_assigned cp' \<and> \<not> cp_announced_revoked cp'"
  using assms by (auto simp: report_def split: if_splits)

lemma advance_Assigned:
  assumes "advance ops cp w = (Inr (Assigned tps), cp1, w1)"
  shows "gm_state (cp_member cp1) = Stable" "gm_assignment (cp_member cp1) = tps"
    "cp_ever_assigned cp1" "\<not> cp_announced_revoked cp1"
proof -
  obtain cp0 where r: "report cp0 = (Assigned tps, cp1)"
    using assms by (auto simp: advance_def split: prod.splits sum.splits)
  show "gm_state (cp_member cp1) = Stable" "gm_assignment (cp_member cp1) = tps"
    "cp_ever_assigned cp1" "\<not> cp_announced_revoked cp1"
    using report_cases(3) [OF r refl] report_cases(1) [OF r] by simp_all
qed

text \<open>Only the member is touched by a heartbeat, and the coordinator's address.\<close>

definition same_flags :: "classic_protocol \<Rightarrow> classic_protocol \<Rightarrow> bool" where
  "same_flags cp cp' \<longleftrightarrow>
     cp_announced_revoked cp' = cp_announced_revoked cp \<and> cp_ever_assigned cp' = cp_ever_assigned cp"

lemma find_group_coordinator_keeps:
  "find_group_coordinator ops n cp w = (r, cp', w') \<Longrightarrow> cp_member cp' = cp_member cp \<and> same_flags cp cp'"
  by (induction n arbitrary: w)
     (auto simp: same_flags_def split: prod.splits sum.splits if_splits)

lemma find_group_coordinator_sets:
  "find_group_coordinator ops n cp w = (Inr a, cp', w') \<Longrightarrow> cp_coordinator cp' = Some a"
  by (induction n arbitrary: w) (auto split: prod.splits sum.splits if_splits)

lemma at_coordinator_keeps:
  assumes "at_coordinator ops k cp w = (r, cp', w')"
  shows "(\<exists>e. r = Inl e \<and> cp_member cp' = cp_member cp \<and> same_flags cp cp') \<or>
    (\<exists>a cp1 w1. k a cp1 w1 = (r, cp', w') \<and> cp_member cp1 = cp_member cp \<and> same_flags cp cp1 \<and> cp_coordinator cp1 = Some a)"
proof (cases "group_coordinator_addr ops cp w")
  case (fields r1 cp1 w1)
  have keep: "cp_member cp1 = cp_member cp \<and> same_flags cp cp1"
    using fields find_group_coordinator_keeps [of ops COORDINATOR_RETRIES cp w r1 cp1 w1]
    by (auto simp: group_coordinator_addr_def same_flags_def split: option.splits)
  show ?thesis
  proof (cases r1)
    case (Inl e)
    with fields assms keep show ?thesis by (auto simp: at_coordinator_def)
  next
    case (Inr a)
    have "cp_coordinator cp1 = Some a"
      using fields Inr find_group_coordinator_sets [of ops COORDINATOR_RETRIES cp w a cp1 w1]
      by (auto simp: group_coordinator_addr_def split: option.splits)
    with Inr fields assms keep show ?thesis by (auto simp: at_coordinator_def)
  qed
qed

lemma heartbeat_result:
  assumes "classic_heartbeat ops cp w = (Inr st, cp', w')"
  shows "\<exists>code. on_heartbeat (cp_member cp) code = (st, cp_member cp') \<and> same_flags cp cp'"
proof -
  obtain a cp1 w1 where k: "cp_member cp1 = cp_member cp" "same_flags cp cp1"
    "(let g = cp_member cp1
      in case go_heartbeat ops w1 a
               \<lparr>mq_group_id = gm_group_id g, mq_generation_id = gm_generation g, mq_member_id = gm_member_id g\<rparr>
               COORDINATOR_TIMEOUT of
           (Inl e, w1) \<Rightarrow> (Inl e, cp1, w1)
         | (Inr code, w1) \<Rightarrow> (case on_heartbeat g code of (step, g') \<Rightarrow> (Inr step, cp1\<lparr>cp_member := g'\<rparr>, w1))) =
     (Inr st, cp', w')"
    using at_coordinator_keeps [OF assms [unfolded classic_heartbeat_def]] by blast
  from k(3) have "\<exists>code. on_heartbeat (cp_member cp1) code = (st, cp_member cp') \<and> same_flags cp1 cp'"
    by (auto simp: Let_def same_flags_def split: prod.splits sum.splits)
  with k(1,2) show ?thesis by (auto simp: same_flags_def)
qed


lemma heartbeat_unjoined: "code \<noteq> REBALANCE_NONE \<Longrightarrow> gm_state (snd (on_heartbeat g code)) = Unjoined"
  by (simp add: on_heartbeat_def on_group_error_def revoke_and_rejoin_def Let_def)

lemma eager_announced:
  assumes "advance ops cp w = (Inr (Assigned tps), cp1, w1)" and "gm_protocol (cp_member cp1) = Eager"
    and "advance ops cp1 w2 = (Inr m, cp2, w3)"
  shows "m = Assigned tps \<or> m = Revoked tps \<and> \<not> can_commit (cp_member cp2)"
proof -
  note a = advance_Assigned [OF assms(1)]
  obtain st cp' where t: "classic_heartbeat ops cp1 w2 = (Inr st, cp', w3)"
    and r: "report (if st = FindCoordinatorStep then cp'\<lparr>cp_coordinator := None\<rparr> else cp') = (m, cp2)"
    using assms(3) a(1)
    by (auto simp: advance_def take_step_def member_next_step_def fails_def split: prod.splits sum.splits)
  obtain code where c: "on_heartbeat (cp_member cp1) code = (st, cp_member cp')" and f: "same_flags cp1 cp'"
    using heartbeat_result [OF t] by blast
  show ?thesis
  proof (cases "code = REBALANCE_NONE")
    case True
    with c have "cp_member cp' = cp_member cp1" by (simp add: on_heartbeat_def)
    with r a show ?thesis by (auto simp: report_def split: if_splits)
  next
    case False
    have "gm_lost (cp_member cp') = tps \<and> \<not> can_commit (cp_member cp')"
      using heartbeat_error [OF False c] assms(2) a(2) by simp
    moreover have "gm_state (cp_member cp') \<noteq> Stable"
      using heartbeat_unjoined [OF False, of "cp_member cp1"] c by simp
    ultimately show ?thesis using r f a(3,4) by (auto simp: report_def same_flags_def split: if_splits)
  qed
qed

text \<open>
  C17: an eager member's revocation is announced in the step it happens.  After \<open>advance\<close> reported an
  assignment, the next call that succeeds either reports the same assignment again, or reports exactly those partitions as
  given up, and from then on the member may not commit; it never reports anything else in between.
\<close>

theorem eager_revocation_is_announced:
  assumes "advance ops cp w = (Inr (Assigned tps), cp1, w1)" and "gm_protocol (cp_member cp1) = Eager"
    and "advance ops cp1 w2 = (Inr m, cp2, w3)"
  shows "m = Assigned tps \<or> m = Revoked tps \<and> \<not> can_commit (cp_member cp2)"
  using assms by (rule eager_announced)

theorem eager_revocation_is_announced_witness:
  "fst (advance (sample_group_ops []) (sample_classic RangeAssignor) [REBALANCE_IN_PROGRESS]) =
     Inr (Revoked [TopicPartition ''t'' 0, TopicPartition ''t'' 1])"
proof -
  let ?cp = "sample_classic RangeAssignor" and ?ops = "sample_group_ops []"
    and ?tps = "[TopicPartition ''t'' 0, TopicPartition ''t'' 1]"
  have first: "advance ?ops ?cp [REBALANCE_NONE, REBALANCE_IN_PROGRESS] = (Inr (Assigned ?tps), ?cp, [REBALANCE_IN_PROGRESS])"
    by (simp add: advance_unfolds)
  obtain m cp2 where second: "advance ?ops ?cp [REBALANCE_IN_PROGRESS] = (Inr m, cp2, [])" and m: "m \<noteq> Assigned ?tps"
    by (simp add: advance_unfolds)
  have "gm_protocol (cp_member ?cp) = Eager" by (simp add: sample_group_defs)
  from eager_revocation_is_announced [OF first this second] m second show ?thesis by simp
qed

text \<open>What a caller of \<open>advance\<close> hears over a sequence of calls, the world being anything before each of them.\<close>

fun reports ::
  "'w group_ops \<Rightarrow> classic_protocol \<Rightarrow> 'w list \<Rightarrow> (client_error failure + membership) list \<times> classic_protocol" where
  "reports ops cp [] = ([], cp)"
| "reports ops cp (w # ws) =
     (case advance ops cp w of (r, cp1, _) \<Rightarrow> (case reports ops cp1 ws of (rs, cp2) \<Rightarrow> (r # rs, cp2)))"

lemma same_flags_trans: "same_flags cp cp1 \<Longrightarrow> same_flags cp1 cp2 \<Longrightarrow> same_flags cp cp2"
  by (simp add: same_flags_def)

lemma at_coordinator_flags:
  assumes "at_coordinator ops k cp w = (r, cp', w')" and "\<And>a cp1 w1 r cp' w'. k a cp1 w1 = (r, cp', w') \<Longrightarrow> same_flags cp1 cp'"
  shows "same_flags cp cp'"
  using at_coordinator_keeps [OF assms(1)] assms(2) same_flags_trans by blast

lemma classic_sync_flags: "classic_sync ops as cp w = (r, cp', w') \<Longrightarrow> same_flags cp cp'"
  unfolding classic_sync_def
  by (erule at_coordinator_flags) (auto simp: same_flags_def Let_def split: prod.splits sum.splits if_splits)

lemma classic_join_flags: "classic_join ops cp w = (r, cp', w') \<Longrightarrow> same_flags cp cp'"
  unfolding classic_join_def
  by (erule at_coordinator_flags) (auto simp: same_flags_def Let_def split: prod.splits sum.splits if_splits)

lemma classic_heartbeat_flags: "classic_heartbeat ops cp w = (r, cp', w') \<Longrightarrow> same_flags cp cp'"
  unfolding classic_heartbeat_def
  by (erule at_coordinator_flags) (auto simp: same_flags_def Let_def split: prod.splits sum.splits)

lemma at_coordinator_failed:
  assumes "at_coordinator ops k cp w = (Inl e, cp', w')"
    and "\<And>a cp1 w1 e cp' w'. k a cp1 w1 = (Inl e, cp', w') \<Longrightarrow> cp_member cp' = cp_member cp1"
  shows "cp_member cp' = cp_member cp"
  using at_coordinator_keeps [OF assms(1)] assms(2) by metis

lemma heartbeat_failed: "classic_heartbeat ops cp w = (Inl e, cp', w') \<Longrightarrow> cp_member cp' = cp_member cp"
  unfolding classic_heartbeat_def
  by (erule at_coordinator_failed) (auto simp: Let_def split: prod.splits sum.splits)

lemma take_step_flags: "take_step ops cp w = (r, cp', w') \<Longrightarrow> same_flags cp cp'"
  by (auto simp: take_step_def assign_and_sync_def split: next_step.splits prod.splits sum.splits
      dest!: classic_sync_flags classic_join_flags classic_heartbeat_flags) (simp_all add: same_flags_def)

lemma announced_once:
  assumes "cp_announced_revoked cp" and "advance ops cp w = (r, cp', w')"
  shows "(isl r \<or> r = Inr InProgress) \<and> cp_announced_revoked cp' \<or> (\<exists>tps. r = Inr (Assigned tps))"
  using assms take_step_flags [of ops cp w]
  by (fastforce simp: advance_def report_def same_flags_def split: prod.splits sum.splits if_splits)

text \<open>A stable cooperative member that has not announced anything since it reported its assignment.\<close>

definition holding :: "classic_protocol \<Rightarrow> bool" where
  "holding cp \<longleftrightarrow> gm_state (cp_member cp) = Stable \<and> gm_protocol (cp_member cp) = Cooperative \<and> cp_ever_assigned cp \<and> \<not> cp_announced_revoked cp"

lemma holding_step:
  assumes "holding cp" and "advance ops cp w = (r, cp', w')"
  shows "isl r \<and> holding cp' \<or> (\<exists>tps. r = Inr (Assigned tps)) \<or> r = Inr (Revoked []) \<and> cp_announced_revoked cp'"
proof -
  obtain r1 cp1 w1 where t: "classic_heartbeat ops cp w = (r1, cp1, w1)" by (rule prod_cases3)
  have f: "same_flags cp cp1" by (rule classic_heartbeat_flags [OF t])
  have s: "take_step ops cp w = (fails r1, cp1, w1)" using assms(1) t by (simp add: take_step_def member_next_step_def holding_def)
  show ?thesis
  proof (cases r1)
    case (Inl e)
    then show ?thesis
      using assms s f heartbeat_failed [of ops cp w e cp1 w1] t by (auto simp: advance_def fails_def holding_def same_flags_def)
  next
    case (Inr st)
    then obtain code where c: "on_heartbeat (cp_member cp) code = (st, cp_member cp1)"
      using heartbeat_result [of ops cp w st cp1 w1] t by blast
    show ?thesis
    proof (cases "code = REBALANCE_NONE")
      case True
      with c have "cp_member cp1 = cp_member cp" by (simp add: on_heartbeat_def)
      then show ?thesis using assms s Inr by (auto simp: advance_def fails_def report_def holding_def split: if_splits)
    next
      case False
      have m: "cp_member cp1 = snd (on_heartbeat (cp_member cp) code)" using c by simp
      have "gm_lost (cp_member cp1) = []"
        using assms(1) False by (simp add: m on_heartbeat_def on_group_error_def revoke_and_rejoin_def holding_def Let_def)
      moreover have "gm_state (cp_member cp1) \<noteq> Stable" using heartbeat_unjoined [OF False, of "cp_member cp"] m by simp
      ultimately show ?thesis using assms s Inr f by (auto simp: advance_def fails_def report_def holding_def same_flags_def split: if_splits)
    qed
  qed
qed

lemma reports_silent:
  assumes "holding cp \<or> cp_announced_revoked cp" and "reports ops cp ws = (rs, cp')" and "\<forall>tps. Inr (Assigned tps) \<notin> set rs"
  shows "\<forall>r\<in>set rs. isl r \<or> r = Inr InProgress \<or> r = Inr (Revoked [])"
  using assms
proof (induction ws arbitrary: cp rs)
  case (Cons w ws)
  obtain r cp1 w1 where a: "advance ops cp w = (r, cp1, w1)" by (rule prod_cases3)
  obtain rs' where rs: "reports ops cp1 ws = (rs', cp')" "rs = r # rs'" using Cons.prems(2) a by (auto split: prod.splits)
  have "(isl r \<or> r = Inr InProgress \<or> r = Inr (Revoked [])) \<and> (holding cp1 \<or> cp_announced_revoked cp1)"
    using Cons.prems(1,3) holding_step [OF _ a] announced_once [OF _ a] rs(2) by auto
  moreover have "\<forall>tps. Inr (Assigned tps) \<notin> set rs'" using Cons.prems(3) rs(2) by simp
  ultimately show ?case using Cons.IH [OF _ rs(1)] rs(2) by simp
qed simp

text \<open>
  C25: what a cooperative member loses in a rebalance is never announced.  From the report of an assignment until the next one, however many calls of
  \<open>advance\<close> there are, whatever the coordinator answers to each and whether the member leads or follows, every call fails, reports
  \<open>InProgress\<close>, or reports \<open>Revoked\<close> with nothing in it: the heartbeat that starts the rebalance uses up the one announcement before
  anything is lost, and a loss that \<open>SyncGroup\<close> brings is not reported any more.  So a partition that is in the one assignment and not in the next is in no \<open>Revoked\<close> between them.
\<close>

theorem cooperative_loss_is_silent:
  assumes "advance ops cp w = (Inr (Assigned held), cp1, w1)" and "gm_protocol (cp_member cp1) = Cooperative"
    and "reports ops cp1 ws = (rs, cp2)" and "\<forall>tps. Inr (Assigned tps) \<notin> set rs"
  shows "\<forall>r\<in>set rs. isl r \<or> r = Inr InProgress \<or> r = Inr (Revoked [])"
proof -
  have "holding cp1" using advance_Assigned [OF assms(1)] assms(2) by (simp add: holding_def)
  then show ?thesis using reports_silent [OF _ assms(3,4)] by blast
qed

theorem cooperative_loss_is_silent_witness:
  "\<exists>cp2 cp3 w. reports (sample_group_ops [TopicPartition ''t'' 0]) (sample_classic CooperativeStickyAssignor) [[REBALANCE_IN_PROGRESS], [], [], []] =
       ([Inr (Revoked []), Inr InProgress, Inr InProgress, Inr InProgress], cp2) \<and>
     advance (sample_group_ops [TopicPartition ''t'' 0]) cp2 [] = (Inr (Assigned [TopicPartition ''t'' 0]), cp3, w) \<and>
     advance (sample_group_ops [TopicPartition ''t'' 0]) (sample_classic CooperativeStickyAssignor) [0] =
       (Inr (Assigned [TopicPartition ''t'' 0, TopicPartition ''t'' 1]), sample_classic CooperativeStickyAssignor, []) \<and>
     (\<forall>r\<in>set (fst (reports (sample_group_ops [TopicPartition ''t'' 0]) (sample_classic CooperativeStickyAssignor)
        [[REBALANCE_IN_PROGRESS], [], [], []])). isl r \<or> r = Inr InProgress \<or> r = Inr (Revoked []))"
proof -
  let ?ops = "sample_group_ops [TopicPartition ''t'' 0]" and ?cp = "sample_classic CooperativeStickyAssignor"
  have first: "advance ?ops ?cp [0] = (Inr (Assigned [TopicPartition ''t'' 0, TopicPartition ''t'' 1]), ?cp, [])"
    by (simp add: advance_unfolds)
  have coop: "gm_protocol (cp_member ?cp) = Cooperative" by (simp add: sample_group_defs)
  have rs: "fst (reports ?ops ?cp [[REBALANCE_IN_PROGRESS], [], [], []]) =
      [Inr (Revoked []), Inr InProgress, Inr InProgress, Inr InProgress]" by code_simp
  have next_one: "fst (advance ?ops (snd (reports ?ops ?cp [[REBALANCE_IN_PROGRESS], [], [], []])) []) = Inr (Assigned [TopicPartition ''t'' 0])" by code_simp
  obtain cp2 where r: "reports ?ops ?cp [[REBALANCE_IN_PROGRESS], [], [], []] =
      ([Inr (Revoked []), Inr InProgress, Inr InProgress, Inr InProgress], cp2)" using rs by (metis prod.collapse)
  then obtain cp3 w where n: "advance ?ops cp2 [] = (Inr (Assigned [TopicPartition ''t'' 0]), cp3, w)" using next_one by (metis prod.collapse snd_conv)
  from cooperative_loss_is_silent [OF first coop r] r n first show ?thesis by simp
qed

text \<open>
  C26: a coordinator that died is never looked for again.  While the requests to the remembered
  address fail, every \<open>advance\<close> fails and leaves the protocol exactly as it was, the remembered address included,
  so \<open>FindCoordinator\<close> is not sent and no number of calls recovers.
\<close>

theorem dead_coordinator_is_kept:
  assumes "cp_coordinator cp = Some a"
    and "\<forall>w rq t. isl (fst (go_join ops w a rq t))" and "\<forall>w rq t. isl (fst (go_sync ops w a rq t))"
    and "\<forall>w rq t. isl (fst (go_heartbeat ops w a rq t))"
  shows "\<exists>e w'. advance ops cp w = (Inl e, cp, w')"
proof -
  have dead: "\<exists>e w'. go_join ops w a rq t = (Inl e, w')" "\<exists>e w'. go_sync ops w a rq2 t = (Inl e, w')"
    "\<exists>e w'. go_heartbeat ops w a rq3 t = (Inl e, w')" for w rq rq2 rq3 t
    using assms(2-4) by (metis isl_def prod.collapse)+
  have at: "at_coordinator ops k cp w = k a cp w" for k :: "string \<Rightarrow> classic_protocol \<Rightarrow> 'a \<Rightarrow> (client_error + 'r) \<times> classic_protocol \<times> 'a" and w
    by (simp add: at_coordinator_def group_coordinator_addr_def assms(1))
  have sync: "\<exists>e w'. classic_sync ops as cp w = (Inl e, cp, w')" for as w
    using dead(2) [of w "\<lparr>sq_group_id = gm_group_id (cp_member cp), sq_generation_id = gm_generation (cp_member cp),
           sq_member_id = gm_member_id (cp_member cp), sq_protocol_type = CONSUMER_PROTOCOL,
           sq_protocol_name = strategy_name (cp_assignor cp), sq_assignments = as\<rparr>" COORDINATOR_TIMEOUT]
    by (auto simp: classic_sync_def at Let_def)
  have heartbeat: "\<exists>e w'. classic_heartbeat ops cp w = (Inl e, cp, w')" for w
    using dead(3) [of w "\<lparr>mq_group_id = gm_group_id (cp_member cp), mq_generation_id = gm_generation (cp_member cp),
           mq_member_id = gm_member_id (cp_member cp)\<rparr>" COORDINATOR_TIMEOUT]
    by (auto simp: classic_heartbeat_def at Let_def)
  have join: "\<exists>e w'. classic_join ops cp w = (Inl e, cp, w')" for w
  proof (cases "encode_subscription (go_blobs ops) (member_subscription (cp_member cp))")
    case (Inl e)
    then show ?thesis by (simp add: classic_join_def at)
  next
    case (Inr metadata)
    with dead(1) [of w "\<lparr>jq_group_id = gm_group_id (cp_member cp), jq_session_timeout_ms = cp_session_timeout_ms cp,
        jq_rebalance_timeout_ms = cp_rebalance_timeout_ms cp, jq_member_id = gm_member_id (cp_member cp),
        jq_protocol_type = CONSUMER_PROTOCOL, jq_protocols = [(strategy_name (cp_assignor cp), metadata)]\<rparr>" "join_deadline cp"]
    show ?thesis by (auto simp: classic_join_def at Let_def)
  qed
  have lead: "\<exists>e w'. assign_and_sync ops ms cp w = (Inl e, cp, w')" for ms
  proof -
    have "\<exists>e w''. (case classic_sync ops as cp w' of (r, s) \<Rightarrow> (fails r, s)) = (Inl e, cp, w'')" for as w'
      using sync [of as w'] by (auto simp: fails_def)
    then show ?thesis
      by (auto simp: assign_and_sync_def split: prod.split sum.split)
  qed
  have "\<exists>e w'. take_step ops cp w = (Inl e, cp, w')"
    using join [of w] sync [of "[]" w] heartbeat [of w] lead
    by (auto simp: take_step_def member_next_step_def fails_def split: member_state.splits)
  then show ?thesis by (auto simp: advance_def)
qed


theorem dead_coordinator_is_kept_witness:
  "\<exists>e w. advance ((sample_group_ops [])\<lparr>go_join := (\<lambda>w a rq t. (Inl (Io a), w)), go_sync := (\<lambda>w a rq t. (Inl (Io a), w)),
       go_heartbeat := (\<lambda>w a rq t. (Inl (Io a), w))\<rparr>) (sample_classic RangeAssignor) [] =
     (Inl e, sample_classic RangeAssignor, w)"
  by (rule dead_coordinator_is_kept [of _ "''h:1''"]) (simp_all add: sample_group_defs)

section \<open>Offsets\<close>

lemma list_all_concat: "list_all P (concat xss) \<longleftrightarrow> list_all (list_all P) xss"
  by (induction xss) simp_all

lemma check_codes_ok: "check_codes op cs = Inr () \<longleftrightarrow> list_all (\<lambda>c. is_ok (ErrorCode c)) cs"
  by (induction cs) (auto simp: check_def)

text \<open>
  C16: offsets are committed only as the current member of the current generation.  Unless the member is stable
  in a generation, a commit is refused and nothing is sent.  Otherwise the one request that goes out carries that
  generation and member id and exactly the offsets given, and the commit succeeds exactly when the broker
  answers with no error for any partition.
\<close>

theorem commit_is_fenced:
  assumes "bt_wf offsets" and "offsets \<noteq> []" and "cp_coordinator cp = Some a"
  shows "(\<not> can_commit (cp_member cp) \<longrightarrow>
      commit_offsets ops offsets cp w = (Inl (Broker ''OffsetCommit'' REBALANCE_IN_PROGRESS Retry), cp, w)) \<and>
    (can_commit (cp_member cp) \<longrightarrow>
      (\<exists>rq r w1. go_commit ops w a rq COORDINATOR_TIMEOUT = (r, w1) \<and> snd (commit_offsets ops offsets cp w) = (cp, w1) \<and>
         cq_generation_id rq = gm_generation (cp_member cp) \<and> cq_member_id rq = gm_member_id (cp_member cp) \<and>
         cq_group_id rq = gm_group_id (cp_member cp) \<and>
         (\<forall>t p off. (t, p, off, - 1) \<in> set (concat (map (\<lambda>(t, ps). map (Pair t) ps) (cq_topics rq))) \<longleftrightarrow>
            bt_get offsets (TopicPartition t p) = Some off) \<and>
         (fst (commit_offsets ops offsets cp w) = Inr () \<longleftrightarrow>
            (\<exists>resp. r = Inr resp \<and> list_all (\<lambda>(_, ps). list_all (\<lambda>(_, c). is_ok (ErrorCode c)) ps) resp))))"
proof (cases "can_commit (cp_member cp)")
  case False
  with assms show ?thesis by (simp add: commit_offsets_def)
next
  case True
  define rq where "rq = \<lparr>cq_group_id = gm_group_id (cp_member cp), cq_generation_id = gm_generation (cp_member cp),
    cq_member_id = gm_member_id (cp_member cp),
    cq_topics = bt_group (\<lambda>(tp, _). tp_topic tp) (\<lambda>(tp, offset). (tp_partition tp, offset, - 1)) offsets\<rparr>"
  obtain r w1 where call: "go_commit ops w a rq COORDINATOR_TIMEOUT = (r, w1)" by force
  have c: "commit_offsets ops offsets cp w =
      (case r of Inl e \<Rightarrow> Inl e | Inr resp \<Rightarrow> check_codes ''OffsetCommit'' (concat (map (\<lambda>(_, ps). map snd ps) resp)), cp, w1)"
    using True assms(2,3) call
    by (simp add: commit_offsets_def at_coordinator_def group_coordinator_addr_def rq_def split: sum.split)
  have "(t, p, off, - 1) \<in> set (concat (map (\<lambda>(t, ps). map (Pair t) ps) (cq_topics rq))) \<longleftrightarrow>
      bt_get offsets (TopicPartition t p) = Some off" for t p off
  proof -
    have topics: "cq_topics rq = bt_group (\<lambda>(tp, _). tp_topic tp) (\<lambda>(tp, offset). (tp_partition tp, offset, - 1)) offsets"
      by (simp add: rq_def)
    have "(TopicPartition t p, off) \<in> set offsets \<longleftrightarrow>
        (\<exists>x\<in>set offsets. (case x of (tp, _) \<Rightarrow> tp_topic tp) = t \<and> (case x of (tp, offset) \<Rightarrow> (tp_partition tp, offset, - 1 :: int)) = (p, off, - 1))"
      by (force simp: topic_partition.expand)
    then show ?thesis
      unfolding bt_group_items [OF topics] bt_mem_get [OF assms(1), symmetric] by (simp only: simp_thms)
  qed
  moreover have "fst (commit_offsets ops offsets cp w) = Inr () \<longleftrightarrow>
      (\<exists>resp. r = Inr resp \<and> list_all (\<lambda>(_, ps). list_all (\<lambda>(_, c). is_ok (ErrorCode c)) ps) resp)"
    unfolding c by (cases r) (simp_all add: check_codes_ok list.pred_map list_all_concat split_def comp_def)
  moreover have "snd (commit_offsets ops offsets cp w) = (cp, w1)" by (simp add: c)
  ultimately show ?thesis
    using call True by (intro conjI impI exI [of _ rq] exI [of _ r] exI [of _ w1]) (simp_all add: rq_def)
qed

theorem commit_is_fenced_witness:
  "fst (commit_offsets (sample_group_ops []) [(TopicPartition ''t'' 0, 7)] (sample_classic RangeAssignor) []) = Inr ()"
proof -
  have "bt_wf [(TopicPartition ''t'' 0, 7 :: int)]" by (simp add: bt_wf_def)
  moreover have "can_commit (cp_member (sample_classic RangeAssignor))"
    by (simp add: can_commit_def sample_group_defs NO_GENERATION_def)
  moreover have "cp_coordinator (sample_classic RangeAssignor) = Some ''h:1''" by (simp add: sample_group_defs)
  ultimately show ?thesis
    using commit_is_fenced [of "[(TopicPartition ''t'' 0, 7)]" "sample_classic RangeAssignor" "''h:1''" "sample_group_ops []" "[]"]
    by (auto simp: sample_group_ops_def is_ok_def NONE_def)
qed

text \<open>The partitions an \<open>OffsetFetch\<close> answer names, in order.\<close>

definition fetched_entries :: "offset_fetch_response \<Rightarrow> (topic_partition \<times> int \<times> int) list" where
  "fetched_entries resp = concat (map (\<lambda>(t, ps). map (\<lambda>(i, off, c). (TopicPartition t i, off, c)) ps) (of_topics resp))"

definition noted :: "topic_partition \<times> int \<times> int \<Rightarrow> (topic_partition, int) btree \<Rightarrow> client_error + (topic_partition, int) btree" where
  "noted x = (case x of (tp, off, c) \<Rightarrow> note_committed (tp_topic tp) (tp_partition tp, off, c))"

lemma fold_fetched:
  "fold_sum (\<lambda>(topic, ps). fold_sum (note_committed topic) ps) (of_topics resp) m = fold_sum noted (fetched_entries resp) m"
proof -
  have "(\<lambda>(topic, ps). fold_sum (note_committed topic) ps) =
      (\<lambda>x. fold_sum noted (case x of (t, ps) \<Rightarrow> map (\<lambda>(i, off, c). (TopicPartition t i, off, c)) ps))"
    by (simp add: fun_eq_iff fold_sum_map noted_def split_def)
  then show ?thesis unfolding fetched_entries_def by (simp only: fold_sum_concat)
qed

lemma fold_noted:
  "bt_wf m \<Longrightarrow>
   if list_all (\<lambda>(_, _, c). is_ok (ErrorCode c)) xs
   then \<exists>m'. fold_sum noted xs m = Inr m' \<and> bt_wf m' \<and>
     (\<forall>tp. bt_get m' tp =
        (case map_of (rev (map (\<lambda>(tp, off, _). (tp, off)) (filter (\<lambda>(_, off, _). 0 \<le> off) xs))) tp of
           Some off \<Rightarrow> Some off | None \<Rightarrow> bt_get m tp))
   else \<exists>e. fold_sum noted xs m = Inl e"
proof (induction xs arbitrary: m)
  case Nil
  then show ?case by simp
next
  case (Cons x xs)
  obtain t i off c where x: "x = (TopicPartition t i, off, c)" by (metis prod_cases3 topic_partition.exhaust)
  show ?case
  proof (cases "is_ok (ErrorCode c)")
    case False
    then show ?thesis by (simp add: x noted_def note_committed_def check_def)
  next
    case True
    let ?m = "if 0 \<le> off then bt_insert (TopicPartition t i) off m else m"
    have wf: "bt_wf ?m" using Cons.prems by simp
    have step: "fold_sum noted (x # xs) m = fold_sum noted xs ?m"
      using True by (simp add: x noted_def note_committed_def check_def)
    show ?thesis
    proof (cases "list_all (\<lambda>(_, _, c). is_ok (ErrorCode c)) xs")
      case all: True
      with Cons.IH [OF wf] obtain m' where m': "fold_sum noted xs ?m = Inr m'" "bt_wf m'"
        "\<And>tp. bt_get m' tp = (case map_of (rev (map (\<lambda>(tp, off, _). (tp, off)) (filter (\<lambda>(_, off, _). 0 \<le> off) xs))) tp of
             Some off \<Rightarrow> Some off | None \<Rightarrow> bt_get ?m tp)" by auto
      have "bt_get m' tp = (case map_of (rev (map (\<lambda>(tp, off, _). (tp, off)) (filter (\<lambda>(_, off, _). 0 \<le> off) (x # xs)))) tp of
             Some off \<Rightarrow> Some off | None \<Rightarrow> bt_get m tp)" for tp
        unfolding m'(3) by (simp add: x btree_simps map_add_def split: option.split)
      with all True m'(1,2) step show ?thesis by (simp add: x)
    next
      case False
      with Cons.IH [OF wf] step show ?thesis by (auto simp: x)
    qed
  qed
qed

text \<open>
  Never committed is not committed at zero.  When the coordinator answers an \<open>OffsetFetch\<close> without any error,
  the result maps each partition to the last non-negative offset the answer has for it, and a partition
  whose offset is only ever negative (\<open>- 1\<close>, never committed) is absent; any error
  code fails the whole call.
\<close>

theorem never_committed_is_absent:
  assumes "tps \<noteq> []" and "cp_coordinator cp = Some a"
    and "go_fetch_offsets ops w a (gm_group_id (cp_member cp), by_topic tps) COORDINATOR_TIMEOUT = (Inr resp, w1)"
  shows "\<exists>r. classic_fetch_offsets ops tps cp w = (r, cp, w1) \<and>
     (if is_ok (ErrorCode (of_error_code resp)) \<and> list_all (\<lambda>(_, _, c). is_ok (ErrorCode c)) (fetched_entries resp)
      then \<exists>m. r = Inr m \<and> bt_wf m \<and>
        (\<forall>tp. bt_get m tp = map_of (rev (map (\<lambda>(tp, off, _). (tp, off)) (filter (\<lambda>(_, off, _). 0 \<le> off) (fetched_entries resp)))) tp)
      else isl r)"
proof -
  let ?r = "bind_sum (check ''OffsetFetch'' (of_error_code resp)) (\<lambda>_. fold_sum noted (fetched_entries resp) [])"
  have f: "classic_fetch_offsets ops tps cp w = (?r, cp, w1)"
    using assms by (simp add: classic_fetch_offsets_def at_coordinator_def group_coordinator_addr_def fold_fetched)
  have opt: "(case z of None \<Rightarrow> bt_get [] tp | Some y \<Rightarrow> Some y) = z" for z :: "int option" and tp :: topic_partition
    by (cases z) simp_all
  show ?thesis
    using fold_noted [OF bt_wf_Nil, of "fetched_entries resp"] unfolding f
    unfolding opt by (auto simp: check_def split: if_splits)
qed

theorem never_committed_is_absent_witness:
  "\<exists>m. fst (classic_fetch_offsets (sample_group_ops []) [TopicPartition ''t'' 0, TopicPartition ''t'' 1] (sample_classic RangeAssignor) []) = Inr m \<and>
     bt_get m (TopicPartition ''t'' 0) = Some 42 \<and> bt_get m (TopicPartition ''t'' 1) = None"
proof -
  let ?resp = "\<lparr>of_error_code = 0, of_topics = [(''t'', [(0, 42, 0), (1, - 1, 0)])]\<rparr>"
  have "go_fetch_offsets (sample_group_ops []) [] ''h:1'' (gm_group_id (cp_member (sample_classic RangeAssignor)),
      by_topic [TopicPartition ''t'' 0, TopicPartition ''t'' 1]) COORDINATOR_TIMEOUT = (Inr ?resp, [])"
    by (simp add: sample_group_ops_def)
  from never_committed_is_absent [OF _ _ this] show ?thesis
    by (auto simp: sample_classic_def fetched_entries_def is_ok_def NONE_def)
qed

end
