(* ===== verification/Consumer_Laws.thy ===== *)
theory Consumer_Laws
  imports Consumer_Client Group_Laws
begin

text \<open>
  What the consumer promises over \<open>Consumer_Client\<close>: the state stays well formed under every operation; a poll
  sends one fetch per broker, for exactly the partitions that are held and not paused; a fetch session tells the
  broker every position; fetching never panics and never delivers an offset twice; where the group
  puts the positions; and the error paths that lose records, the membership or a position.
\<close>

section \<open>A cluster to evaluate with\<close>

text \<open>An old batch that holds one record, and an answer with it and an error for the partition after it.\<close>

definition old_batch :: bytes where
  "old_batch = replicate 8 0 @ [0, 0, 0, 49] @ replicate 49 0"

definition sample_reply :: fetch_reply where
  "sample_reply = \<lparr>fs_error_code = 0, fs_session_id = 7, fs_responses =
     [(''t'', [\<lparr>pa_index = 0, pa_error_code = 0, pa_last_stable_offset = 9, pa_aborted = None, pa_records = Some old_batch\<rparr>,
              \<lparr>pa_index = 1, pa_error_code = 6, pa_last_stable_offset = 9, pa_aborted = None, pa_records = None\<rparr>])]\<rparr>"

definition sample_consumer_ops :: "int list consumer_ops" where
  "sample_consumer_ops =
     \<lparr>co_leader_addr = (\<lambda>w t p. (Inr ''b:1'', w)), co_refresh_metadata = (\<lambda>w t. (Inr (), w)), co_is_stale = (\<lambda>w t. False),
      co_refresh_if_stale = (\<lambda>w t. (Inr None, w)), co_invalidate = (\<lambda>w t p. w),
      co_list_offsets = (\<lambda>w a rq. (Inl (Io ''reset''), w)), co_send_fetch = (\<lambda>w a rq. (Inr (), w)),
      co_recv_fetches = (\<lambda>w as. (map (\<lambda>_. Inr sample_reply) as, w)), co_discard = (\<lambda>w as. w), co_sleep = (\<lambda>w n. w),
      co_now = (\<lambda>w. 0), co_codecs = zero_codecs, co_decode_set = (\<lambda>bs. Inr ([sample_record 5 False None], 49)),
      co_group = sample_group_ops []\<rparr>"

definition sample_consumer :: consumer where
  "sample_consumer = (new_consumer ReadUncommitted)\<lparr>cs_positions := [((''t'', 0), 5), ((''t'', 1), 9)]\<rparr>"

lemmas sample_consumer_defs = sample_consumer_ops_def sample_consumer_def new_consumer_def

section \<open>Sending fetches\<close>

lemma plan_fetches_groups:
  "plan_fetches ops keys m w = (Inr by_broker, w') \<Longrightarrow> bt_wf m \<Longrightarrow>
   bt_wf by_broker \<and> mset (concat (bt_values by_broker)) = mset (concat (bt_values m)) + mset keys \<and>
   (m \<noteq> [] \<or> keys \<noteq> [] \<longrightarrow> by_broker \<noteq> []) \<and> (list_all (\<lambda>ks. ks \<noteq> []) (bt_values m) \<longrightarrow> list_all (\<lambda>ks. ks \<noteq> []) (bt_values by_broker))"
proof (induction keys arbitrary: m w)
  case Nil
  then show ?case by simp
next
  case (Cons key keys)
  obtain t p where key: "key = (t, p)" by force
  obtain a w1 where a: "co_leader_addr ops w t p = (Inr a, w1)"
    and r: "plan_fetches ops keys (bt_entry a [] (\<lambda>ks. ks @ [key]) m) w1 = (Inr by_broker, w')"
    using Cons.prems(1) by (auto simp: key split: prod.splits sum.splits)
  have "bt_wf (bt_entry a [] (\<lambda>ks. ks @ [key]) m)" using Cons.prems(2) by simp
  note IH = Cons.IH [OF r this]
  have "bt_entry a [] (\<lambda>ks. ks @ [key]) m \<noteq> []"
    using bt_entry_get [of a "[]" "\<lambda>ks. ks @ [key]" m a] by auto
  moreover have "mset (concat (bt_values (bt_entry a [] (\<lambda>ks. ks @ [key]) m))) = mset (concat (bt_values m)) + {#key#}"
    using Cons.prems(2) by (rule mset_values_push)
  moreover have "list_all (\<lambda>ks. ks \<noteq> []) (bt_values m) \<longrightarrow> list_all (\<lambda>ks. ks \<noteq> []) (bt_values (bt_entry a [] (\<lambda>ks. ks @ [key]) m))"
    using set_bt_entry [OF Cons.prems(2), of a "[]" "\<lambda>ks. ks @ [key]"] by (fastforce simp: list_all_iff bt_values_def)
  ultimately show ?case using IH by simp
qed

lemma send_fetches_sent:
  "send_fetches ops planned w = (sent, failure, w') \<Longrightarrow>
   \<exists>n. sent = map (\<lambda>(a, keys, _). (a, keys)) (take n planned) \<and> (failure = None \<longrightarrow> n = length planned)"
proof (induction planned arbitrary: w sent)
  case Nil
  then show ?case by auto
next
  case (Cons x planned)
  obtain a keys rq where x: "x = (a, keys, rq)" by (metis prod_cases3)
  show ?case
  proof (cases "co_send_fetch ops w a rq")
    case (Pair r w1)
    show ?thesis
    proof (cases r)
      case (Inl e)
      with Pair Cons.prems show ?thesis by (intro exI [of _ 0]) (auto simp: x)
    next
      case (Inr u)
      with Pair Cons.prems obtain sent' where "send_fetches ops planned w1 = (sent', failure, w')" and s: "sent = (a, keys) # sent'"
        by (auto simp: x split: prod.splits)
      with Cons.IH obtain n where "sent' = map (\<lambda>(a, keys, _). (a, keys)) (take n planned)" "failure = None \<longrightarrow> n = length planned"
        by blast
      with s show ?thesis by (intro exI [of _ "Suc n"]) (auto simp: x)
    qed
  qed
qed

lemma issue_fetch_covers:
  assumes "issue_fetch ops c w = (Inr (), c', w')" and "fetchable c \<noteq> []"
  shows "\<exists>groups. c' = c\<lparr>cs_outstanding := Some \<lparr>ot_groups = groups, ot_generation = cs_generation c\<rparr>\<rparr> \<and>
     distinct (map fst groups) \<and> list_all (\<lambda>(_, keys). keys \<noteq> []) groups \<and>
     mset (concat (map snd groups)) = mset (fetchable c)"
proof -
  obtain by_broker w1 where p: "plan_fetches ops (fetchable c) [] w = (Inr by_broker, w1)"
    using assms(1) by (auto simp: issue_fetch_def split: prod.splits sum.splits)
  obtain sent failure w2 where s:
    "send_fetches ops (map (\<lambda>(a, keys). (a, keys, build_fetch_request c a keys)) by_broker) w1 = (sent, failure, w2)"
    by (rule prod_cases3)
  have r: "failure = None" "c' = (if sent = [] then c else c\<lparr>cs_outstanding := Some \<lparr>ot_groups = sent, ot_generation = cs_generation c\<rparr>\<rparr>)"
    using assms(1) p s by (simp_all add: issue_fetch_def split: option.splits)
  have "sent = by_broker"
    using send_fetches_sent [OF s] r(1) by (auto simp: case_prod_beta' comp_def)
  moreover have b: "bt_wf by_broker" "mset (concat (bt_values by_broker)) = mset (fetchable c)"
    "by_broker \<noteq> []" "list_all (\<lambda>ks. ks \<noteq> []) (bt_values by_broker)"
    using plan_fetches_groups [OF p bt_wf_Nil] assms(2) by (simp_all add: bt_values_def)
  moreover have "distinct (map fst by_broker)" using bt_wf_distinct [OF b(1)] by (simp add: bt_keys_def)
  ultimately show ?thesis
    using r(2) by (intro exI [of _ by_broker]) (simp add: bt_values_def list_all_iff case_prod_beta')
qed

section \<open>Fetch sessions\<close>

text \<open>The partitions a request names, and what the broker's session holds after it (KIP-227): a full fetch starts it afresh.\<close>

definition named :: "fetch_request \<Rightarrow> (partition_key \<times> int) list" where
  "named rq = concat (map (\<lambda>(t, ps). map (\<lambda>p. ((t, fq_partition p), fq_fetch_offset p)) ps) (fr_topics rq))"

definition broker_session :: "(partition_key \<Rightarrow> int option) \<Rightarrow> fetch_request \<Rightarrow> partition_key \<Rightarrow> int option" where
  "broker_session v rq = (if fr_session_id rq = 0 then Map.empty else v) ++ map_of (named rq)"

lemma named_build:
  "(key, off) \<in> set (named (build_fetch_request c a keys)) \<longleftrightarrow>
     key \<in> set keys \<and> \<not> already_known c a key \<and> off = (case bt_get (cs_positions c) key of None \<Rightarrow> 0 | Some off \<Rightarrow> off)"
proof -
  define ks where "ks = filter (\<lambda>key. \<not> already_known c a key) keys"
  let ?off = "\<lambda>key. case bt_get (cs_positions c) key of None \<Rightarrow> 0 | Some off \<Rightarrow> off"
  have n: "named (build_fetch_request c a keys) = concat (map (\<lambda>(t, ps). map (\<lambda>p. ((t, p), ?off (t, p))) ps) (bt_group fst snd ks))"
    by (simp add: named_def build_fetch_request_def ks_def Let_def comp_def case_prod_beta')
  also have "\<dots> = map (\<lambda>key. (key, ?off key)) (concat (map (\<lambda>(t, ys). map (Pair t) ys) (bt_group fst snd ks)))"
    by (simp add: map_concat comp_def case_prod_beta')
  finally have "(key, off) \<in> set (named (build_fetch_request c a keys)) \<longleftrightarrow>
      key \<in> set (concat (map (\<lambda>(t, ys). map (Pair t) ys) (bt_group fst snd ks))) \<and> off = ?off key"
    by (simp only: set_map) blast
  moreover have "key \<in> set (concat (map (\<lambda>(t, ys). map (Pair t) ys) (bt_group fst snd ks))) \<longleftrightarrow> key \<in> set ks"
  proof -
    have "(\<exists>x\<in>set ks. fst x = fst key \<and> snd x = snd key) \<longleftrightarrow> key \<in> set ks"
      by (metis prod_eqI)
    then show ?thesis using bt_group_items [OF refl, of "fst key" "snd key" fst snd ks] by (simp only: prod.collapse)
  qed
  ultimately show ?thesis by (simp add: ks_def)
qed

text \<open>
  What can be seen of the world while a fetch is issued: the fetch requests written so far, and which broker leads a partition, as long as that does
  not change.
\<close>

definition fetch_world :: "('w \<Rightarrow> (string \<times> fetch_request) list) \<Rightarrow> (string \<Rightarrow> int \<Rightarrow> string) \<Rightarrow> 'w consumer_ops \<Rightarrow> bool" where
  "fetch_world sent leader ops \<longleftrightarrow>
     (\<forall>w t p r w'. co_leader_addr ops w t p = (r, w') \<longrightarrow> sent w' = sent w \<and> (\<forall>a. r = Inr a \<longrightarrow> a = leader t p)) \<and>
     (\<forall>w a rq r w'. co_send_fetch ops w a rq = (r, w') \<longrightarrow> sent w' = sent w @ (if isl r then [] else [(a, rq)]))"

lemma plan_fetches_leaders:
  assumes "fetch_world sent leader ops" and "plan_fetches ops keys m w = (Inr by_broker, w')" and "bt_wf m"
    and "\<forall>(a, ks)\<in>set m. \<forall>(t, p)\<in>set ks. leader t p = a"
  shows "sent w' = sent w \<and> (\<forall>(a, ks)\<in>set by_broker. \<forall>(t, p)\<in>set ks. leader t p = a)"
  using assms(2-4)
proof (induction keys arbitrary: m w)
  case Nil
  then show ?case by simp
next
  case (Cons key keys)
  obtain t p where key: "key = (t, p)" by force
  obtain a w1 where a: "co_leader_addr ops w t p = (Inr a, w1)"
    and r: "plan_fetches ops keys (bt_entry a [] (\<lambda>ks. ks @ [key]) m) w1 = (Inr by_broker, w')"
    using Cons.prems(1) by (auto simp: key split: prod.splits sum.splits)
  have l: "sent w1 = sent w" "leader t p = a" using assms(1) a unfolding fetch_world_def by metis+
  have "bt_wf (bt_entry a [] (\<lambda>ks. ks @ [key]) m)" using Cons.prems(2) by simp
  moreover have "\<forall>(a, ks)\<in>set (bt_entry a [] (\<lambda>ks. ks @ [key]) m). \<forall>(t, p)\<in>set ks. leader t p = a"
    using set_bt_entry [OF Cons.prems(2), of a "[]" "\<lambda>ks. ks @ [key]"] Cons.prems(3) l(2) map_of_SomeD [of m a]
    by (fastforce simp: key bt_get_def split: option.splits)
  ultimately show ?case using Cons.IH [OF r] l(1) by simp
qed

lemma send_fetches_log:
  assumes "fetch_world sent leader ops" and "send_fetches ops planned w = (groups, None, w')"
  shows "sent w' = sent w @ map (\<lambda>(a, _, rq). (a, rq)) planned"
  using assms(2)
proof (induction planned arbitrary: w groups)
  case (Cons x planned)
  obtain a keys rq where x: "x = (a, keys, rq)" by (metis prod_cases3)
  obtain u w1 groups' where s: "co_send_fetch ops w a rq = (Inr u, w1)" "send_fetches ops planned w1 = (groups', None, w')"
    using Cons.prems by (auto simp: x split: prod.splits sum.splits)
  have "sent w1 = sent w @ (if isl (Inr u :: client_error + unit) then [] else [(a, rq)])"
    using assms(1) s(1) unfolding fetch_world_def by blast
  then have "sent w1 = sent w @ [(a, rq)]" by simp
  with Cons.IH [OF s(2)] show ?case by (simp add: x)
qed simp

text \<open>
  C13: one fetch per leader, for what may be read.  When issuing the fetch succeeds and some partition is held and not paused, one request was written to each of
  a set of distinct brokers, and to no other: each broker is asked about partitions it leads, together they are exactly the partitions
  held and not paused, each once; a request names only partitions of its broker, each at the consumer's position; and what was asked of whom is
  recorded as outstanding under the current generation.
\<close>

theorem one_fetch_per_broker:
  assumes "fetch_world sent leader ops" and "issue_fetch ops c w = (Inr (), c', w')"
    and "k \<in> set (bt_keys (cs_positions c))" and "bt_get (cs_paused c) k = None"
  shows "\<exists>groups. c' = c\<lparr>cs_outstanding := Some \<lparr>ot_groups = groups, ot_generation = cs_generation c\<rparr>\<rparr> \<and>
     sent w' = sent w @ map (\<lambda>(a, keys). (a, build_fetch_request c a keys)) groups \<and>
     distinct (map fst groups) \<and>
     (\<forall>(a, keys)\<in>set groups. keys \<noteq> [] \<and> (\<forall>(t, p)\<in>set keys. leader t p = a) \<and>
        (\<forall>(key, off)\<in>set (named (build_fetch_request c a keys)). key \<in> set keys \<and> bt_get (cs_positions c) key = Some off)) \<and>
     mset (concat (map snd groups)) = mset (filter (\<lambda>k. bt_get (cs_paused c) k = None) (bt_keys (cs_positions c)))"
proof -
  have "k \<in> set (fetchable c)" using assms(3,4) by (simp add: fetchable_def)
  then have ne: "fetchable c \<noteq> []" by auto
  obtain groups where g: "c' = c\<lparr>cs_outstanding := Some \<lparr>ot_groups = groups, ot_generation = cs_generation c\<rparr>\<rparr>"
     "distinct (map fst groups)" "list_all (\<lambda>(_, keys). keys \<noteq> []) groups" "mset (concat (map snd groups)) = mset (fetchable c)"
    using issue_fetch_covers [OF assms(2) ne] by blast
  obtain by_broker w1 where p: "plan_fetches ops (fetchable c) [] w = (Inr by_broker, w1)"
    using assms(2) by (auto simp: issue_fetch_def split: prod.splits sum.splits)
  obtain grps failure w2 where s:
    "send_fetches ops (map (\<lambda>(a, keys). (a, keys, build_fetch_request c a keys)) by_broker) w1 = (grps, failure, w2)"
    by (rule prod_cases3)
  have r: "failure = None" "w2 = w'" "c' = (if grps = [] then c else c\<lparr>cs_outstanding := Some \<lparr>ot_groups = grps, ot_generation = cs_generation c\<rparr>\<rparr>)"
    using assms(2) p s by (simp_all add: issue_fetch_def split: option.splits)
  have "grps = by_broker" using send_fetches_sent [OF s] r(1) by (auto simp: case_prod_beta' comp_def)
  moreover have "by_broker \<noteq> []" using plan_fetches_groups [OF p bt_wf_Nil] ne by simp
  ultimately have b: "groups = by_broker" using r(3) g(1) by (auto dest!: arg_cong [of _ _ cs_outstanding])
  note l = plan_fetches_leaders [OF assms(1) p bt_wf_Nil]
  have "sent w' = sent w @ map (\<lambda>(a, keys). (a, build_fetch_request c a keys)) groups"
    using send_fetches_log [OF assms(1), of _ w1 grps w'] s l unfolding r(1,2) b by (simp add: comp_def case_prod_beta')
  moreover have "bt_get (cs_positions c) key = Some off" if "(a, keys) \<in> set groups" "(key, off) \<in> set (named (build_fetch_request c a keys))" for a keys key off
  proof -
    have "key \<in> set (concat (map snd groups))" using that named_build by fastforce
    then have "key \<in> set (fetchable c)" using g(4) by (metis set_mset_mset)
    then have "bt_get (cs_positions c) key \<noteq> None" by (simp add: fetchable_def bt_keys_get)
    with that(2) show ?thesis unfolding named_build by auto
  qed
  ultimately show ?thesis
    using g l unfolding b by (intro exI [of _ by_broker]) (auto simp: list_all_iff fetchable_def named_build)
qed

text \<open>A world that records what is written to its one broker.\<close>

definition logging_ops :: "(string \<times> fetch_request) list consumer_ops" where
  "logging_ops = \<lparr>co_leader_addr = (\<lambda>w t p. (Inr ''b:1'', w)), co_refresh_metadata = (\<lambda>w t. (Inr (), w)), co_is_stale = (\<lambda>w t. False),
     co_refresh_if_stale = (\<lambda>w t. (Inr None, w)), co_invalidate = (\<lambda>w t p. w), co_list_offsets = (\<lambda>w a rq. (Inl (Io []), w)),
     co_send_fetch = (\<lambda>w a rq. (Inr (), w @ [(a, rq)])), co_recv_fetches = (\<lambda>w as. ([], w)), co_discard = (\<lambda>w as. w), co_sleep = (\<lambda>w d. w),
     co_now = (\<lambda>w. 0), co_codecs = zero_codecs, co_decode_set = (\<lambda>bs. Inl []), co_group = undefined\<rparr>"

theorem one_fetch_per_broker_witness:
  "\<exists>groups. distinct (map fst groups) \<and> mset (concat (map snd groups)) = {#(''t'', 1)#} \<and>
     cs_outstanding (fst (snd (issue_fetch logging_ops (sample_consumer\<lparr>cs_paused := [((''t'', 0), ())]\<rparr>) []))) =
       Some \<lparr>ot_groups = groups, ot_generation = 0\<rparr>"
proof -
  let ?c = "sample_consumer\<lparr>cs_paused := [((''t'', 0), ())]\<rparr>"
  have f: "fetchable ?c = [(''t'', 1)]" "bt_keys (cs_positions ?c) = [(''t'', 0), (''t'', 1)]" "cs_generation ?c = 0"
    by (simp_all add: fetchable_def sample_consumer_defs bt_keys_def bt_get_def)
  obtain c' w' where c': "issue_fetch logging_ops ?c [] = (Inr (), c', w')"
    by (simp add: issue_fetch_def f logging_ops_def bt_entry_def bt_get_def)
  have "fetch_world (\<lambda>w. w) (\<lambda>_ _. ''b:1'') logging_ops" by (simp add: fetch_world_def logging_ops_def)
  from one_fetch_per_broker [OF this c', of "(''t'', 1)"] f c' show ?thesis by (auto simp: bt_get_def)
qed

lemma map_of_named:
  "map_of (named (build_fetch_request c a keys)) key =
     (if key \<in> set keys \<and> \<not> already_known c a key
      then Some (case bt_get (cs_positions c) key of None \<Rightarrow> 0 | Some off \<Rightarrow> off) else None)"
proof (cases "map_of (named (build_fetch_request c a keys)) key")
  case None
  then have "key \<notin> fst ` set (named (build_fetch_request c a keys))" by (simp add: map_of_eq_None_iff)
  then have "\<forall>off. (key, off) \<notin> set (named (build_fetch_request c a keys))" by force
  then have "\<not> (key \<in> set keys \<and> \<not> already_known c a key)" unfolding named_build by blast
  with None show ?thesis by simp
next
  case (Some off)
  then have "(key, off) \<in> set (named (build_fetch_request c a keys))" by (rule map_of_SomeD)
  with Some show ?thesis unfolding named_build by simp
qed

lemma known_after:
  "distinct keys \<Longrightarrow>
   bt_get (fold (\<lambda>key known. case bt_get pos key of None \<Rightarrow> known | Some off \<Rightarrow> bt_insert key off known) keys known) k =
     (if k \<in> set keys \<and> bt_get pos k \<noteq> None then bt_get pos k else bt_get known k)"
  by (induction keys arbitrary: known) (auto simp: btree_simps split: option.splits)

definition session_at :: "consumer \<Rightarrow> string \<Rightarrow> fetch_session" where
  "session_at c a = (case bt_get (cs_sessions c) a of None \<Rightarrow> default_session | Some s \<Rightarrow> s)"

text \<open>What the client believes the broker holds is what it holds, and nothing is believed before there is a session.\<close>

definition session_agrees :: "fetch_session \<Rightarrow> (partition_key \<Rightarrow> int option) \<Rightarrow> bool" where
  "session_agrees s v \<longleftrightarrow>
     (ss_id s = 0 \<longrightarrow> ss_known s = []) \<and> (\<forall>key off. bt_get (ss_known s) key = Some off \<longrightarrow> v key = Some off)"

lemma session_round:
  assumes "session_agrees (session_at c a) v" and "cs_incremental c" and "distinct keys"
    and "\<forall>key\<in>set keys. bt_get (cs_positions c) key \<noteq> None" and "fs_session_id resp \<noteq> 0"
  defines "v' \<equiv> broker_session v (build_fetch_request c a keys)"
  shows "(\<forall>key\<in>set keys. v' key = bt_get (cs_positions c) key) \<and>
     session_agrees (session_at (accept_session a keys resp c) a) v'"
proof -
  let ?s = "session_at c a"
  have known: "already_known c a key \<longleftrightarrow> ss_id ?s \<noteq> 0 \<and> bt_get (ss_known ?s) key = bt_get (cs_positions c) key" for key
    using assms(2) by (simp add: already_known_def session_at_def default_session_def split: option.split)
  have sid: "fr_session_id (build_fetch_request c a keys) = ss_id ?s"
    using assms(2) by (simp add: build_fetch_request_def session_at_def default_session_def Let_def split: option.split)
  have agree: "bt_get (ss_known ?s) key = Some off \<Longrightarrow> v key = Some off" for key off
    using assms(1) unfolding session_agrees_def by blast
  have v': "v' key = (if key \<in> set keys \<and> \<not> already_known c a key
      then Some (case bt_get (cs_positions c) key of None \<Rightarrow> 0 | Some off \<Rightarrow> off)
      else if ss_id ?s = 0 then None else v key)" for key
    by (simp add: v'_def broker_session_def sid map_add_def map_of_named)
  have all: "\<forall>key\<in>set keys. v' key = bt_get (cs_positions c) key"
  proof
    fix key assume key: "key \<in> set keys"
    with assms(4) obtain off where "bt_get (cs_positions c) key = Some off" by blast
    with key agree [of key off] show "v' key = bt_get (cs_positions c) key" by (auto simp: v' known)
  qed
  have s': "session_at (accept_session a keys resp c) a =
      ?s\<lparr>ss_id := fs_session_id resp, ss_epoch := max (wrap32 (ss_epoch ?s + 1)) 1,
         ss_known := fold (\<lambda>key known. case bt_get (cs_positions c) key of None \<Rightarrow> known | Some off \<Rightarrow> bt_insert key off known)
           keys (ss_known ?s)\<rparr>"
    using assms(2) by (simp add: accept_session_def session_at_def btree_simps Let_def)
  have "v' key = Some off" if "bt_get (ss_known (session_at (accept_session a keys resp c) a)) key = Some off" for key off
  proof (cases "key \<in> set keys")
    case True
    with that all assms(4) show ?thesis by (simp add: s' known_after [OF assms(3)])
  next
    case False
    with that have k: "bt_get (ss_known ?s) key = Some off" by (simp add: s' known_after [OF assms(3)])
    then have "ss_id ?s \<noteq> 0" using assms(1) by (auto simp: session_agrees_def)
    with False agree [OF k] show ?thesis by (simp add: v')
  qed
  then have "session_agrees (session_at (accept_session a keys resp c) a) v'"
    using assms(5) by (simp add: session_agrees_def s')
  with all show ?thesis by blast
qed

text \<open>
  C11: incremental fetches say as much as full ones.  If what the client believes the broker's session holds is what it
  holds, then after the next request the session has the client's position for every partition asked about,
  although only the ones that moved were named; and once the answer is accepted the belief is true again.
\<close>

theorem incremental_fetch_is_complete:
  assumes "session_agrees (session_at c a) v" and "cs_incremental c" and "distinct keys"
    and "\<forall>key\<in>set keys. bt_get (cs_positions c) key \<noteq> None" and "fs_session_id resp \<noteq> 0"
  shows "(\<forall>key\<in>set keys. broker_session v (build_fetch_request c a keys) key = bt_get (cs_positions c) key) \<and>
     session_agrees (session_at (accept_session a keys resp c) a) (broker_session v (build_fetch_request c a keys))"
  using assms by (rule session_round)

theorem incremental_fetch_is_complete_witness:
  "broker_session Map.empty (build_fetch_request sample_consumer ''b:1'' [(''t'', 0), (''t'', 1)]) (''t'', 1) = Some 9"
proof -
  have "session_agrees (session_at sample_consumer ''b:1'') Map.empty"
    by (simp add: session_agrees_def session_at_def default_session_def sample_consumer_defs)
  from incremental_fetch_is_complete [OF this, of "[(''t'', 0), (''t'', 1)]" sample_reply] show ?thesis
    by (simp add: sample_consumer_defs sample_reply_def bt_get_def)
qed

text \<open>
  A declined session costs every other fetch.  A broker that has no room for a session answers with session id 0; the
  client counts the epoch up all the same, so its next request has no session and a positive epoch, which is the
  form of an incremental fetch in a session that does not exist and not that of a full fetch.
\<close>

theorem declined_session_is_not_restarted:
  assumes "cs_incremental c" and "fs_session_id resp = 0"
  shows "fr_session_id (build_fetch_request (accept_session a keys resp c) a keys') = 0 \<and>
     1 \<le> fr_session_epoch (build_fetch_request (accept_session a keys resp c) a keys')"
  using assms by (simp add: accept_session_def build_fetch_request_def btree_simps Let_def)

theorem declined_session_is_not_restarted_witness:
  "fr_session_id (build_fetch_request (accept_session ''b:1'' [(''t'', 0)] (sample_reply\<lparr>fs_session_id := 0\<rparr>) sample_consumer) ''b:1'' []) = 0 \<and>
   1 \<le> fr_session_epoch (build_fetch_request (accept_session ''b:1'' [(''t'', 0)] (sample_reply\<lparr>fs_session_id := 0\<rparr>) sample_consumer) ''b:1'' [])"
  by (rule declined_session_is_not_restarted) (simp_all add: sample_consumer_defs)

section \<open>Reading\<close>

lemma filter_batches_loop_total:
  "list_all batch_readable bs \<Longrightarrow> \<not> isl (filter_batches_loop rc lso fo bs pend opened kp nxt)"
proof (induction bs arbitrary: pend opened kp nxt)
  case Nil
  then show ?case by simp
next
  case (Cons b bs)
  have rest: "\<not> isl (filter_batches_loop rc lso fo bs pend' opened' kp' nxt')" for pend' opened' kp' nxt'
    using Cons.IH Cons.prems by simp
  have "list_all (lean_ok b) (lb_records b)" using Cons.prems by (simp add: batch_readable_def)
  note f = clear_markers_eq [OF this]
  show ?case
  proof (cases "lb_records b")
    case Nil
    with rest show ?thesis by simp
  next
    case (Cons r rs)
    with rest f show ?thesis by (cases rc) (simp_all add: Let_def del: clear_markers.simps last.simps split: prod.split)
  qed
qed

lemma read_data_total: "read_data ops isol fo part bs \<noteq> Inl Panicked"
proof (cases "decode_lean (co_codecs ops) bs")
  case (Inl e)
  then show ?thesis by (simp add: read_data_def)
next
  case (Inr d)
  show ?thesis
  proof (cases d)
    case None
    with Inr show ?thesis
      by (cases "decode_record_sets ops bs") (simp_all add: read_data_def fails_def Let_def)
  next
    case (Some batches)
    with Inr have "list_all batch_readable batches" by (auto intro: decoded_readable)
    then obtain kp nxt where "filter_batches batches (aborted_of part) (pa_last_stable_offset part) isol fo = Inr (kp, nxt)"
      using filter_batches_loop_total unfolding filter_batches_def by (metis isl_def sumE surj_pair)
    with Inr Some show ?thesis by (simp add: read_data_def core_fails_def)
  qed
qed

lemma read_partition_total: "fst (read_partition ops t part c) \<noteq> Inl Panicked"
  using read_data_total [of ops "cs_isolation c" _ part]
  by (auto simp: read_partition_def split: sum.split option.split prod.split)

lemma read_partitions_total: "fst (read_partitions ops parts out c) \<noteq> Inl Panicked"
proof (induction parts arbitrary: out c)
  case Nil
  then show ?case by simp
next
  case (Cons x parts)
  obtain t part where x: "x = (t, part)" by force
  show ?case
    using Cons.IH read_partition_total [of ops t part c]
    by (cases "read_partition ops t part c"; cases "fst (read_partition ops t part c)") (auto simp: x)
qed

lemma collect_replies_total: "fst (collect_replies ops xs out c) \<noteq> Inl Panicked"
proof (induction xs arbitrary: out c)
  case Nil
  then show ?case by simp
next
  case (Cons x xs)
  obtain a keys reply where x: "x = ((a, keys), reply)" by (metis surj_pair)
  have "fst (case read_partitions ops ps out d of (Inl e, c1) \<Rightarrow> (Inl e, c1) | (Inr out', c1) \<Rightarrow> collect_replies ops xs out' c1) \<noteq> Inl Panicked"
    for ps d
    using Cons.IH read_partitions_total [of ops ps out d] by (auto split: prod.split sum.split)
  with Cons.IH show ?case by (auto simp: x split: sum.split)
qed

lemma fetch_total: "fst (poll_fetch ops c w) \<noteq> Inl Panicked"
proof -
  have collect: "fst (collect_fetch ops c w) \<noteq> Inl Panicked" if "cs_outstanding c \<noteq> None" for c w
  proof -
    from that obtain ot where ot: "cs_outstanding c = Some ot" by blast
    obtain replies w1 where r: "co_recv_fetches ops w (map fst (ot_groups ot)) = (replies, w1)" by force
    show ?thesis
      using collect_replies_total [of ops "zip (ot_groups ot) replies" "[]" "c\<lparr>cs_outstanding := None\<rparr>"]
      by (auto simp: collect_fetch_def ot r split: prod.split sum.split)
  qed
  have issue: "fst (case issue_fetch ops c w of (Inl e, c2, w2) \<Rightarrow> (Inl (Failed e), c2, w2) | (Inr _, c2, w2) \<Rightarrow> collect_fetch ops c2 w2)
      \<noteq> Inl Panicked" if "fetchable c \<noteq> []" for c w
  proof (cases "issue_fetch ops c w")
    case (fields r c2 w2)
    show ?thesis
    proof (cases r)
      case (Inr u)
      with fields issue_fetch_covers [of ops c w c2 w2] that have "cs_outstanding c2 \<noteq> None" by auto
      from collect [OF this] fields Inr show ?thesis by simp
    qed (simp add: fields)
  qed
  obtain c1 w1 where first: "(case cs_outstanding c of
      Some ot \<Rightarrow> if ot_generation ot \<noteq> cs_generation c then discard_outstanding ops c w else (c, w) | None \<Rightarrow> (c, w)) = (c1, w1)"
    by (rule prod.exhaust)
  then have same: "fetchable c1 = fetchable c"
    by (auto simp: discard_outstanding_def reset_sessions_def fetchable_def split: option.splits if_splits)
  show ?thesis
  proof (cases "fetchable c = []")
    case True
    then show ?thesis by (simp add: poll_fetch_def)
  next
    case False
    then show ?thesis
      using issue [of c1 w1] collect [of c1 w1] same by (simp add: poll_fetch_def first)
  qed
qed

text \<open>
  C12: fetching never panics.  Whatever the brokers answer, the part of \<open>poll\<close> that issues, collects and decodes the fetches
  returns records or an error: the \<^verbatim>\<open>expect("just issued")\<close> is never reached without an outstanding fetch,
  and slicing the decoded batches stays in their buffers.
\<close>

theorem fetching_never_panics: "fst (poll_fetch ops c w) \<noteq> Inl Panicked"
  by (rule fetch_total)

text \<open>A partition's data as the batch-wise filter sees it.\<close>

definition decodes_as :: "'w consumer_ops \<Rightarrow> int \<Rightarrow> partition_data \<Rightarrow> batch_response \<Rightarrow> bool" where
  "decodes_as ops p part x \<longleftrightarrow>
     is_ok (ErrorCode (pa_error_code part)) \<and> pa_index part = p \<and> br_aborted x = aborted_of part \<and>
     br_lso x = pa_last_stable_offset part \<and>
     (case pa_records part of None \<Rightarrow> False | Some bs \<Rightarrow> bs \<noteq> [] \<and> decode_lean (co_codecs ops) bs = Inr (Some (br_batches x)))"

definition delivered :: "consumer_records list \<Rightarrow> int list" where
  "delivered out = concat (map (\<lambda>cr. map ref_offset (records_iter cr)) out)"

lemma delivered_batches:
  "delivered [\<lparr>cr_topic = t, cr_partition = p, cr_batches = bs, cr_fallback = []\<rparr>] = map rec_offset (flatten bs)"
  by (simp add: delivered_def records_iter_def flatten_def batch_records_def map_concat comp_def)

lemma delivered_append [simp]: "delivered (xs @ ys) = delivered xs @ delivered ys" "delivered [] = []"
  by (simp_all add: delivered_def)

lemma read_partition_batches:
  assumes "decodes_as ops p part x" and "bt_get (cs_positions c) (t, p) = Some pos"
    and "fetch_batch_offsets (cs_isolation c) pos x = (offs, pos')"
  shows "\<exists>out. read_partition ops t part c = (Inr out, c\<lparr>cs_positions := bt_insert (t, p) pos' (cs_positions c)\<rparr>) \<and> delivered out = offs"
proof -
  obtain bs where bs: "pa_records part = Some bs" "bs \<noteq> []" "decode_lean (co_codecs ops) bs = Inr (Some (br_batches x))"
    using assms(1) by (auto simp: decodes_as_def split: option.splits)
  have d: "is_ok (ErrorCode (pa_error_code part))" "pa_index part = p" "br_aborted x = aborted_of part" "br_lso x = pa_last_stable_offset part"
    using assms(1) by (simp_all add: decodes_as_def)
  have "list_all batch_readable (br_batches x)" using bs(3) by (rule decoded_readable)
  then obtain ks nxt where f: "filter_batches (br_batches x) (aborted_of part) (pa_last_stable_offset part) (cs_isolation c) pos = Inr (ks, nxt)"
    using filter_batches_loop_total unfolding filter_batches_def by (metis isl_def sumE surj_pair)
  then have offs: "offs = map rec_offset (flatten ks)" "pos' = nxt"
    using assms(3) d by (simp_all add: fetch_batch_offsets_def)
  have "read_data ops (cs_isolation c) pos part bs = Inr ((ks, []), nxt)"
    using bs(3) f by (simp add: read_data_def core_fails_def)
  then have "read_partition ops t part c =
      (Inr (if ks = [] then [] else [\<lparr>cr_topic = t, cr_partition = p, cr_batches = ks, cr_fallback = []\<rparr>]),
       c\<lparr>cs_positions := bt_insert (t, p) nxt (cs_positions c)\<rparr>)"
    using bs(1,2) assms(2) d by (simp add: read_partition_def check_def)
  then show ?thesis using offs by (auto simp: delivered_batches)
qed





section \<open>Failures\<close>

lemma read_partition_others:
  "read_partition ops t part c = (r, c') \<Longrightarrow> cs_isolation c' = cs_isolation c \<and>
     (\<forall>k. k \<noteq> (t, pa_index part) \<longrightarrow> bt_get (cs_positions c') k = bt_get (cs_positions c) k)"
  by (auto simp: read_partition_def btree_simps split: sum.splits option.splits if_splits prod.splits)

lemma read_partitions_others:
  "read_partitions ops parts out c = (r, c') \<Longrightarrow> cs_isolation c' = cs_isolation c \<and>
     (\<forall>k. k \<notin> (\<lambda>(t, part). (t, pa_index part)) ` set parts \<longrightarrow> bt_get (cs_positions c') k = bt_get (cs_positions c) k)"
proof (induction parts arbitrary: out c)
  case (Cons x parts)
  obtain t part where x: "x = (t, part)" by force
  obtain r1 c1 where r1: "read_partition ops t part c = (r1, c1)" by force
  note o = read_partition_others [OF r1]
  show ?case
  proof (cases r1)
    case (Inl e)
    then show ?thesis using Cons.prems r1 o by (auto simp: x)
  next
    case (Inr recs)
    then have "read_partitions ops parts (out @ recs) c1 = (r, c')" using Cons.prems r1 by (simp add: x)
    from Cons.IH [OF this] o show ?thesis by (auto simp: x)
  qed
qed simp

lemma read_partitions_append:
  "read_partitions ops (xs @ ys) out c =
     (case read_partitions ops xs out c of (Inl e, c1) \<Rightarrow> (Inl e, c1) | (Inr out', c1) \<Rightarrow> read_partitions ops ys out' c1)"
  by (induction ops xs out c rule: read_partitions.induct) (auto split: prod.splits sum.splits)

lemma read_partitions_keep: "read_partitions ops parts out c = (Inr out', c') \<Longrightarrow> \<exists>new. out' = out @ new"
  by (induction ops parts out c rule: read_partitions.induct) (auto split: prod.splits sum.splits)

text \<open>One partition among others: what it yields, and where it ends up.\<close>

lemma read_partitions_at:
  assumes "read_partitions ops (before @ (t, part) # after) [] c = (Inr out, c')" and "decodes_as ops p part x"
    and "bt_get (cs_positions c) (t, p) = Some pos" and "fetch_batch_offsets (cs_isolation c) pos x = (offs, pos')"
    and "(t, p) \<notin> (\<lambda>(t, part). (t, pa_index part)) ` (set before \<union> set after)"
  shows "bt_get (cs_positions c') (t, p) = Some pos' \<and> set offs \<subseteq> set (delivered out)"
proof -
  obtain out1 c1 where b: "read_partitions ops before [] c = (Inr out1, c1)"
    and r: "read_partitions ops ((t, part) # after) out1 c1 = (Inr out, c')"
    using assms(1) by (auto simp: read_partitions_append split: prod.splits sum.splits)
  have c1: "cs_isolation c1 = cs_isolation c" "bt_get (cs_positions c1) (t, p) = Some pos"
    using read_partitions_others [OF b] assms(3,5) by (simp_all add: image_Un)
  obtain out2 where p: "read_partition ops t part c1 = (Inr out2, c1\<lparr>cs_positions := bt_insert (t, p) pos' (cs_positions c1)\<rparr>)"
    "delivered out2 = offs" using read_partition_batches [OF assms(2) c1(2)] assms(4) c1(1) by metis
  then have a: "read_partitions ops after (out1 @ out2) (c1\<lparr>cs_positions := bt_insert (t, p) pos' (cs_positions c1)\<rparr>) = (Inr out, c')"
    using r by simp
  then obtain out3 where "out = out1 @ out2 @ out3" using read_partitions_keep by fastforce
  moreover have "bt_get (cs_positions c') (t, p) = Some pos'" using read_partitions_others [OF a] assms(5) by (simp add: image_Un btree_simps)
  ultimately show ?thesis using p(2) by auto
qed

text \<open>
  C23: a poll that meets an error loses what it had read.  Let the first broker's answer hold partitions that can be read and after them one with
  an error code.  The poll returns that error and no records.  Of every partition read before it, the position the consumer keeps is
  already past the records it read, which a poll without the error would have returned: they lie between the old and the new position,
  and are not asked for again.
\<close>

theorem failed_poll_loses_records:
  assumes "cs_outstanding c = Some ot" and "ot_generation ot = cs_generation c" and "fetchable c \<noteq> []"
    and "ot_groups ot = (a, keys) # groups" and "co_recv_fetches ops w (map fst (ot_groups ot)) = (Inr resp # replies, w1)"
    and "fs_error_code resp = 0" and "flat_parts resp = (before @ (t, part) # after) @ (t2, bad) # rest" and "pa_error_code bad \<noteq> 0"
    and "read_partitions ops (before @ (t, part) # after) [] (accept_session a keys resp (c\<lparr>cs_outstanding := None\<rparr>)) = (Inr out, c')"
    and "decodes_as ops p part x" and "bt_get (cs_positions c) (t, p) = Some pos" and "covers_batches pos x"
    and "fetch_batch_offsets (cs_isolation c) pos x = (offs, pos')"
    and "(t, p) \<notin> (\<lambda>(t, part). (t, pa_index part)) ` (set before \<union> set after)"
  shows "poll_fetch ops c w =
       (Inl (Failed (Broker ''Fetch partition'' (pa_error_code bad) (disposition_of (ErrorCode (pa_error_code bad))))), c', w1) \<and>
     position_of c' t p = Some pos' \<and> set offs \<subseteq> set (delivered out) \<and> (\<forall>off\<in>set offs. pos \<le> off \<and> off < pos')"
proof -
  let ?c = "accept_session a keys resp (c\<lparr>cs_outstanding := None\<rparr>)"
  have same: "cs_positions ?c = cs_positions c" "cs_isolation ?c = cs_isolation c" by (simp_all add: accept_session_def Let_def)
  have "check ''Fetch'' (fs_error_code resp) = Inr ()" using assms(6) by (simp add: check_def is_ok_def NONE_def)
  moreover have "read_partitions ops (flat_parts resp) [] ?c =
      (Inl (Failed (Broker ''Fetch partition'' (pa_error_code bad) (disposition_of (ErrorCode (pa_error_code bad))))), c')"
    using assms(8,9) unfolding assms(7) read_partitions_append [of ops "before @ (t, part) # after"]
    by (simp add: read_partition_def check_def is_ok_def NONE_def)
  ultimately have "poll_fetch ops c w =
       (Inl (Failed (Broker ''Fetch partition'' (pa_error_code bad) (disposition_of (ErrorCode (pa_error_code bad))))), c', w1)"
    using assms(1-6) by (simp add: poll_fetch_def collect_fetch_def FETCH_SESSION_ID_NOT_FOUND_def INVALID_FETCH_SESSION_EPOCH_def)
  moreover have "bt_get (cs_positions c') (t, p) = Some pos' \<and> set offs \<subseteq> set (delivered out)"
    using read_partitions_at [OF assms(9,10)] assms(11,13,14) by (simp add: same)
  ultimately show ?thesis using fbo.within [OF assms(12,13)] by (simp add: position_of_def)
qed

text \<open>The answer of a broker that can serve one partition and not the other.\<close>

definition half_reply :: fetch_reply where
  "half_reply = \<lparr>fs_error_code = 0, fs_session_id = 7, fs_responses = [(''t'',
     [\<lparr>pa_index = 0, pa_error_code = 0, pa_last_stable_offset = 100, pa_aborted = None, pa_records = Some (encode_wire_batch zero_codecs demo_batch)\<rparr>,
      \<lparr>pa_index = 1, pa_error_code = 6, pa_last_stable_offset = 9, pa_aborted = None, pa_records = None\<rparr>])]\<rparr>"

definition half_ops :: "int list consumer_ops" where
  "half_ops = sample_consumer_ops\<lparr>co_recv_fetches := (\<lambda>w as. ([Inr half_reply], w))\<rparr>"

definition waiting_consumer :: consumer where
  "waiting_consumer = sample_consumer\<lparr>cs_positions := [((''t'', 0), 41), ((''t'', 1), 9)],
     cs_outstanding := Some \<lparr>ot_groups = [(''b:1'', [(''t'', 0), (''t'', 1)])], ot_generation = 0\<rparr>\<rparr>"

theorem failed_poll_loses_records_witness:
  "\<exists>e c' w. poll_fetch half_ops waiting_consumer [] = (Inl e, c', w) \<and> position_of c' ''t'' 0 = Some 43"
proof -
  let ?bs = "encode_wire_batch zero_codecs demo_batch"
  define part where "part = \<lparr>pa_index = 0, pa_error_code = 0, pa_last_stable_offset = 100, pa_aborted = None, pa_records = Some ?bs\<rparr>"
  define bad where "bad = \<lparr>pa_index = 1, pa_error_code = 6, pa_last_stable_offset = 9, pa_aborted = None, pa_records = None :: bytes option\<rparr>"
  define c0 where "c0 = accept_session ''b:1'' [(''t'', 0), (''t'', 1)] half_reply (waiting_consumer\<lparr>cs_outstanding := None\<rparr>)"
  have ne: "?bs \<noteq> []" by (simp add: encode_wire_batch_def)
  have "here ?bs 0 (concat (map (encode_wire_batch zero_codecs) [demo_batch]) @ take 0 ?bs)" by (simp add: here_def)
  then obtain lb where lb: "decode_lean zero_codecs ?bs = Inr (Some [lb])" "batch_reads_as lb demo_batch"
    using decode_lean_from_reads_back [of ?bs 0 zero_codecs "[demo_batch]" 0 demo_batch] ne demo_batch_ok
    by (auto simp: decode_lean_def list_all2_Cons2)
  have "map lr_offset (lb_records lb) = [41, 42]"
    using lb(2) by (auto simp: batch_reads_as_def demo_batch_def reads_as_def list_all2_Cons2 wrap64_def)
  then obtain r1 r2 where rs: "lb_records lb = [r1, r2]" "lr_offset r1 = 41" "lr_offset r2 = 42" by (auto simp: map_eq_Cons_conv)
  define x where "x = \<lparr>br_batches = [lb], br_aborted = [], br_lso = 100\<rparr>"
  have d: "decodes_as half_ops 0 part x"
    using lb(1) ne by (simp add: decodes_as_def aborted_of_def is_ok_def NONE_def half_ops_def sample_consumer_ops_def part_def x_def)
  have readable: "list_all batch_readable [lb]" by (rule decoded_readable [OF lb(1)])
  have covers: "covers_batches 41 x" using rs readable by (simp add: covers_batches_def aligned_def batch_records_def x_def)
  have c: "bt_get (cs_positions waiting_consumer) (''t'', 0) = Some 41" "bt_get (cs_positions c0) (''t'', 0) = Some 41"
    "cs_isolation waiting_consumer = ReadUncommitted" "cs_isolation c0 = ReadUncommitted" "fetchable waiting_consumer = [(''t'', 0), (''t'', 1)]"
    "cs_generation waiting_consumer = 0"
    by (simp_all add: bt_get_def c0_def accept_session_def Let_def waiting_consumer_def sample_consumer_defs fetchable_def bt_keys_def)
  have "sorted (map rec_offset (flatten [lb]))" using rs by (simp add: batch_records_def)
  then obtain offs where f: "fetch_batch_offsets ReadUncommitted 41 x = (offs, 43)"
    using filter_batches_spec [OF _ readable, of "[]" 100 ReadUncommitted 41] rs
    by (auto simp: fetch_batch_offsets_def aligned_def next_of_batches_def wrap64_def x_def)
  obtain out c' where r: "read_partitions half_ops ([] @ (''t'', part) # []) [] c0 = (Inr out, c')"
    using read_partition_batches [OF d c(2), unfolded c(4), OF f] by auto
  have parts: "flat_parts half_reply = ([] @ (''t'', part) # []) @ (''t'', bad) # []"
    by (simp add: flat_parts_def half_reply_def part_def bad_def)
  have "cs_outstanding waiting_consumer = Some \<lparr>ot_groups = [(''b:1'', [(''t'', 0), (''t'', 1)])], ot_generation = 0\<rparr>"
    "co_recv_fetches half_ops w as = ([Inr half_reply], w)" "fs_error_code half_reply = 0" "pa_error_code bad \<noteq> 0" for w as
    by (simp_all add: waiting_consumer_def half_ops_def half_reply_def bad_def)
  from failed_poll_loses_records [OF this(1) _ _ _ this(2,3) parts this(4) _ d c(1) covers] r f
  show ?thesis by (auto simp: c c0_def)
qed

text \<open>
  C24: a failed offset lookup ends the membership.  When the group has just assigned new partitions and asking where it had committed
  fails, the consumer has no group any more; it keeps the partitions of the old assignment and goes
  on fetching them, and no later poll speaks to the coordinator.
\<close>

theorem failed_offset_lookup_drops_the_group:
  assumes "cs_group c = Some g" and "advance (co_group ops) g w = (Inr (Assigned tps), g1, w1)"
    and "\<not> same_assignment tps c" and "classic_fetch_offsets (co_group ops) tps g1 w1 = (Inl e, g2, w2)"
  shows "advance_group ops c w = (Inl (Failed e), c\<lparr>cs_group := None\<rparr>, w2) \<and>
     fetchable (c\<lparr>cs_group := None\<rparr>) = fetchable c \<and>
     poll_membership ops (c\<lparr>cs_group := None\<rparr>) w3 = (Inr (), c\<lparr>cs_group := None\<rparr>, w3)"
proof -
  have "advance_steps ops MAX_STEPS False c w = (Inl (Failed e), c\<lparr>cs_group := None\<rparr>, w2)"
    using assms by (simp add: MAX_STEPS_def numeral_eq_Suc)
  then show ?thesis
    using assms(1) by (simp add: advance_group_def poll_membership_def fetchable_def)
qed

theorem failed_offset_lookup_drops_the_group_witness:
  "advance_group (sample_consumer_ops\<lparr>co_group := (sample_group_ops [])\<lparr>go_fetch_offsets := (\<lambda>w a rq t. (Inl (Io a), w))\<rparr>\<rparr>)
     (sample_consumer\<lparr>cs_positions := [], cs_group := Some (sample_classic RangeAssignor)\<rparr>) [0] =
   (Inl (Failed (Io ''h:1'')), sample_consumer\<lparr>cs_positions := [], cs_group := None\<rparr>, [])"
proof -
  let ?ops = "sample_consumer_ops\<lparr>co_group := (sample_group_ops [])\<lparr>go_fetch_offsets := (\<lambda>w a rq t. (Inl (Io a), w))\<rparr>\<rparr>"
  let ?c = "sample_consumer\<lparr>cs_positions := [], cs_group := Some (sample_classic RangeAssignor)\<rparr>"
  let ?tps = "[TopicPartition ''t'' 0, TopicPartition ''t'' 1]"
  have a: "advance (co_group ?ops) (sample_classic RangeAssignor) [0] = (Inr (Assigned ?tps), sample_classic RangeAssignor, [])"
    by (simp add: advance_unfolds)
  have f: "classic_fetch_offsets (co_group ?ops) ?tps (sample_classic RangeAssignor) [] = (Inl (Io ''h:1''), sample_classic RangeAssignor, [])"
    by (simp add: classic_fetch_offsets_def at_coordinator_def group_coordinator_addr_def sample_group_defs)
  have "\<not> same_assignment ?tps ?c"
    by (simp add: same_assignment_def key_of_def bt_collect_def)
  from failed_offset_lookup_drops_the_group [OF _ a this f, of "[]"] show ?thesis by simp
qed

text \<open>
  A failed reset leaves a sentinel for a position.  Assigning a partition at \<open>EARLIEST\<close> or \<open>LATEST\<close> stores that value as the position before it
  is resolved; when resolving it fails, the partition stays assigned at that negative offset.
\<close>

theorem failed_reset_leaves_sentinel:
  assumes "off = EARLIEST \<or> off = LATEST" and "cs_outstanding c = None" and "co_refresh_metadata ops w t = (Inr (), w1)"
    and "list_offset_loop ops t p \<lparr>lq_isolation = as_i8 (cs_isolation c), lq_topics = [(t, [(p, off)])]\<rparr> MAX_LEADER_RETRIES w1 = (Inl e, w2)"
  shows "\<exists>c'. assign_partition ops t p off c w = (Inl e, c', w2) \<and> position_of c' t p = Some off \<and> off < 0"
  using assms
  by (auto simp: assign_partition_def discard_outstanding_def list_offset_def position_of_def btree_simps EARLIEST_def LATEST_def)

theorem failed_reset_leaves_sentinel_witness:
  "\<exists>c'. assign_partition sample_consumer_ops ''t'' 2 EARLIEST sample_consumer [] = (Inl (Io ''reset''), c', []) \<and>
     position_of c' ''t'' 2 = Some EARLIEST \<and> EARLIEST < 0"
  by (rule failed_reset_leaves_sentinel)
     (simp_all add: sample_consumer_defs list_offset_loop.simps [of _ _ _ _ "MAX_LEADER_RETRIES"])

section \<open>Where the group puts the positions\<close>

lemma list_offset_keeps: "list_offset ops t p ts c w = (r, c', w') \<Longrightarrow> cs_positions c' = cs_positions c"
  by (auto simp: list_offset_def discard_outstanding_def reset_sessions_def split: prod.splits option.splits)

lemma resolve_each_positions:
  "resolve_each ops xs c w = (Inr (), c', w') \<Longrightarrow> bt_wf (cs_positions c) \<Longrightarrow>
   set (bt_keys (cs_positions c')) = set (bt_keys (cs_positions c)) \<union> fst ` set xs \<and>
   (\<forall>k. k \<notin> fst ` set xs \<longrightarrow> bt_get (cs_positions c') k = bt_get (cs_positions c) k)"
proof (induction xs arbitrary: c w)
  case Nil
  then show ?case by simp
next
  case (Cons x xs)
  obtain t p off where x: "x = ((t, p), off)" by (metis surj_pair)
  obtain resolved c1 w1 where l: "list_offset ops t p off c w = (Inr resolved, c1, w1)"
    and r: "resolve_each ops xs (c1\<lparr>cs_positions := bt_insert (t, p) resolved (cs_positions c1)\<rparr>) w1 = (Inr (), c', w')"
    using Cons.prems(1) by (auto simp: x split: prod.splits sum.splits)
  note same = list_offset_keeps [OF l]
  have "bt_wf (cs_positions (c1\<lparr>cs_positions := bt_insert (t, p) resolved (cs_positions c1)\<rparr>))"
    using Cons.prems(2) same by simp
  from Cons.IH [OF r this] show ?case
    using Cons.prems(2) same by (auto simp: x btree_simps bt.keys_ins)
qed

lemma start_at_get:
  "bt_wf (start_at committed reset tps) \<and> set (bt_keys (start_at committed reset tps)) = key_of ` set tps \<and>
   (\<forall>tp\<in>set tps. bt_get (start_at committed reset tps) (key_of tp) = Some (case bt_get committed tp of None \<Rightarrow> reset | Some off \<Rightarrow> off))"
proof -
  have inj: "key_of tp = key_of tp' \<longleftrightarrow> tp = tp'" for tp tp'
    by (auto simp: key_of_def topic_partition.expand)
  have "bt_wf m \<Longrightarrow> bt_wf (fold (\<lambda>tp. bt_insert (key_of tp) (f tp)) tps m) \<and>
      set (bt_keys (fold (\<lambda>tp. bt_insert (key_of tp) (f tp)) tps m)) = set (bt_keys m) \<union> key_of ` set tps \<and>
      (\<forall>tp. bt_get (fold (\<lambda>tp. bt_insert (key_of tp) (f tp)) tps m) (key_of tp) =
         (if tp \<in> set tps then Some (f tp) else bt_get m (key_of tp)))" for m and f :: "topic_partition \<Rightarrow> int"
    by (induction tps arbitrary: m) (auto simp: btree_simps bt.keys_ins inj)
  from this [OF bt_wf_Nil, of "\<lambda>tp. case bt_get committed tp of None \<Rightarrow> reset | Some off \<Rightarrow> off"]
  show ?thesis unfolding start_at_def by (simp add: bt_keys_def)
qed

text \<open>
  A new assignment restarts every partition from its commit.  When the group assigns a different set of partitions and the call succeeds,
  the consumer holds exactly those; each that has a committed offset is at that offset,
  wherever it was before, so a partition that was kept is rewound to its last commit.
\<close>

theorem assignment_restarts_at_commits:
  assumes "cs_group c = Some g" and "advance (co_group ops) g w = (Inr (Assigned tps), g1, w1)"
    and "\<not> same_assignment tps c" and "classic_fetch_offsets (co_group ops) tps g1 w1 = (Inr committed, g2, w2)"
    and "advance_group ops c w = (Inr True, c', w')"
  shows "set (bt_keys (cs_positions c')) = key_of ` set tps \<and>
     (\<forall>tp\<in>set tps. \<forall>off. bt_get committed tp = Some off \<and> 0 \<le> off \<longrightarrow> bt_get (cs_positions c') (key_of tp) = Some off)"
proof -
  define c1 where "c1 = (notify (OnAssigned tps) (c\<lparr>cs_positions := start_at committed (cs_reset c) tps\<rparr>))\<lparr>cs_group := Some g2\<rparr>"
  have steps: "advance_steps ops MAX_STEPS False c w = (Inr True, c1, w2)"
    using assms(1-4) by (simp add: MAX_STEPS_def numeral_eq_Suc c1_def)
  let ?c2 = "reset_sessions (bump c1)"
  have pos: "cs_positions ?c2 = start_at committed (cs_reset c) tps"
    by (simp add: c1_def notify_def bump_def reset_sessions_def)
  let ?un = "filter (\<lambda>(_, off). off = EARLIEST \<or> off = LATEST) (cs_positions ?c2)"
  have r: "resolve_each ops ?un ?c2 w2 = (Inr (), c', w')"
    using assms(1,5) steps by (auto simp: advance_group_def Let_def split: prod.splits sum.splits)
  have p: "set (bt_keys (cs_positions c')) = set (bt_keys (cs_positions ?c2)) \<union> fst ` set ?un"
    "\<And>k. k \<notin> fst ` set ?un \<Longrightarrow> bt_get (cs_positions c') k = bt_get (cs_positions ?c2) k"
    using resolve_each_positions [OF r] start_at_get [of committed "cs_reset c" tps] pos by auto
  have sub: "fst ` set ?un \<subseteq> set (bt_keys (cs_positions ?c2))" by (auto simp: bt_keys_def)
  have "key_of tp \<notin> fst ` set ?un" if "tp \<in> set tps" "bt_get committed tp = Some off" "0 \<le> off" for tp off
  proof
    assume "key_of tp \<in> fst ` set ?un"
    then obtain off' where "(key_of tp, off') \<in> set (cs_positions ?c2)" and neg: "off' = EARLIEST \<or> off' = LATEST" by auto
    then have "bt_get (cs_positions ?c2) (key_of tp) = Some off'"
      using start_at_get [of committed "cs_reset c" tps] pos by (simp add: bt_mem_get)
    moreover have "bt_get (cs_positions ?c2) (key_of tp) = Some off"
      using that start_at_get [of committed "cs_reset c" tps] pos by simp
    ultimately show False using neg that(3) by (auto simp: EARLIEST_def LATEST_def)
  qed
  then have "bt_get (cs_positions c') (key_of tp) = Some off" if "tp \<in> set tps" "bt_get committed tp = Some off" "0 \<le> off" for tp off
    using that p(2) start_at_get [of committed "cs_reset c" tps] pos by simp
  moreover have "set (bt_keys (cs_positions c')) = key_of ` set tps"
    using p(1) sub start_at_get [of committed "cs_reset c" tps] pos by auto
  ultimately show ?thesis by blast
qed

theorem assignment_restarts_at_commits_witness:
  "\<exists>c'. advance_group (sample_consumer_ops\<lparr>co_list_offsets := (\<lambda>w a rq. (Inr [(''t'', [\<lparr>lp_index = 1, lp_error_code = 0, lp_timestamp = 0, lp_offset = 3\<rparr>])], w))\<rparr>)
       (sample_consumer\<lparr>cs_positions := [((''t'', 0), 90)], cs_group := Some (sample_classic RangeAssignor)\<rparr>) [0] = (Inr True, c', []) \<and>
     position_of c' ''t'' 0 = Some 42"
proof -
  let ?ops = "sample_consumer_ops\<lparr>co_list_offsets := (\<lambda>w a rq. (Inr [(''t'', [\<lparr>lp_index = 1, lp_error_code = 0, lp_timestamp = 0, lp_offset = 3\<rparr>])], w))\<rparr>"
  let ?c = "sample_consumer\<lparr>cs_positions := [((''t'', 0), 90)], cs_group := Some (sample_classic RangeAssignor)\<rparr>"
  let ?tps = "[TopicPartition ''t'' 0, TopicPartition ''t'' 1]"
  have a: "advance (co_group ?ops) (sample_classic RangeAssignor) [0] = (Inr (Assigned ?tps), sample_classic RangeAssignor, [])"
    by (simp add: advance_unfolds sample_consumer_ops_def)
  have f: "classic_fetch_offsets (co_group ?ops) ?tps (sample_classic RangeAssignor) [] =
      (Inr [(TopicPartition ''t'' 0, 42)], sample_classic RangeAssignor, [])"
    by (simp add: classic_fetch_offsets_def at_coordinator_def group_coordinator_addr_def sample_group_defs sample_consumer_ops_def
        note_committed_def check_def is_ok_def NONE_def)
  have n: "\<not> same_assignment ?tps ?c"
    by (simp add: same_assignment_def key_of_def bt_collect_def)
  have steps: "advance_steps ?ops MAX_STEPS False ?c [0] =
      (Inr True, ?c\<lparr>cs_positions := [((''t'', 0), 42), ((''t'', 1), EARLIEST)]\<rparr>, [])"
    using a f n by (simp add: MAX_STEPS_def numeral_eq_Suc start_at_def key_of_def bt_get_def notify_def sample_consumer_defs)
  obtain c' where c': "advance_group ?ops ?c [0] = (Inr True, c', [])"
    using steps by (simp add: advance_group_def list_offset_def discard_outstanding_def reset_sessions_def bump_def sample_consumer_defs Let_def
        EARLIEST_def LATEST_def list_offset_loop.simps find_offset_part_def check_def is_ok_def NONE_def disposition_of_def error_code_defs)
  from assignment_restarts_at_commits [OF _ a n f c'] c' show ?thesis
    by (simp add: bt_get_def position_of_def key_of_def)
qed

end
