(* ===== verification/Consumer_Invariant.thy ===== *)
theory Consumer_Invariant
  imports Consumer_Laws
begin

text \<open>
  The consumer's state under any sequence of calls: \<open>consumer_ok\<close> says its maps are maps, its session epochs are what
  the protocol allows, and an outstanding fetch asks each broker once and is no newer than the consumer.  Every
  public method is a \<open>consumer_call\<close>; between calls the world may do anything.
\<close>

section \<open>Calls\<close>





section \<open>The invariant\<close>

definition session_ok :: "fetch_session \<Rightarrow> bool" where
  "session_ok s \<longleftrightarrow> bt_wf (ss_known s) \<and> 0 \<le> ss_epoch s \<and> in_i32 (ss_epoch s)"

definition outstanding_ok :: "nat \<Rightarrow> outstanding_fetch option \<Rightarrow> bool" where
  "outstanding_ok n x \<longleftrightarrow>
     (case x of None \<Rightarrow> True | Some ot \<Rightarrow> distinct (map fst (ot_groups ot)) \<and> ot_generation ot \<le> n)"


lemma bt_wf_remove [simp]: "bt_wf m \<Longrightarrow> bt_wf (bt_remove k m)"
  by (simp add: bt_remove_def)

lemma bt_wf_map_values [simp]: "bt_wf (map (\<lambda>x. (fst x, f (snd x))) m) \<longleftrightarrow> bt_wf m"
  by (simp add: bt_wf_def comp_def)

lemma bt_wf_fold_remove [simp]: "bt_wf m \<Longrightarrow> bt_wf (fold (\<lambda>x. bt_remove (f x)) xs m)"
  by (induction xs arbitrary: m) simp_all


lemma session_ok_fresh [simp]: "session_ok (session_reset s)" "session_ok default_session"
  by (simp_all add: session_ok_def session_reset_def default_session_def in_i32_def)

lemma outstanding_ok_simps [simp]:
  "outstanding_ok n None" "outstanding_ok n x \<Longrightarrow> outstanding_ok (Suc n) x"
  by (auto simp: outstanding_ok_def split: option.splits)




























section \<open>Every call keeps it\<close>






end
