(* ===== verification/Admin.thy ===== *)
theory Admin
  imports Client Map_Items
begin

text \<open>
  The admin client, \<^verbatim>\<open>barnabas-client/src/admin.rs\<close>: creating, deleting and growing topics through the controller, describing
  the cluster and a topic, deleting records through the partition leaders.  What it calls of the cluster layer is the record
  \<open>'w admin_ops\<close>, its state threaded through; a controller request is answered with its error codes, which is
  all of the answer that is read, and \<open>ao_brokers\<close> lists the brokers of the metadata in the order its \<^verbatim>\<open>HashMap\<close> yields them.

  Shown: a call that succeeds was accepted by a controller without any error; a grown topic is visible when \<open>create_partitions\<close> returns; each record deletion
  is asked of one leader, once; a controller that died is never looked for again.
\<close>

section \<open>Data\<close>

definition ADMIN_RETRIES :: nat where "ADMIN_RETRIES = 20"
definition ADMIN_BACKOFF :: nat where "ADMIN_BACKOFF = 50"
definition NOT_CONTROLLER :: int where "NOT_CONTROLLER = 41"

record new_topic =
  nt_name :: string
  nt_partitions :: int
  nt_replication_factor :: int
  nt_config :: "(string, string) btree"

definition make_new_topic :: "string \<Rightarrow> int \<Rightarrow> int \<Rightarrow> new_topic" where
  "make_new_topic name partitions rf = \<lparr>nt_name = name, nt_partitions = partitions, nt_replication_factor = rf, nt_config = []\<rparr>"

definition with_config :: "new_topic \<Rightarrow> string \<Rightarrow> string \<Rightarrow> new_topic" where
  "with_config t k v = t\<lparr>nt_config := bt_insert k v (nt_config t)\<rparr>"

record broker_info =
  bi_node_id :: int
  bi_host :: string
  bi_port :: int
  bi_is_controller :: bool

datatype controller_request =
    CreateTopics int "(string \<times> int \<times> int \<times> (string \<times> string) list) list"
  | DeleteTopics int "string list"
  | CreatePartitions int "(string \<times> int) list"

record describe_result =
  dr_error_code :: int
  dr_configs :: "(string \<times> string option) list"

record 'w admin_ops =
  ao_controller_addr :: "'w \<Rightarrow> (client_error + string) \<times> 'w"
  ao_invalidate_controller :: "'w \<Rightarrow> 'w"
  ao_call_controller :: "'w \<Rightarrow> string \<Rightarrow> controller_request \<Rightarrow> (client_error + int list) \<times> 'w"
  ao_refresh_metadata :: "'w \<Rightarrow> string \<Rightarrow> (client_error + unit) \<times> 'w"
  ao_refresh_cluster :: "'w \<Rightarrow> (client_error + unit) \<times> 'w"
  ao_metadata :: "'w \<Rightarrow> metadata"
  ao_brokers :: "'w \<Rightarrow> broker_addr list"
  ao_describe_configs :: "'w \<Rightarrow> string \<Rightarrow> (client_error + describe_result list) \<times> 'w"
  ao_leader_addr :: "'w \<Rightarrow> string \<Rightarrow> int \<Rightarrow> (client_error + string) \<times> 'w"
  ao_delete_records :: "'w \<Rightarrow> string \<Rightarrow> int \<times> (string \<times> (int \<times> int) list) list \<Rightarrow>
    (client_error + (string \<times> (int \<times> int \<times> int) list) list) \<times> 'w"
  ao_sleep :: "'w \<Rightarrow> nat \<Rightarrow> 'w"

text \<open>The handle's only setting, \<^verbatim>\<open>timeout_ms\<close>, is an argument below; this is how it is set.\<close>

definition set_operation_timeout :: "nat \<Rightarrow> int" where
  "set_operation_timeout d = (if int d \<le> i32_max then int d else i32_max)"

section \<open>Through the controller\<close>

text \<open>The \<^verbatim>\<open>error_of\<close> closures: the first code that is not zero.\<close>

definition first_code :: "int list \<Rightarrow> int" where
  "first_code cs = (case find (\<lambda>c. c \<noteq> 0) cs of None \<Rightarrow> 0 | Some c \<Rightarrow> c)"

text \<open>The attempts of \<^verbatim>\<open>0..MAX_RETRIES\<close>; in the last of them, with one left, only \<^verbatim>\<open>NOT_CONTROLLER\<close> goes on.\<close>

fun controller_call ::
  "'w admin_ops \<Rightarrow> string \<Rightarrow> controller_request \<Rightarrow> nat \<Rightarrow> 'w \<Rightarrow> (client_error + int list) \<times> 'w" where
  "controller_call ops op rq 0 w = (Inl (Broker op NOT_CONTROLLER Retry), w)"
| "controller_call ops op rq (Suc left) w =
     (case ao_controller_addr ops w of
        (Inl e, w1) \<Rightarrow>
          if e = Missing ''a controller'' \<and> left \<noteq> 0 then controller_call ops op rq left (ao_sleep ops w1 ADMIN_BACKOFF)
          else (Inl e, w1)
      | (Inr a, w1) \<Rightarrow>
          (case ao_call_controller ops w1 a rq of
             (Inl e, w2) \<Rightarrow> (Inl e, w2)
           | (Inr codes, w2) \<Rightarrow>
               (let code = first_code codes
                in if is_ok (ErrorCode code) then (Inr codes, w2)
                   else if code = NOT_CONTROLLER
                   then controller_call ops op rq left (ao_sleep ops (ao_invalidate_controller ops w2) ADMIN_BACKOFF)
                   else if disposition_of (ErrorCode code) = Retry \<and> left \<noteq> 0
                   then controller_call ops op rq left (ao_sleep ops w2 ADMIN_BACKOFF)
                   else (Inl (Broker op code (disposition_of (ErrorCode code))), w2))))"

text \<open>Waiting until the metadata shows a topic with enough partitions.\<close>

fun wait_visible :: "'w admin_ops \<Rightarrow> string \<Rightarrow> int \<Rightarrow> nat \<Rightarrow> 'w \<Rightarrow> (client_error + unit) \<times> 'w" where
  "wait_visible ops name tally 0 w = (Inr (), w)"
| "wait_visible ops name tally (Suc left) w =
     (case ao_refresh_metadata ops w name of (_, w1) \<Rightarrow>
        if tally \<le> partition_count (ao_metadata ops w1) name then (Inr (), w1)
        else if left = 0 then (Inl (NoLeader name (- 1)), w1)
        else wait_visible ops name tally left (ao_sleep ops w1 ADMIN_BACKOFF))"

fun wait_all :: "'w admin_ops \<Rightarrow> new_topic list \<Rightarrow> 'w \<Rightarrow> (client_error + unit) \<times> 'w" where
  "wait_all ops [] w = (Inr (), w)"
| "wait_all ops (t # ts) w =
     (case wait_visible ops (nt_name t) (nt_partitions t) ADMIN_RETRIES w of
        (Inl e, w1) \<Rightarrow> (Inl e, w1)
      | (Inr _, w1) \<Rightarrow> wait_all ops ts w1)"

definition create_topics :: "'w admin_ops \<Rightarrow> int \<Rightarrow> new_topic list \<Rightarrow> 'w \<Rightarrow> (client_error + unit) \<times> 'w" where
  "create_topics ops timeout_ms ts w =
     (if ts = [] then (Inr (), w)
      else
        (case controller_call ops ''CreateTopics''
                (CreateTopics timeout_ms (map (\<lambda>t. (nt_name t, nt_partitions t, nt_replication_factor t, nt_config t)) ts))
                ADMIN_RETRIES w of
           (Inl e, w1) \<Rightarrow> (Inl e, w1)
         | (Inr _, w1) \<Rightarrow> wait_all ops ts w1))"

definition delete_topics :: "'w admin_ops \<Rightarrow> int \<Rightarrow> string list \<Rightarrow> 'w \<Rightarrow> (client_error + unit) \<times> 'w" where
  "delete_topics ops timeout_ms names w =
     (if names = [] then (Inr (), w)
      else
        (case controller_call ops ''DeleteTopics'' (DeleteTopics timeout_ms names) ADMIN_RETRIES w of
           (Inl e, w1) \<Rightarrow> (Inl e, w1)
         | (Inr _, w1) \<Rightarrow> (Inr (), w1)))"

definition create_partitions :: "'w admin_ops \<Rightarrow> int \<Rightarrow> string \<Rightarrow> int \<Rightarrow> 'w \<Rightarrow> (client_error + unit) \<times> 'w" where
  "create_partitions ops timeout_ms topic tally w =
     (case controller_call ops ''CreatePartitions'' (CreatePartitions timeout_ms [(topic, tally)]) ADMIN_RETRIES w of
        (Inl e, w1) \<Rightarrow> (Inl e, w1)
      | (Inr _, w1) \<Rightarrow> wait_visible ops topic tally ADMIN_RETRIES w1)"

section \<open>Describing\<close>

definition describe_cluster :: "'w admin_ops \<Rightarrow> 'w \<Rightarrow> (client_error + broker_info list) \<times> 'w" where
  "describe_cluster ops w =
     (case ao_refresh_cluster ops w of
        (Inl e, w1) \<Rightarrow> (Inl e, w1)
      | (Inr _, w1) \<Rightarrow>
          (let md = ao_metadata ops w1; ctl = map_option node_id (controller md)
           in (Inr (map (\<lambda>b. \<lparr>bi_node_id = node_id b, bi_host = host b, bi_port = port b,
                              bi_is_controller = (ctl = Some (node_id b))\<rparr>) (ao_brokers ops w1)), w1)))"

fun collect_configs :: "describe_result list \<Rightarrow> (string, string option) btree \<Rightarrow> client_error + (string, string option) btree" where
  "collect_configs [] m = Inr m"
| "collect_configs (r # rs) m =
     bind_sum (check ''DescribeConfigs'' (dr_error_code r)) (\<lambda>_.
       collect_configs rs (fold (\<lambda>(k, v). bt_insert k v) (dr_configs r) m))"

text \<open>\<open>left\<close> attempts remain after this one.\<close>

fun describe_topic_loop ::
  "'w admin_ops \<Rightarrow> string \<Rightarrow> nat \<Rightarrow> 'w \<Rightarrow> (client_error + (string, string option) btree) \<times> 'w" where
  "describe_topic_loop ops topic left w =
     (case ao_describe_configs ops w topic of
        (Inl e, w1) \<Rightarrow> (Inl e, w1)
      | (Inr [], w1) \<Rightarrow> (Inl (Missing ''a resource''), w1)
      | (Inr (r # rs), w1) \<Rightarrow>
          (case left of
             Suc left' \<Rightarrow>
               if disposition_of (ErrorCode (dr_error_code r)) = RefreshMetadata
               then describe_topic_loop ops topic left' (ao_sleep ops w1 ADMIN_BACKOFF)
               else (collect_configs (r # rs) [], w1)
           | 0 \<Rightarrow> (collect_configs (r # rs) [], w1)))"

declare describe_topic_loop.simps [simp del]

definition describe_topic_config :: "'w admin_ops \<Rightarrow> string \<Rightarrow> 'w \<Rightarrow> (client_error + (string, string option) btree) \<times> 'w" where
  "describe_topic_config ops topic w = describe_topic_loop ops topic (ADMIN_RETRIES - 1) w"

section \<open>Deleting records\<close>

fun records_by_leader ::
  "'w admin_ops \<Rightarrow> (topic_partition \<times> int) list \<Rightarrow> (string, (topic_partition \<times> int) list) btree \<Rightarrow> 'w \<Rightarrow>
   (client_error + (string, (topic_partition \<times> int) list) btree) \<times> 'w" where
  "records_by_leader ops [] m w = (Inr m, w)"
| "records_by_leader ops ((tp, off) # rest) m w =
     (case ao_leader_addr ops w (tp_topic tp) (tp_partition tp) of
        (Inl e, w1) \<Rightarrow> (Inl e, w1)
      | (Inr a, w1) \<Rightarrow> records_by_leader ops rest (bt_entry a [] (\<lambda>xs. xs @ [(tp, off)]) m) w1)"

fun note_deleted ::
  "(string \<times> int \<times> int \<times> int) list \<Rightarrow> (topic_partition, int) btree \<Rightarrow> client_error + (topic_partition, int) btree" where
  "note_deleted [] m = Inr m"
| "note_deleted ((t, index, low, code) # parts) m =
     bind_sum (check ''DeleteRecords'' code) (\<lambda>_. note_deleted parts (bt_insert (TopicPartition t index) low m))"

fun delete_at_leaders ::
  "'w admin_ops \<Rightarrow> int \<Rightarrow> (string \<times> (topic_partition \<times> int) list) list \<Rightarrow> (topic_partition, int) btree \<Rightarrow> 'w \<Rightarrow>
   (client_error + (topic_partition, int) btree) \<times> 'w" where
  "delete_at_leaders ops timeout_ms [] m w = (Inr m, w)"
| "delete_at_leaders ops timeout_ms ((a, grp) # rest) m w =
     (case ao_delete_records ops w a
             (timeout_ms, bt_group (\<lambda>(tp, _). tp_topic tp) (\<lambda>(tp, off). (tp_partition tp, off)) grp) of
        (Inl e, w1) \<Rightarrow> (Inl e, w1)
      | (Inr resp, w1) \<Rightarrow>
          (case note_deleted (concat (map (\<lambda>(t, ps). map (Pair t) ps) resp)) m of
             Inl e \<Rightarrow> (Inl e, w1)
           | Inr m' \<Rightarrow> delete_at_leaders ops timeout_ms rest m' w1))"

definition delete_records ::
  "'w admin_ops \<Rightarrow> int \<Rightarrow> (topic_partition \<times> int) list \<Rightarrow> 'w \<Rightarrow> (client_error + (topic_partition, int) btree) \<times> 'w" where
  "delete_records ops timeout_ms before w =
     (if before = [] then (Inr [], w)
      else
        (case records_by_leader ops before [] w of
           (Inl e, w1) \<Rightarrow> (Inl e, w1)
         | (Inr by_leader, w1) \<Rightarrow> delete_at_leaders ops timeout_ms by_leader [] w1))"

section \<open>Laws\<close>

lemma controller_call_ok:
  "controller_call ops op rq n w = (Inr codes, w') \<Longrightarrow> list_all (\<lambda>c. c = 0) codes"
proof (induction n arbitrary: w)
  case 0
  then show ?case by simp
next
  case (Suc n)
  have "list_all (\<lambda>c. c = 0) cs" if "is_ok (ErrorCode (first_code cs))" for cs
    using that by (auto simp: first_code_def is_ok_def NONE_def list_all_iff find_None_iff find_Some_iff split: option.splits)
  with Suc show ?case by (auto simp: Let_def split: prod.splits sum.splits if_splits)
qed

lemma wait_visible_ok:
  assumes "wait_visible ops name tally n w = (Inr (), w')" and "0 < n"
  shows "tally \<le> partition_count (ao_metadata ops w') name"
  using assms by (induction n arbitrary: w) (auto split: prod.splits if_splits)

text \<open>A controller that died is never looked for again: its address stays in the metadata, and only an answer drops it.\<close>

lemma dead_controller_is_kept:
  assumes "ao_controller_addr ops w = (Inr a, w1)" and "ao_call_controller ops w1 a rq = (Inl e, w2)"
  shows "controller_call ops op rq (Suc n) w = (Inl e, w2)"
  using assms by simp

lemma growth_is_visible:
  assumes "create_partitions ops timeout_ms topic tally w = (Inr (), w')"
  shows "tally \<le> partition_count (ao_metadata ops w') topic"
proof -
  obtain w1 where "wait_visible ops topic tally ADMIN_RETRIES w1 = (Inr (), w')"
    using assms by (auto simp: create_partitions_def split: prod.splits sum.splits)
  then show ?thesis by (rule wait_visible_ok) (simp add: ADMIN_RETRIES_def)
qed

lemma records_by_leader_covers:
  "records_by_leader ops xs m w = (Inr by_leader, w') \<Longrightarrow> bt_wf m \<Longrightarrow>
   bt_wf by_leader \<and> mset (concat (bt_values by_leader)) = mset (concat (bt_values m)) + mset xs"
proof (induction xs arbitrary: m w)
  case Nil
  then show ?case by simp
next
  case (Cons x xs)
  obtain tp off where x: "x = (tp, off)" by force
  obtain a w1 where "records_by_leader ops xs (bt_entry a [] (\<lambda>xs. xs @ [x]) m) w1 = (Inr by_leader, w')"
    using Cons.prems(1) by (auto simp: x split: prod.splits sum.splits)
  from Cons.IH [OF this] Cons.prems(2) show ?case by (simp add: mset_values_push)
qed

end
