(* ===== verification/Builder.thy ===== *)
theory Builder
  imports Consumer_Laws Cluster_Laws Producer_Laws
begin

text \<open>
  The staged builders, \<^verbatim>\<open>barnabas-client/src/builder.rs\<close>.  A stage is what has been given so far: a list of addresses, then a
  record of settings; the transport is the \<open>env\<close> of the cluster layer.  \<^verbatim>\<open>build\<close> consumes the builder, so a
  failure leaves nothing behind but its error.  The calls the consumer makes on its cluster stay the parameter
  \<open>consumer_ops\<close>, here over the state of \<open>Cluster\<close>.

  Shown: a consumer that was built holds exactly the partitions asked for, an explicit assignment overrides
  \<open>assign_all\<close>, and a stored offset is kept; two stored offsets are not offsets but the sentinels; a consumer
  built with credentials still has a connection that never used them.
\<close>

section \<open>Where to start\<close>

datatype start_offset = Earliest | Latest | At int

fun start_as_i64 :: "start_offset \<Rightarrow> int" where
  "start_as_i64 Earliest = EARLIEST"
| "start_as_i64 Latest = LATEST"
| "start_as_i64 (At off) = off"

section \<open>The consumer's builder\<close>

record consumer_ready =
  rb_bootstrap :: "string list"
  rb_client_id :: string
  rb_isolation :: isolation_level
  rb_credentials :: "credentials option"
  rb_max_wait :: "nat option"
  rb_prefetch :: "bool option"
  rb_incremental :: "bool option"
  rb_assignments :: "(string \<times> int \<times> start_offset) list"
  rb_every_partition :: "(string \<times> start_offset) list"

definition needs_client_id :: "string list \<Rightarrow> string \<Rightarrow> consumer_ready" where
  "needs_client_id bootstrap cid =
     \<lparr>rb_bootstrap = bootstrap, rb_client_id = cid, rb_isolation = ReadCommitted, rb_credentials = None, rb_max_wait = None,
      rb_prefetch = None, rb_incremental = None, rb_assignments = [], rb_every_partition = []\<rparr>"

definition ready_isolation :: "isolation_level \<Rightarrow> consumer_ready \<Rightarrow> consumer_ready" where
  "ready_isolation x r = r\<lparr>rb_isolation := x\<rparr>"

definition ready_credentials :: "credentials \<Rightarrow> consumer_ready \<Rightarrow> consumer_ready" where
  "ready_credentials x r = r\<lparr>rb_credentials := Some x\<rparr>"

definition ready_assign :: "string \<Rightarrow> int \<Rightarrow> start_offset \<Rightarrow> consumer_ready \<Rightarrow> consumer_ready" where
  "ready_assign t p start r = r\<lparr>rb_assignments := rb_assignments r @ [(t, p, start)]\<rparr>"

definition ready_assign_range :: "string \<Rightarrow> int list \<Rightarrow> start_offset \<Rightarrow> consumer_ready \<Rightarrow> consumer_ready" where
  "ready_assign_range t ps start r = fold (\<lambda>p r. r\<lparr>rb_assignments := rb_assignments r @ [(t, p, start)]\<rparr>) ps r"

definition ready_assign_all :: "string \<Rightarrow> start_offset \<Rightarrow> consumer_ready \<Rightarrow> consumer_ready" where
  "ready_assign_all t start r = r\<lparr>rb_every_partition := rb_every_partition r @ [(t, start)]\<rparr>"

definition ready_max_wait :: "nat \<Rightarrow> consumer_ready \<Rightarrow> consumer_ready" where
  "ready_max_wait x r = r\<lparr>rb_max_wait := Some x\<rparr>"

definition ready_prefetch :: "bool \<Rightarrow> consumer_ready \<Rightarrow> consumer_ready" where
  "ready_prefetch x r = r\<lparr>rb_prefetch := Some x\<rparr>"

definition ready_incremental_fetch :: "bool \<Rightarrow> consumer_ready \<Rightarrow> consumer_ready" where
  "ready_incremental_fetch x r = r\<lparr>rb_incremental := Some x\<rparr>"

fun assign_each ::
  "'w consumer_ops \<Rightarrow> (string \<times> int \<times> start_offset) list \<Rightarrow> consumer \<Rightarrow> 'w \<Rightarrow> client_error + consumer \<times> 'w" where
  "assign_each ops [] c w = Inr (c, w)"
| "assign_each ops ((t, p, start) # xs) c w =
     (case assign_partition ops t p (start_as_i64 start) c w of
        (Inl e, _) \<Rightarrow> Inl e
      | (Inr _, c1, w1) \<Rightarrow> assign_each ops xs c1 w1)"

fun assign_every ::
  "'n env \<Rightarrow> 'n cluster consumer_ops \<Rightarrow> (string \<times> start_offset) list \<Rightarrow> consumer \<Rightarrow> 'n cluster \<Rightarrow>
   client_error + consumer \<times> 'n cluster" where
  "assign_every env ops [] c w = Inr (c, w)"
| "assign_every env ops ((t, start) # xs) c w =
     (case cluster_partition_count env t w of
        (Inl e, _) \<Rightarrow> Inl e
      | (Inr tally, w1) \<Rightarrow>
          (case assign_each ops (map (\<lambda>p. (t, p, start)) [0..tally - 1]) c w1 of
             Inl e \<Rightarrow> Inl e
           | Inr (c1, w2) \<Rightarrow> assign_every env ops xs c1 w2))"

definition ready_settings :: "consumer_ready \<Rightarrow> consumer \<Rightarrow> consumer" where
  "ready_settings r c =
     (let c1 = (case rb_max_wait r of None \<Rightarrow> c | Some x \<Rightarrow> set_max_wait c x);
          c2 = (case rb_prefetch r of None \<Rightarrow> c1 | Some x \<Rightarrow> set_prefetch c1 x)
      in case rb_incremental r of None \<Rightarrow> c2 | Some x \<Rightarrow> set_incremental_fetch c2 x)"

definition consumer_build ::
  "'n env \<Rightarrow> 'n cluster consumer_ops \<Rightarrow> 'n \<Rightarrow> consumer_ready \<Rightarrow> client_error + consumer \<times> 'n cluster" where
  "consumer_build env ops n r =
     (case cluster_connect env n (rb_bootstrap r) (rb_client_id r) of
        (Inl e, _) \<Rightarrow> Inl e
      | (Inr cl, _) \<Rightarrow>
          (let w = (case rb_credentials r of None \<Rightarrow> cl | Some cred \<Rightarrow> set_credentials cl cred);
               c = ready_settings r (new_consumer (rb_isolation r))
           in case assign_every env ops (rb_every_partition r) c w of
                Inl e \<Rightarrow> Inl e
              | Inr (c1, w1) \<Rightarrow> assign_each ops (rb_assignments r) c1 w1))"

section \<open>The producer's builder\<close>

record producer_ready =
  pb_bootstrap :: "string list"
  pb_client_id :: string
  pb_transactional_id :: "string option"
  pb_compression :: "compression option"
  pb_partitioner :: "partitioner option"
  pb_max_in_flight :: "nat option"

definition producer_needs_client_id :: "string list \<Rightarrow> string \<Rightarrow> producer_ready" where
  "producer_needs_client_id bootstrap cid =
     \<lparr>pb_bootstrap = bootstrap, pb_client_id = cid, pb_transactional_id = None, pb_compression = None,
      pb_partitioner = None, pb_max_in_flight = None\<rparr>"

definition ready_transactional_id :: "string \<Rightarrow> producer_ready \<Rightarrow> producer_ready" where
  "ready_transactional_id x r = r\<lparr>pb_transactional_id := Some x\<rparr>"

definition ready_compression :: "compression \<Rightarrow> producer_ready \<Rightarrow> producer_ready" where
  "ready_compression x r = r\<lparr>pb_compression := Some x\<rparr>"

definition ready_partitioner :: "partitioner \<Rightarrow> producer_ready \<Rightarrow> producer_ready" where
  "ready_partitioner x r = r\<lparr>pb_partitioner := Some x\<rparr>"

definition ready_max_in_flight :: "nat \<Rightarrow> producer_ready \<Rightarrow> producer_ready" where
  "ready_max_in_flight x r = r\<lparr>pb_max_in_flight := Some x\<rparr>"

definition producer_build :: "'n env \<Rightarrow> 'n \<Rightarrow> producer_ready \<Rightarrow> client_error failure + 'n cluster producer" where
  "producer_build env n r =
     (case cluster_connect env n (pb_bootstrap r) (pb_client_id r) of
        (Inl e, _) \<Rightarrow> Inl (Failed e)
      | (Inr cl, _) \<Rightarrow>
          (case (case pb_transactional_id r of
                   Some txn_id \<Rightarrow> open_transactional (cluster_ops_of env) cl txn_id
                 | None \<Rightarrow> open_idempotent (cluster_ops_of env) cl) of
             Inl e \<Rightarrow> Inl (Failed e)
           | Inr p \<Rightarrow>
               (let p1 = (case pb_compression r of None \<Rightarrow> p | Some x \<Rightarrow> set_compression p x);
                    p2 = (case pb_partitioner r of None \<Rightarrow> p1 | Some x \<Rightarrow> set_partitioner p1 x)
                in case pb_max_in_flight r of None \<Rightarrow> Inr p2 | Some x \<Rightarrow> set_max_in_flight p2 x)))"

section \<open>What is assigned\<close>

definition asked :: "(string \<times> int \<times> start_offset) list \<Rightarrow> partition_key list" where
  "asked xs = map (\<lambda>(t, p, _). (t, p)) xs"

lemma asked_simps [simp]:
  "asked [] = []" "asked ((t, p, s) # xs) = (t, p) # asked xs" "asked (xs @ ys) = asked xs @ asked ys"
  "asked (map (\<lambda>p. (t, p, s)) ps) = map (Pair t) ps"
  by (simp_all add: asked_def comp_def)

lemma assign_partition_positions:
  assumes "assign_partition ops t p off c w = (Inr u, c', w')"
  shows "\<exists>at. cs_positions c' = bt_insert (t, p) at (if off = EARLIEST \<or> off = LATEST then bt_insert (t, p) off (cs_positions c) else cs_positions c) \<and>
    (off \<noteq> EARLIEST \<and> off \<noteq> LATEST \<longrightarrow> at = off)"
  using assms
  by (auto simp: assign_partition_def discard_outstanding_def bump_def reset_sessions_def Let_def
      dest!: list_offset_keeps split: prod.splits sum.splits option.splits if_splits)

lemma keys_insert: "set (bt_keys (bt_insert k v m)) = insert k (set (bt_keys m))"
  by (simp add: bt_keys_def set_keys_insert)

lemma assign_partition_get:
  assumes "assign_partition ops t p off c w = (Inr u, c', w')" and "bt_wf (cs_positions c)"
  shows "bt_wf (cs_positions c')" "set (bt_keys (cs_positions c')) = insert (t, p) (set (bt_keys (cs_positions c)))"
    "(t', p') \<noteq> (t, p) \<Longrightarrow> bt_get (cs_positions c') (t', p') = bt_get (cs_positions c) (t', p')"
    "off \<noteq> EARLIEST \<Longrightarrow> off \<noteq> LATEST \<Longrightarrow> bt_get (cs_positions c') (t, p) = Some off"
  using assign_partition_positions [OF assms(1)] assms(2)
  by (auto simp: btree_simps keys_insert split: if_splits)

lemma assign_each_positions:
  assumes "assign_each ops xs c w = Inr (c', w')" and "bt_wf (cs_positions c)"
  shows "bt_wf (cs_positions c') \<and> set (bt_keys (cs_positions c')) = set (bt_keys (cs_positions c)) \<union> set (asked xs) \<and>
    (\<forall>k. k \<notin> set (asked xs) \<longrightarrow> bt_get (cs_positions c') k = bt_get (cs_positions c) k)"
  using assms
proof (induction xs arbitrary: c w)
  case (Cons x xs)
  obtain t p s where x: "x = (t, p, s)" by (cases x)
  from Cons.prems(1) obtain u c1 w1 where a: "assign_partition ops t p (start_as_i64 s) c w = (Inr u, c1, w1)"
      and e: "assign_each ops xs c1 w1 = Inr (c', w')"
    by (auto simp: x split: prod.splits sum.splits)
  note g = assign_partition_get [OF a Cons.prems(2)]
  from Cons.IH [OF e g(1)] g show ?case by (auto simp: x)
qed simp

lemma assign_each_append:
  "assign_each ops (xs @ ys) c w =
     (case assign_each ops xs c w of Inl e \<Rightarrow> Inl e | Inr (c1, w1) \<Rightarrow> assign_each ops ys c1 w1)"
  by (induction ops xs c w rule: assign_each.induct) (auto split: prod.splits sum.splits)

lemma assign_each_stored:
  assumes "assign_each ops (xs @ (t, p, At off) # ys) c w = Inr (c', w')" and "bt_wf (cs_positions c)"
    and "off \<noteq> EARLIEST" "off \<noteq> LATEST" and "(t, p) \<notin> set (asked ys)"
  shows "bt_get (cs_positions c') (t, p) = Some off"
proof -
  from assms(1) obtain c1 w1 u c2 w2 where x: "assign_each ops xs c w = Inr (c1, w1)"
      and a: "assign_partition ops t p off c1 w1 = (Inr u, c2, w2)" and y: "assign_each ops ys c2 w2 = Inr (c', w')"
    by (auto simp: assign_each_append split: prod.splits sum.splits)
  have wf: "bt_wf (cs_positions c1)" using assign_each_positions [OF x assms(2)] by blast
  note g = assign_partition_get [OF a wf]
  show ?thesis using assign_each_positions [OF y g(1)] g(4) assms(3-5) by simp
qed

text \<open>
  A cluster whose topics do not grow while the consumer is built: \<open>I\<close> holds of the cluster and is kept by what is asked of it, and as long as it does
  each of the topics is counted as having \<open>tally\<close> partitions.
\<close>

definition steady ::
  "('n cluster \<Rightarrow> bool) \<Rightarrow> (string \<Rightarrow> int) \<Rightarrow> string set \<Rightarrow> 'n env \<Rightarrow> 'n cluster consumer_ops \<Rightarrow> bool" where
  "steady I tally ts env ops \<longleftrightarrow>
     (\<forall>w t r w'. I w \<longrightarrow> t \<in> ts \<longrightarrow> cluster_partition_count env t w = (r, w') \<longrightarrow> I w' \<and> (\<forall>m. r = Inr m \<longrightarrow> m = tally t)) \<and>
     (\<forall>w t p. I w \<longrightarrow> I (snd (co_leader_addr ops w t p)) \<and> I (snd (co_refresh_metadata ops w t)) \<and> I (co_invalidate ops w t p)) \<and>
     (\<forall>w a rq. I w \<longrightarrow> I (snd (co_list_offsets ops w a rq))) \<and>
     (\<forall>w as d. I w \<longrightarrow> I (co_discard ops w as) \<and> I (co_sleep ops w d))"

lemma steadyD:
  assumes "steady I tally ts env ops" and "I w"
  shows "t \<in> ts \<Longrightarrow> cluster_partition_count env t w = (r, w') \<Longrightarrow> I w'" "t \<in> ts \<Longrightarrow> cluster_partition_count env t w = (Inr m, w') \<Longrightarrow> m = tally t"
    "co_leader_addr ops w t p = (r1, w') \<Longrightarrow> I w'" "co_refresh_metadata ops w t = (r2, w') \<Longrightarrow> I w'" "I (co_invalidate ops w t p)"
    "co_list_offsets ops w a rq = (r3, w') \<Longrightarrow> I w'" "I (co_discard ops w as)" "I (co_sleep ops w d)"
  using assms unfolding steady_def by (metis snd_conv)+

lemma steady_subset: "steady I tally ts env ops \<Longrightarrow> ts' \<subseteq> ts \<Longrightarrow> steady I tally ts' env ops"
  unfolding steady_def by blast

lemma list_offset_loop_steady:
  assumes "steady I tally ts env ops"
  shows "I w \<Longrightarrow> list_offset_loop ops topic part rq left w = (r, w') \<Longrightarrow> I w'"
proof (induction left arbitrary: w)
  case 0
  note d = steadyD [OF assms]
  from 0 show ?case
    by (subst (asm) list_offset_loop.simps)
       (auto simp: Let_def dest: d(3,4,6) intro: d(5) split: prod.splits sum.splits client_error.splits option.splits if_splits)
next
  case (Suc left)
  note d = steadyD [OF assms]
  have ref: "I v \<Longrightarrow> co_refresh_metadata ops (co_invalidate ops v topic part) topic = (r2, v') \<Longrightarrow> I v'" for v r2 v'
    using d(4) [OF d(5)] by blast
  have again: "I v \<Longrightarrow> list_offset_loop ops topic part rq left (co_sleep ops v LEADER_BACKOFF) = (r, w') \<Longrightarrow> I w'" for v
    using Suc.IH [OF d(8)] by blast
  show ?case
    using Suc.prems
    by (subst (asm) list_offset_loop.simps)
       (auto simp: Let_def dest: d(3) [rotated] d(6) [rotated] ref [rotated] again [rotated] split: prod.splits sum.splits client_error.splits option.splits if_splits)
qed

lemma assign_partition_steady:
  assumes "steady I tally ts env ops" and "I w" and "assign_partition ops t p off c w = (r, c', w')"
  shows "I w'"
proof -
  obtain c1 w1 where d: "discard_outstanding ops c w = (c1, w1)" by force
  then have w1: "I w1" using assms(1,2) by (auto simp: discard_outstanding_def dest: steadyD split: option.splits)
  obtain r2 w2 where m: "co_refresh_metadata ops w1 t = (r2, w2)" by force
  then have w2: "I w2" using assms(1) w1 by (auto dest: steadyD)
  have l: "I w3" if "list_offset ops t p off c2 w2 = (r3, c3, w3)" for c2 r3 c3 w3
    using that w2 assms(1) by (auto simp: list_offset_def discard_outstanding_def dest: list_offset_loop_steady steadyD split: prod.splits option.splits)
  from assms(3) w2 l show ?thesis
    by (auto simp: assign_partition_def d m Let_def split: sum.splits prod.splits if_splits)
qed

lemma assign_each_steady:
  "steady I tally ts env ops \<Longrightarrow> I w \<Longrightarrow> assign_each ops xs c w = Inr (c', w') \<Longrightarrow> I w'"
proof (induction ops xs c w rule: assign_each.induct)
  case (2 ops t p start xs c w)
  then show ?case by (auto dest: assign_partition_steady split: prod.splits sum.splits)
qed simp

lemma assign_every_positions:
  assumes "steady I tally (fst ` set xs) env ops" and "I w" and "assign_every env ops xs c w = Inr (c', w')" and "bt_wf (cs_positions c)"
  shows "I w' \<and> bt_wf (cs_positions c') \<and>
    set (bt_keys (cs_positions c')) = set (bt_keys (cs_positions c)) \<union> {(t, p) | t p. t \<in> fst ` set xs \<and> 0 \<le> p \<and> p < tally t} \<and>
    (\<forall>t p. t \<notin> fst ` set xs \<longrightarrow> bt_get (cs_positions c') (t, p) = bt_get (cs_positions c) (t, p)) \<and>
    (\<forall>us t off vs p. xs = us @ (t, At off) # vs \<longrightarrow> off \<noteq> EARLIEST \<longrightarrow> off \<noteq> LATEST \<longrightarrow> t \<notin> fst ` set vs \<longrightarrow> 0 \<le> p \<longrightarrow> p < tally t \<longrightarrow>
       bt_get (cs_positions c') (t, p) = Some off)"
  using assms
proof (induction xs arbitrary: c w)
  case Nil
  then show ?case by simp
next
  case (Cons x xs)
  obtain t s where x: "x = (t, s)" by (cases x)
  from Cons.prems(3) obtain m w1 c1 w2 where n: "cluster_partition_count env t w = (Inr m, w1)"
      and a: "assign_each ops (map (\<lambda>p. (t, p, s)) [0..m - 1]) c w1 = Inr (c1, w2)"
      and e: "assign_every env ops xs c1 w2 = Inr (c', w')"
    by (auto simp: x split: prod.splits sum.splits)
  have m: "I w1" "m = tally t" using steadyD(1,2) [OF Cons.prems(1,2) _ n] by (simp_all add: x)
  note g = assign_each_positions [OF a Cons.prems(4)]
  have st: "steady I tally (fst ` set xs) env ops" 
    using Cons.prems(1) by (rule steady_subset) auto
  have "I w2" by (rule assign_each_steady [OF Cons.prems(1) m(1) a])
  note IH = Cons.IH [OF st this e g [THEN conjunct1]]
  have range: "(t', p) \<in> set (asked (map (\<lambda>p. (t, p, s)) [0..m - 1])) \<longleftrightarrow> t' = t \<and> 0 \<le> p \<and> p < tally t" for t' p
    by (auto simp: m(2))
  have new: "bt_get (cs_positions c1) (t, p) = Some off" if "s = At off" "off \<noteq> EARLIEST" "off \<noteq> LATEST" "0 \<le> p" "p < tally t" for off p
  proof -
    have cut: "[0..m - 1] = [0..p - 1] @ p # [p + 1..m - 1]" using that(4,5) m(2) by (intro upto_split3) simp_all
    have "assign_each ops (map (\<lambda>p. (t, p, At off)) [0..p - 1] @ (t, p, At off) # map (\<lambda>p. (t, p, At off)) [p + 1..m - 1]) c w1 = Inr (c1, w2)"
      using a [unfolded cut that(1)] by (simp only: map_append list.map)
    moreover have "(t, p) \<notin> set (asked (map (\<lambda>p. (t, p, At off)) [p + 1..m - 1]))" by auto
    ultimately show ?thesis by (rule assign_each_stored [OF _ Cons.prems(4) that(2,3)])
  qed
  have "set (bt_keys (cs_positions c')) = set (bt_keys (cs_positions c)) \<union> {(t', p) | t' p. t' \<in> fst ` set (x # xs) \<and> 0 \<le> p \<and> p < tally t'}"
    using IH g range by (auto simp: x)
  moreover have "bt_get (cs_positions c') (t', p) = bt_get (cs_positions c) (t', p)" if "t' \<notin> fst ` set (x # xs)" for t' p
    using IH g range that by (simp add: x)
  moreover have "bt_get (cs_positions c') (t', p) = Some off"
    if "x # xs = us @ (t', At off) # vs" "off \<noteq> EARLIEST" "off \<noteq> LATEST" "t' \<notin> fst ` set vs" "0 \<le> p" "p < tally t'" for us t' off vs p
  proof (cases us)
    case Nil
    then have "t' = t" "s = At off" "xs = vs" using that(1) x by simp_all
    then show ?thesis using IH new that by simp
  next
    case (Cons u us')
    then have "xs = us' @ (t', At off) # vs" using that(1) by simp
    then show ?thesis using IH that(2-6) by blast
  qed
  ultimately show ?case using IH by blast
qed

lemma ready_settings_positions [simp]: "cs_positions (ready_settings r c) = cs_positions c"
  by (simp add: ready_settings_def set_max_wait_def set_prefetch_def set_incremental_fetch_def bump_def Let_def split: option.splits)

text \<open>
  C38: a built consumer holds what was asked for.  Let the topics not grow while \<open>build\<close> runs.  When it succeeds, the consumer holds all partitions of each
  topic of \<open>assign_all\<close>, from 0 up to the brokers' count, and every partition assigned one by one, and no others.  The last stored offset given
  for a partition is where it starts, whatever \<open>assign_all\<close> said of its topic; every other partition of a topic starts at the last stored offset
  given for the topic.  The two negative numbers that mean the earliest and the latest are not stored offsets.
\<close>
theorem built_consumer_holds_what_was_asked:
  assumes "consumer_build env ops n r = Inr (c, w)" and "cluster_connect env n (rb_bootstrap r) (rb_client_id r) = (Inr cl, n')"
    and "I (case rb_credentials r of None \<Rightarrow> cl | Some cred \<Rightarrow> set_credentials cl cred)"
    and "steady I tally (fst ` set (rb_every_partition r)) env ops"
  shows "set (bt_keys (cs_positions c)) =
      {(t, p) | t p. t \<in> fst ` set (rb_every_partition r) \<and> 0 \<le> p \<and> p < tally t} \<union> set (asked (rb_assignments r)) \<and>
    (\<forall>xs t p off ys. rb_assignments r = xs @ (t, p, At off) # ys \<longrightarrow> off \<noteq> - 1 \<longrightarrow> off \<noteq> - 2 \<longrightarrow>
       (t, p) \<notin> set (asked ys) \<longrightarrow> position_of c t p = Some off) \<and>
    (\<forall>xs t off ys p. rb_every_partition r = xs @ (t, At off) # ys \<longrightarrow> off \<noteq> - 1 \<longrightarrow> off \<noteq> - 2 \<longrightarrow> t \<notin> fst ` set ys \<longrightarrow>
       0 \<le> p \<longrightarrow> p < tally t \<longrightarrow> (t, p) \<notin> set (asked (rb_assignments r)) \<longrightarrow> position_of c t p = Some off)"
proof -
  let ?c = "ready_settings r (new_consumer (rb_isolation r))"
  let ?w = "case rb_credentials r of None \<Rightarrow> cl | Some cred \<Rightarrow> set_credentials cl cred"
  from assms(1) obtain c1 w1 where e: "assign_every env ops (rb_every_partition r) ?c ?w = Inr (c1, w1)"
      and a: "assign_each ops (rb_assignments r) c1 w1 = Inr (c, w)"
    by (auto simp: consumer_build_def assms(2) Let_def split: prod.splits sum.splits)
  have wf: "bt_wf (cs_positions ?c)" "set (bt_keys (cs_positions ?c)) = {}" by (simp_all add: new_consumer_def bt_keys_def)
  note every = assign_every_positions [OF assms(4,3) e wf(1)]
  then have wf1: "bt_wf (cs_positions c1)" by blast
  note each = assign_each_positions [OF a wf1]
  have one: "position_of c t p = Some off" if "rb_assignments r = xs @ (t, p, At off) # ys" "off \<noteq> - 1" "off \<noteq> - 2"
    "(t, p) \<notin> set (asked ys)" for xs t p off ys
    using assign_each_stored [OF a [unfolded that(1)] wf1] that(2-4) by (simp add: position_of_def EARLIEST_def LATEST_def)
  have all: "position_of c t p = Some off" if "rb_every_partition r = xs @ (t, At off) # ys" "off \<noteq> - 1" "off \<noteq> - 2" "t \<notin> fst ` set ys"
    "0 \<le> p" "p < tally t" "(t, p) \<notin> set (asked (rb_assignments r))" for xs t off ys p
    using every each that by (simp add: position_of_def EARLIEST_def LATEST_def)
  from every each wf(2) have "set (bt_keys (cs_positions c)) =
      {(t, p) | t p. t \<in> fst ` set (rb_every_partition r) \<and> 0 \<le> p \<and> p < tally t} \<union> set (asked (rb_assignments r))" by simp
  with one all show ?thesis by blast
qed

text \<open>One address that answers, no group, and a cluster that knows every topic.\<close>

definition still_ops :: "toy_net cluster consumer_ops" where
  "still_ops = \<lparr>co_leader_addr = (\<lambda>w t p. (Inl (NoLeader t p), w)), co_refresh_metadata = (\<lambda>w t. (Inr (), w)), co_is_stale = (\<lambda>w t. False),
     co_refresh_if_stale = (\<lambda>w t. (Inr None, w)), co_invalidate = (\<lambda>w t p. w), co_list_offsets = (\<lambda>w a rq. (Inl (Io []), w)),
     co_send_fetch = (\<lambda>w a rq. (Inr (), w)), co_recv_fetches = (\<lambda>w as. ([], w)), co_discard = (\<lambda>w as. w), co_sleep = (\<lambda>w d. w),
     co_now = (\<lambda>w. 0), co_codecs = undefined, co_decode_set = (\<lambda>bs. Inl []), co_group = undefined\<rparr>"

definition first_cluster :: "toy_net cluster" where
  "first_cluster = projr (fst (cluster_connect toy_env [] [''h:9092''] ''c''))"

definition counted_cluster :: "toy_net cluster" where
  "counted_cluster = snd (cluster_partition_count toy_env ''t'' first_cluster)"

lemma toy_counts:
  "cluster_partition_count toy_env ''t'' first_cluster = (Inr 1, counted_cluster)"
  "cluster_partition_count toy_env ''t'' counted_cluster = (Inr 1, counted_cluster)"
proof -
  have "fst (cluster_partition_count toy_env ''t'' first_cluster) = Inr 1" by code_simp
  then show "cluster_partition_count toy_env ''t'' first_cluster = (Inr 1, counted_cluster)" by (simp add: counted_cluster_def prod_eq_iff)
  have "partition_count (cl_metadata counted_cluster) ''t'' = 1" by code_simp
  moreover have "is_metadata_stale toy_env ''t'' counted_cluster = False" by code_simp
  ultimately show "cluster_partition_count toy_env ''t'' counted_cluster = (Inr 1, counted_cluster)"
    by (simp add: cluster_partition_count_def Let_def)
qed

theorem built_consumer_holds_what_was_asked_witness:
  "\<exists>c w. consumer_build toy_env still_ops [] (ready_assign ''u'' 4 (At 9)
      (ready_assign_all ''t'' (At 3) (needs_client_id [''h:9092''] ''c''))) = Inr (c, w) \<and>
    set (bt_keys (cs_positions c)) = {(''t'', 0), (''u'', 4)} \<and> position_of c ''t'' 0 = Some 3 \<and> position_of c ''u'' 4 = Some 9"
proof -
  define r where "r = ready_assign ''u'' 4 (At 9) (ready_assign_all ''t'' (At 3) (needs_client_id [''h:9092''] ''c''))"
  have fields: "rb_assignments r = [(''u'', 4, At 9)]" "rb_every_partition r = [(''t'', At 3)]" "rb_credentials r = None"
    "rb_bootstrap r = [''h:9092'']" "rb_client_id r = ''c''"
    by (simp_all add: r_def ready_assign_def ready_assign_all_def needs_client_id_def)
  have "isl (consumer_build toy_env still_ops [] (ready_assign ''u'' 4 (At 9)
      (ready_assign_all ''t'' (At 3) (needs_client_id [''h:9092''] ''c'')))) = False" by code_simp
  then obtain c w where b: "consumer_build toy_env still_ops [] r = Inr (c, w)" unfolding r_def by (metis sum.collapse(2) prod.collapse)
  have "isl (fst (cluster_connect toy_env [] [''h:9092''] ''c'')) = False" by code_simp
  then have conn: "cluster_connect toy_env [] (rb_bootstrap r) (rb_client_id r) =
      (Inr first_cluster, snd (cluster_connect toy_env [] [''h:9092''] ''c''))"
    unfolding fields first_cluster_def by (metis prod.collapse sum.collapse(2))
  let ?I = "\<lambda>w. w = first_cluster \<or> w = counted_cluster"
  have "steady ?I (\<lambda>_. 1) (fst ` set (rb_every_partition r)) toy_env still_ops"
    unfolding steady_def fields by (auto simp: toy_counts still_ops_def)
  note built = built_consumer_holds_what_was_asked [OF b conn _ this]
  have "position_of c ''u'' 4 = Some 9"
    using built [THEN conjunct2, THEN conjunct1, rule_format, of "[]" "''u''" 4 9 "[]"] by (simp add: fields)
  moreover have "position_of c ''t'' 0 = Some 3"
    using built [THEN conjunct2, THEN conjunct2, rule_format, of "[]" "''t''" 3 "[]" 0] by (simp add: fields)
  moreover have "set (bt_keys (cs_positions c)) = {(''t'', 0), (''u'', 4)}" 
  proof -
    have "{(t, p) | t p. t \<in> fst ` set (rb_every_partition r) \<and> 0 \<le> p \<and> p < (1 :: int)} = {(''t'', 0)}" by (auto simp: fields)
    then show ?thesis using built [THEN conjunct1] by (simp add: fields insert_commute)
  qed
  ultimately show ?thesis using b unfolding r_def by blast
qed

section \<open>What the types do not keep apart\<close>

text \<open>
  Two stored offsets are the sentinels: \<open>At (- 1)\<close> builds the same consumer as \<open>Latest\<close>, and \<open>At (- 2)\<close> as \<open>Earliest\<close>,
  although the type is there to keep them apart.
\<close>
theorem stored_sentinels_are_looked_up:
  "consumer_build env ops n (ready_assign t p (At (- 1)) r) = consumer_build env ops n (ready_assign t p Latest r)"
  "consumer_build env ops n (ready_assign t p (At (- 2)) r) = consumer_build env ops n (ready_assign t p Earliest r)"
  by (simp_all add: consumer_build_def ready_assign_def ready_settings_def assign_each_append EARLIEST_def LATEST_def Let_def
      split: prod.splits sum.splits)

text \<open>
  A consumer built with credentials, and nothing assigned, has in its pool a connection that was opened without them: they are set after \<open>connect\<close> opened it.
\<close>
theorem built_with_credentials_starts_without:
  assumes "consumer_build env ops n (ready_credentials cred (needs_client_id bootstrap cid)) = Inr (c, w)"
  shows "cl_credentials w = Some cred \<and>
    (\<exists>a b n0. a \<in> set bootstrap \<and> fst (broker_connect env a cid None n0) = Inr b \<and> broker_at env a w = (Inr b, w))"
proof -
  from assms obtain cl n' where "cluster_connect env n bootstrap cid = (Inr cl, n')" "w = set_credentials cl cred"
    by (auto simp: consumer_build_def ready_credentials_def needs_client_id_def Let_def split: prod.splits sum.splits)
  then show ?thesis using connected_without_credentials [of env n bootstrap cid cl n' cred] by (simp add: set_credentials_def)
qed

lemma init_producer_id_result:
  assumes "init_producer_id ops p = (Inr u, p')"
  shows "keeps_queues p p' \<and> (\<exists>i. pd_state p' = on_init_producer_id (pd_state p) i)"
  using assms by (auto simp: init_producer_id_def keeps_queues_def dest!: coordinator_call_frame split: prod.splits sum.splits)

text \<open>
  A producer that was built can produce: it has an identity and is ready, it is transactional exactly when it was given an id, its queues are
  empty, and its window is as set and not zero.
\<close>
theorem built_producer_is_ready:
  assumes "producer_build env n r = Inr p"
  shows "identity (pd_state p) \<noteq> None \<and> txn (pd_state p) = Ready \<and>
    transactional (pd_state p) = (pb_transactional_id r \<noteq> None) \<and> pd_pending p = [] \<and> pd_staged p = [] \<and>
    pd_max_in_flight p = (case pb_max_in_flight r of None \<Rightarrow> DEFAULT_MAX_IN_FLIGHT | Some x \<Rightarrow> x) \<and> 0 < pd_max_in_flight p"
proof -
  let ?st = "if pb_transactional_id r = None then idempotent_producer else transactional_producer"
  from assms obtain cl u q where q: "init_producer_id (cluster_ops_of env) (fresh_producer cl ?st (pb_transactional_id r)) = (Inr u, q)"
      and p: "pd_state p = pd_state q" "pd_pending p = pd_pending q" "pd_staged p = pd_staged q"
      "pd_max_in_flight p = (case pb_max_in_flight r of None \<Rightarrow> pd_max_in_flight q | Some x \<Rightarrow> x)" "pb_max_in_flight r \<noteq> Some 0"
    by (auto simp: producer_build_def open_transactional_def open_idempotent_def finish_construction_def set_compression_def
        set_partitioner_def set_max_in_flight_def Let_def split: prod.splits sum.splits option.splits if_splits)
  note i = init_producer_id_result [OF q]
  have "pd_pending q = [] \<and> pd_staged q = [] \<and> pd_max_in_flight q = DEFAULT_MAX_IN_FLIGHT"
    using keeps_queuesD [OF i [THEN conjunct1]] by (simp add: fresh_producer_def)
  with i [THEN conjunct2] p show ?thesis
    by (auto simp: fresh_producer_def on_init_producer_id_def idempotent_producer_def transactional_producer_def
        default_producer_def DEFAULT_MAX_IN_FLIGHT_def split: option.splits)
qed

end
