(* ===== verification/Spec2Isabelle.thy ===== *)
theory Spec2Isabelle
  imports Window_Spec Producer_Laws Cluster_Laws Futures Consumer_Invariant Admin Builder
begin

text \<open>
  A verification library for barnabas, a Kafka client in Rust.

  \<^bold>\<open>The program.\<close>  \<^verbatim>\<open>barnabas-core\<close> is the protocol without I/O: framing, correlation, the record-batch reader, the
  idempotent producer's state, the consumer group's rules.  \<^verbatim>\<open>barnabas-client\<close> puts it on sockets: a pool of
  connections (\<^verbatim>\<open>cluster.rs\<close>), and over it a producer, a consumer, the group client and an admin client.  Every client
  owns one \<^verbatim>\<open>Cluster\<close>; the consumer owns a \<^verbatim>\<open>ClassicProtocol\<close> while it is subscribed and drives it from \<^verbatim>\<open>poll\<close>; the
  producer's window and the consumer's prefetch leave requests unanswered on pooled connections, so what
  else may use a connection matters.  \<^verbatim>\<open>spec/ProducerWindow.tla\<close> is the repository's own specification of the window.

  \<^bold>\<open>Modelling.\<close>  A struct is a record, an enum a datatype, a method a function from the state to its result and the
  state it leaves, also when it fails.  \<^verbatim>\<open>Result\<close> is a sum; a panic (\<^verbatim>\<open>expect\<close>, \<^verbatim>\<open>assert!\<close>, a slice out of range) is the
  value \<open>Panicked\<close> of type \<open>failure\<close>.  \<^verbatim>\<open>BTreeMap\<close> is the ordered association list \<open>btree\<close> of \<open>Prelude\<close>, an instance of the
  locale \<open>ordered_map\<close>.  Signed integers are \<open>int\<close> with \<open>wrap32\<close> or \<open>wrap64\<close> where the code can overflow, hashes and
  bytes are words.  An \<^verbatim>\<open>await\<close> is a call; the calls of one task do not interleave with each other, and whatever else happens is
  in the state that is threaded through.

  \<^bold>\<open>The core.\<close>
  \<^item> \<open>Errors\<close> (\<^verbatim>\<open>lib.rs\<close>), \<open>Frame\<close> (\<^verbatim>\<open>frame.rs\<close>), \<open>Conn\<close> (\<^verbatim>\<open>conn.rs\<close>): any split of the byte stream gives back the frames
    that were written, pipelined requests get their own answers in order, outstanding ids are distinct.
  \<^item> \<open>Records\<close>, \<open>Batch_Filter\<close> (\<^verbatim>\<open>records.rs\<close>), \<open>Consumer_Filter\<close> (\<^verbatim>\<open>consumer.rs\<close>): the reader inverts the format and its
    ranges never panic; both filters deliver exactly what READ_COMMITTED allows, one proved against a specification by
    offset ranges, the other against the first; both satisfy the locale \<open>offset_fetch\<close>, from which it follows that no offset is delivered twice.
  \<^item> \<open>Producer_State\<close> (\<^verbatim>\<open>producer.rs\<close>): the locale \<open>sequence_source\<close>, and that sequence numbers are contiguous over
    every interleaving of batches and transactions.
  \<^item> \<open>Metadata\<close>, \<open>Partitioner\<close>: merging and invalidation; the locale \<open>placement\<close>.
  \<^item> \<open>Group\<close> (\<^verbatim>\<open>group.rs\<close>): the trait \<^verbatim>\<open>Assignor\<close> as the locales \<open>assignor\<close> and \<open>complete_assignor\<close>, interpreted for the four strategies.
  \<^item> \<open>Member\<close> (\<^verbatim>\<open>member.rs\<close>): the membership as the step relation \<open>member_step\<close>, with its invariant over every
    reachable state from the locale \<open>invariant_machine\<close>.

  \<^bold>\<open>The producer.\<close>
  \<^item> \<open>Client\<close> has the errors and \<open>cluster_ops\<close>, what the producer calls of the cluster layer; \<open>Producer_Window\<close> the
    pipelined window and \<open>flush_pending\<close>; \<open>Producer_Client\<close> the rest of \<^verbatim>\<open>producer.rs\<close>.
  \<^item> \<open>Window_Exchange\<close> states the contract of the cluster layer, \<open>pipelined\<close>.  \<open>Window_Safety\<close> shows under it that \<open>flush\<close> retires
    only what a broker wrote and never fences itself, whatever fails.  \<open>Window_Progress\<close> shows what is delivered when
    nothing fails, and the queue length from which \<open>flush\<close> gives up.  \<open>Window_Spec\<close> shows that \<open>flush\<close> is a run of \<open>SendWindow\<close>.
  \<^item> \<open>Producer_Laws\<close>: queueing in sequence order, enrolment, transactions, staging.

  \<^bold>\<open>The connections.\<close>
  \<^item> \<open>Sasl\<close> (\<^verbatim>\<open>sasl.rs\<close>): PLAIN and SCRAM; the exchange completes with the password and only with it.
  \<^item> \<open>Broker\<close> and \<open>Cluster\<close> (\<^verbatim>\<open>cluster.rs\<close>): one connection, and the pool over it.  The outside is the record \<open>env\<close>.
  \<^item> \<open>Wire\<close> says what is relied on of a network, \<open>Wire_Pool\<close> what each operation of the pool does to the
    answers outstanding on it, and \<open>Wire_Window\<close> that the pool satisfies \<open>pipelined\<close>, so that the results on \<open>flush\<close> hold over the connections
    themselves.  \<open>Toy_Network\<close> is a network on which those hypotheses hold.
  \<^item> \<open>Cluster_Laws\<close>: retries, dropped and kept connections, and that a receive ends.
  \<^item> \<open>Futures\<close> (\<^verbatim>\<open>join.rs\<close>, \<^verbatim>\<open>timeout.rs\<close>): the two hand-written combinators.

  \<^bold>\<open>The consumer, the group, the rest.\<close>
  \<^item> \<open>Group_Client\<close> (\<^verbatim>\<open>group.rs\<close> of the client) over \<open>group_ops\<close>; \<open>Group_Laws\<close>: the blobs round-trip, the leader tells every member its
    share of a sound assignment, commits are fenced, what is announced and what is not.
  \<^item> \<open>Consumer_Client\<close> (\<^verbatim>\<open>consumer.rs\<close> of the client) over \<open>consumer_ops\<close>; \<open>Consumer_Laws\<close>: reading forward, one fetch per
    broker, complete incremental sessions, no panic, and the error paths that lose something; \<open>Consumer_Invariant\<close>: the state after any
    sequence of calls is well formed.  \<open>Map_Items\<close> has the lemmas on grouping both use.
  \<^item> \<open>Admin\<close> (\<^verbatim>\<open>admin.rs\<close>) and \<open>Builder\<close> (\<^verbatim>\<open>builder.rs\<close>), each with its laws.

  \<^bold>\<open>Loops and bounds.\<close>  The retry loops run over the attempts the code allows: the list \<open>[0..<MAX_RETRIES]\<close> in the producer, a
  number of attempts left in the pool (two), the group's coordinator lookup (\<open>COORDINATOR_RETRIES\<close>), the offset lookups
  (\<open>MAX_LEADER_RETRIES\<close>), the admin client (\<open>ADMIN_RETRIES\<close>) and the steps of one \<open>advance_group\<close> (\<open>MAX_STEPS\<close>, twenty); the branch
  taken when they run out is the code's.  No fuel is involved.  \<open>broker_recv\<close> recurses on what the largest frame still lacks, since a read that
  returns no byte ends it, and \<open>recv_terminates\<close> bounds its reads.  \<open>decode_record_sets\<close> and the batch loops recurse on the bytes that are left:
  a batch takes at least its twelve bytes of prefix.

  \<^bold>\<open>Parameters.\<close>  The \<^verbatim>\<open>kafka-protocol\<close> codec, the checksum, the decompressors, the hash functions, the transport, the clocks, and the
  order in which a \<^verbatim>\<open>HashMap\<close> is read where the code takes one of its keys (\<open>first_key\<close>, \<open>ao_brokers\<close>) are arguments.  API
  keys and versions are the numbers of Kafka's protocol.  What a theorem needs of a parameter is a hypothesis of it:
  that a codec reads back what it wrote, that a broker answers a connection's requests in order, that it deduplicates.

  \<^bold>\<open>Not modelled.\<close>  The runtime bindings (\<^verbatim>\<open>barnabas-tokio\<close>, \<^verbatim>\<open>barnabas-glommio\<close>) are sockets and TLS: they are the transport.  The
  benchmark program measures and has no contract.  Tracing, wakers and \<^verbatim>\<open>Debug\<close> output are left out, as are the read buffer's
  storage and the assertion of \<^verbatim>\<open>clamp\<close> in version negotiation, which fails only for a version range that is empty.
  \<open>recv_many\<close> polls its reads concurrently in the code and runs them one after the other here; they use distinct
  connections and one deadline.
\<close>

end
